(* ===== verification/Prelude.thy ===== *)
theory Prelude
  imports Main "HOL-Library.Word" "HOL-Library.AList" "HOL-Library.Sublist"
    "HOL-Library.Product_Lexorder" "HOL-Library.Char_ord"
begin

text \<open>
  Prelude: the type synonyms of the Go integers, the model of a Go map, the lemma
  collections of the development and the generic lemmas its components share.

  A Go map is an association list with one entry for each key. The list order stands for
  the iteration order of a \<^verbatim>\<open>range\<close> loop, which Go leaves open: a theorem that holds for
  every list holds for every iteration order. Go strings are byte strings, and a \<^typ>\<open>char\<close>
  of HOL is one byte.
\<close>

unbundle bit_operations_syntax

section \<open>Integers of the source language\<close>

type_synonym u8 = "8 word"
type_synonym i8 = "8 word"
type_synonym u32 = "32 word"
type_synonym u64 = "64 word"

text \<open>\<^typ>\<open>i8\<close> is Go's \<^verbatim>\<open>int8\<close>: comparisons read it with \<^const>\<open>sint\<close>.\<close>

abbreviation i8_less :: "i8 \<Rightarrow> i8 \<Rightarrow> bool" where
  "i8_less a b \<equiv> sint a < sint b"

section \<open>Go maps\<close>

type_synonym ('k, 'v) gomap = "('k \<times> 'v) list"

abbreviation mget :: "('k, 'v) gomap \<Rightarrow> 'k \<Rightarrow> 'v option" where
  "mget \<equiv> map_of"

abbreviation mput :: "'k \<Rightarrow> 'v \<Rightarrow> ('k, 'v) gomap \<Rightarrow> ('k, 'v) gomap" where
  "mput \<equiv> AList.update"

abbreviation mdel :: "'k \<Rightarrow> ('k, 'v) gomap \<Rightarrow> ('k, 'v) gomap" where
  "mdel \<equiv> AList.delete"

abbreviation mkeys :: "('k, 'v) gomap \<Rightarrow> 'k list" where
  "mkeys m \<equiv> map fst m"

definition wfmap :: "('k, 'v) gomap \<Rightarrow> bool" where
  "wfmap m \<longleftrightarrow> distinct (mkeys m)"

lemma wfmap_Nil [simp, intro]: "wfmap []"
  by (simp add: wfmap_def)

lemma wfmap_mput [simp, intro]: "wfmap m \<Longrightarrow> wfmap (mput k v m)"
  unfolding wfmap_def by (rule distinct_update)

lemma wfmap_mdel [simp, intro]: "wfmap m \<Longrightarrow> wfmap (mdel k m)"
  unfolding wfmap_def by (rule distinct_delete)

lemma wfmap_get_iff: "wfmap m \<Longrightarrow> mget m k = Some v \<longleftrightarrow> (k, v) \<in> set m"
  by (simp add: wfmap_def)

lemma mget_mput [simp]: "mget (mput k v m) = (mget m)(k \<mapsto> v)"
  by (rule update_conv')

lemma mget_mdel [simp]: "mget (mdel k m) = (mget m)(k := None)"
  by (rule delete_conv')

lemma set_mput_subset: "set (mput k v m) \<subseteq> insert (k, v) (set m)"
  by (induction m) auto

lemma set_mdel: "set (mdel k m) = {p \<in> set m. fst p \<noteq> k}"
  by (auto simp: AList.delete_eq)

lemma mkeys_get: "k \<in> set (mkeys m) \<longleftrightarrow> mget m k \<noteq> None"
  by (simp add: map_of_eq_None_iff)

lemma mget_Some_key: "mget m k = Some v \<Longrightarrow> k \<in> fst ` set m"
  by (metis domI dom_map_of_conv_image_fst)

text \<open>Induction on a map as a list of its entries.\<close>

lemma gomap_induct [case_names Nil Cons]:
  "P [] \<Longrightarrow> (\<And>key value rest. P rest \<Longrightarrow> P ((key, value) # rest)) \<Longrightarrow> P m"
  by (induction m) auto

lemma mget_same_set: "wfmap m \<Longrightarrow> wfmap m' \<Longrightarrow> set m = set m' \<Longrightarrow> mget m = mget m'"
  unfolding wfmap_def by (simp add: map_of_inject_set)

end
