(* ===== verification/GoText.thy ===== *)
theory GoText
  imports Prelude
begin

text \<open>
  The string functions of Go's standard library that the program calls, on byte strings:
  \<^verbatim>\<open>strings.TrimSpace\<close>, \<^verbatim>\<open>strings.Fields\<close>, \<^verbatim>\<open>strings.Split\<close>, \<^verbatim>\<open>strings.LastIndex\<close>,
  \<^verbatim>\<open>strings.TrimSuffix\<close>, \<^verbatim>\<open>filepath.Base\<close>, \<^verbatim>\<open>bytes.Trim\<close>, \<^verbatim>\<open>strconv.ParseUint\<close> and \<^verbatim>\<open>strconv.FormatUint\<close>.
  They are the library the components rest on and map to no line of the repository. White
  space is Unicode's, as UTF-8 byte sequences: a byte of a longer rune never starts
  such a sequence, so scanning byte by byte finds the runes Go finds.
\<close>

section \<open>White space\<close>

definition go_spaces :: "string list" where
  "go_spaces =
    [[CHR 0x09], [CHR 0x0A], [CHR 0x0B], [CHR 0x0C], [CHR 0x0D], [CHR 0x20],
     [CHR 0xC2, CHR 0x85], [CHR 0xC2, CHR 0xA0], [CHR 0xE1, CHR 0x9A, CHR 0x80],
     [CHR 0xE2, CHR 0x80, CHR 0x80], [CHR 0xE2, CHR 0x80, CHR 0x81],
     [CHR 0xE2, CHR 0x80, CHR 0x82], [CHR 0xE2, CHR 0x80, CHR 0x83],
     [CHR 0xE2, CHR 0x80, CHR 0x84], [CHR 0xE2, CHR 0x80, CHR 0x85],
     [CHR 0xE2, CHR 0x80, CHR 0x86], [CHR 0xE2, CHR 0x80, CHR 0x87],
     [CHR 0xE2, CHR 0x80, CHR 0x88], [CHR 0xE2, CHR 0x80, CHR 0x89],
     [CHR 0xE2, CHR 0x80, CHR 0x8A], [CHR 0xE2, CHR 0x80, CHR 0xA8],
     [CHR 0xE2, CHR 0x80, CHR 0xA9], [CHR 0xE2, CHR 0x80, CHR 0xAF],
     [CHR 0xE2, CHR 0x81, CHR 0x9F], [CHR 0xE3, CHR 0x80, CHR 0x80]]"

definition starts_with :: "'a list \<Rightarrow> 'a list \<Rightarrow> bool" where
  "starts_with p s \<longleftrightarrow> take (length p) s = p"

text \<open>The number of bytes of the white-space rune at the head of the string, 0 if there is none.\<close>

definition space_len :: "string \<Rightarrow> nat" where
  "space_len s = (case find (\<lambda>r. starts_with r s) go_spaces of None \<Rightarrow> 0 | Some r \<Rightarrow> length r)"

definition space_len_back :: "string \<Rightarrow> nat" where
  "space_len_back s =
     (case find (\<lambda>r. starts_with (rev r) s) go_spaces of None \<Rightarrow> 0 | Some r \<Rightarrow> length r)"

lemma starts_with_length: "starts_with p s \<Longrightarrow> length p \<le> length s"
  unfolding starts_with_def by (metis length_take min.cobounded1)

lemma space_len_le: "space_len s \<le> length s"
  by (auto simp: space_len_def find_Some_iff dest: starts_with_length split: option.splits)

lemma space_len_back_le: "space_len_back s \<le> length s"
  by (auto simp: space_len_back_def find_Some_iff dest: starts_with_length split: option.splits)

lemma space_len_Nil [simp]: "space_len [] = 0"
  using space_len_le [of "[]"] by simp

lemma space_len_back_Nil [simp]: "space_len_back [] = 0"
  using space_len_back_le [of "[]"] by simp

text \<open>\<^verbatim>\<open>strings.TrimSpace\<close>: drop white-space runes at the front, then at the back.\<close>

function trim_by :: "(string \<Rightarrow> nat) \<Rightarrow> string \<Rightarrow> string" where
  "trim_by f s = (if 0 < f s \<and> f s \<le> length s then trim_by f (drop (f s) s) else s)"
  by pat_completeness auto
termination
  by (relation "measure (\<lambda>(f, s). length s)") auto

declare trim_by.simps [simp del]

definition TrimSpace :: "string \<Rightarrow> string" where
  "TrimSpace s = rev (trim_by space_len_back (rev (trim_by space_len s)))"

text \<open>
  \<^verbatim>\<open>strings.Fields\<close>. The second argument counts the bytes that are left of the
  white-space rune being skipped, the first holds the field being read.
\<close>

definition flush_field :: "string \<Rightarrow> string list" where
  "flush_field cur = (if cur = [] then [] else [cur])"

fun fields_from :: "string \<Rightarrow> nat \<Rightarrow> string \<Rightarrow> string list" where
  "fields_from cur skip [] = flush_field cur"
| "fields_from cur (Suc n) (c # cs) = fields_from cur n cs"
| "fields_from cur 0 (c # cs) =
     (let n = space_len (c # cs)
      in if 0 < n then flush_field cur @ fields_from [] (n - 1) cs
         else fields_from (cur @ [c]) 0 cs)"

definition Fields :: "string \<Rightarrow> string list" where
  "Fields s = fields_from [] 0 s"

section \<open>Splitting, searching, trimming\<close>

text \<open>\<^verbatim>\<open>strings.Split\<close> at a one-byte separator: always at least one part.\<close>

fun split_on :: "'a \<Rightarrow> 'a list \<Rightarrow> 'a list list" where
  "split_on sep [] = [[]]"
| "split_on sep (c # cs) =
     (if c = sep then [] # split_on sep cs
      else (case split_on sep cs of [] \<Rightarrow> [[c]] | p # ps \<Rightarrow> (c # p) # ps))"

text \<open>\<^verbatim>\<open>strings.LastIndex\<close> of a one-byte string, \<open>None\<close> for Go's \<open>-1\<close>.\<close>

fun last_index :: "'a \<Rightarrow> 'a list \<Rightarrow> nat option" where
  "last_index c [] = None"
| "last_index c (x # xs) =
     (case last_index c xs of
        Some i \<Rightarrow> Some (Suc i)
      | None \<Rightarrow> if x = c then Some 0 else None)"

definition TrimSuffix :: "string \<Rightarrow> string \<Rightarrow> string" where
  "TrimSuffix s suf = (if suffix suf s then take (length s - length suf) s else s)"

text \<open>\<^verbatim>\<open>bytes.Trim\<close> with a one-byte cutset.\<close>

definition trim_byte :: "'a \<Rightarrow> 'a list \<Rightarrow> 'a list" where
  "trim_byte c s = rev (dropWhile (\<lambda>x. x = c) (rev (dropWhile (\<lambda>x. x = c) s)))"

fun join_with :: "'a list \<Rightarrow> 'a list list \<Rightarrow> 'a list" where
  "join_with sep [] = []"
| "join_with sep [p] = p"
| "join_with sep (p # q # ps) = p @ sep @ join_with sep (q # ps)"

lemma split_on_not_Nil [simp]: "split_on sep s \<noteq> []"
  by (cases s) (auto split: list.splits)

lemma last_index_None: "last_index c xs = None \<longleftrightarrow> c \<notin> set xs"
  by (induction xs) (auto split: option.splits)

lemma last_index_append:
  "c \<notin> set ys \<Longrightarrow> last_index c (xs @ c # ys) = Some (length xs)"
  by (induction xs) (auto simp: last_index_None split: option.splits)

lemma split_on_no_sep: "sep \<notin> set s \<Longrightarrow> split_on sep s = [s]"
  by (induction s) auto

lemma split_on_append:
  "sep \<notin> set p \<Longrightarrow> split_on sep (p @ sep # s) = p # split_on sep s"
  by (induction p) auto

lemma split_on_parts: "p \<in> set (split_on sep s) \<Longrightarrow> sep \<notin> set p \<and> set p \<subseteq> set s"
  by (induction s arbitrary: p) (fastforce split: if_splits list.splits)+

lemma split_join:
  assumes "ps \<noteq> []" and "\<forall>p \<in> set ps. sep \<notin> set p"
  shows "split_on sep (join_with [sep] ps) = ps"
  using assms
  by (induction "[sep]" ps rule: join_with.induct) (auto simp: split_on_no_sep split_on_append)

section \<open>Numbers\<close>

text \<open>
  \<^verbatim>\<open>strconv.ParseUint(s, base, bits)\<close> for an explicit base: digits and letters, either
  case. The loop stops at the first byte that is not a digit of the base, or at the first
  prefix whose value does not fit, whichever comes first.
\<close>

datatype num_error = ErrSyntax | ErrRange

definition digit_val :: "char \<Rightarrow> nat option" where
  "digit_val c =
     (let b = of_char c :: nat
      in if 48 \<le> b \<and> b \<le> 57 then Some (b - 48)
         else if 97 \<le> b \<and> b \<le> 122 then Some (b - 87)
         else if 65 \<le> b \<and> b \<le> 90 then Some (b - 55)
         else None)"

fun parse_digits :: "nat \<Rightarrow> nat \<Rightarrow> nat \<Rightarrow> string \<Rightarrow> num_error + nat" where
  "parse_digits base bits n [] = Inr n"
| "parse_digits base bits n (c # cs) =
     (case digit_val c of
        None \<Rightarrow> Inl ErrSyntax
      | Some d \<Rightarrow>
          if base \<le> d then Inl ErrSyntax
          else if 2 ^ bits \<le> n * base + d then Inl ErrRange
          else parse_digits base bits (n * base + d) cs)"

definition ParseUint :: "nat \<Rightarrow> nat \<Rightarrow> string \<Rightarrow> num_error + nat" where
  "ParseUint base bits s = (if s = [] then Inl ErrSyntax else parse_digits base bits 0 s)"

text \<open>
  \<^verbatim>\<open>strconv.ParseInt\<close>: an optional sign and digits, in the range of a signed integer of that many
  bits. \<^verbatim>\<open>strconv.Atoi\<close> reads decimal 64-bit integers.
\<close>

definition ParseInt :: "nat \<Rightarrow> nat \<Rightarrow> string \<Rightarrow> num_error + int" where
  "ParseInt base bits s =
     (let neg = (s \<noteq> [] \<and> hd s = CHR ''-'');
          digits = (if s \<noteq> [] \<and> (hd s = CHR ''-'' \<or> hd s = CHR ''+'') then tl s else s)
      in case ParseUint base bits digits of
           Inl e \<Rightarrow> Inl e
         | Inr un \<Rightarrow>
             if \<not> neg \<and> un \<ge> 2 ^ (bits - 1) then Inl ErrRange
             else if neg \<and> un > 2 ^ (bits - 1) then Inl ErrRange
             else Inr (if neg then - int un else int un))"

abbreviation Atoi :: "string \<Rightarrow> num_error + int" where
  "Atoi \<equiv> ParseInt 10 64"

definition digit_char :: "nat \<Rightarrow> char" where
  "digit_char d = (if d < 10 then char_of (48 + d) else char_of (87 + d))"

text \<open>\<^verbatim>\<open>strconv.FormatUint\<close>, for bases from 2 on.\<close>

fun format_digits :: "nat \<Rightarrow> nat \<Rightarrow> string" where
  "format_digits base n =
     (if base < 2 \<or> n < base then [digit_char n]
      else format_digits base (n div base) @ [digit_char (n mod base)])"

declare format_digits.simps [simp del]

abbreviation dec :: "nat \<Rightarrow> string" where
  "dec \<equiv> format_digits 10"

lemma digit_val_char [simp]: "d < 36 \<Longrightarrow> digit_val (digit_char d) = Some d"
  by (simp add: digit_val_def digit_char_def Let_def)

lemma parse_digits_bound:
  "parse_digits base bits n s = Inr r \<Longrightarrow> n < 2 ^ bits \<Longrightarrow> r < 2 ^ bits"
  by (induction s arbitrary: n) (auto split: option.splits if_splits)

lemma ParseUint_bound: "ParseUint base bits s = Inr r \<Longrightarrow> r < 2 ^ bits"
  by (auto simp: ParseUint_def split: if_splits dest: parse_digits_bound)

lemma parse_digits_append:
  assumes "parse_digits base bits n s = Inr r"
  shows "parse_digits base bits n (s @ t) = parse_digits base bits r t"
  using assms by (induction s arbitrary: n) (auto split: option.splits if_splits)

lemma parse_format_digits:
  assumes "2 \<le> base" "base \<le> 36" "n < 2 ^ bits"
  shows "parse_digits base bits 0 (format_digits base n) = Inr n"
  using assms
proof (induction base n rule: format_digits.induct)
  case (1 base n)
  show ?case
  proof (cases "n < base")
    case True
    with 1 show ?thesis by (simp add: format_digits.simps [of base n])
  next
    case False
    have lt: "n div base < 2 ^ bits"
      using 1 by (meson div_le_dividend le_less_trans)
    have "parse_digits base bits 0 (format_digits base (n div base)) = Inr (n div base)"
      using 1 False lt by simp
    moreover have "n mod base < base" "n mod base < 36"
      using "1.prems" by (auto intro: less_le_trans [of _ base])
    ultimately show ?thesis
      using "1.prems" False
      by (simp add: format_digits.simps [of base n] parse_digits_append not_le)
  qed
qed

lemma format_digits_not_Nil [simp]: "format_digits base n \<noteq> []"
  by (subst format_digits.simps) simp

lemma ParseUint_format:
  "2 \<le> base \<Longrightarrow> base \<le> 36 \<Longrightarrow> n < 2 ^ bits \<Longrightarrow>
   ParseUint base bits (format_digits base n) = Inr n"
  by (simp add: ParseUint_def parse_format_digits)

text \<open>Leading zeros are accepted.\<close>

lemma parse_digits_zeros:
  "0 < base \<Longrightarrow> parse_digits base bits 0 (replicate k CHR ''0'' @ s) = parse_digits base bits 0 s"
  by (induction k) (auto simp: digit_val_def)

section \<open>Fields of a line of plain tokens\<close>

definition plain :: "char \<Rightarrow> bool" where
  "plain c \<longleftrightarrow> 33 \<le> (of_char c :: nat) \<and> (of_char c :: nat) \<le> 126"

lemma go_spaces_not_plain: "r \<in> set go_spaces \<Longrightarrow> r \<noteq> [] \<and> \<not> plain (hd r)"
proof -
  have "list_all (\<lambda>r. r \<noteq> [] \<and> \<not> plain (hd r)) go_spaces"
    by (simp add: go_spaces_def plain_def)
  then show "r \<in> set go_spaces \<Longrightarrow> r \<noteq> [] \<and> \<not> plain (hd r)"
    by (auto simp: list_all_iff)
qed

lemma starts_with_hd: "starts_with r (c # cs) \<Longrightarrow> r \<noteq> [] \<Longrightarrow> hd r = c"
  by (cases r) (auto simp: starts_with_def)

lemma space_len_plain [simp]: "plain c \<Longrightarrow> space_len (c # cs) = 0"
proof -
  assume c: "plain c"
  have "find (\<lambda>r. starts_with r (c # cs)) go_spaces = None"
    using c go_spaces_not_plain by (force simp: find_None_iff dest: starts_with_hd)
  then show ?thesis by (simp add: space_len_def)
qed

lemma space_len_blank [simp]: "space_len (CHR '' '' # cs) = 1"
  by (simp add: space_len_def go_spaces_def starts_with_def)

lemma fields_from_token:
  "\<forall>c \<in> set t. plain c \<Longrightarrow> fields_from cur 0 (t @ s) = fields_from (cur @ t) 0 s"
  by (induction t arbitrary: cur) auto

lemma Fields_tokens:
  assumes "\<forall>t \<in> set ts. t \<noteq> [] \<and> (\<forall>c \<in> set t. plain c)"
  shows "Fields (join_with '' '' ts) = ts"
  using assms unfolding Fields_def
proof (induction "'' ''" ts rule: join_with.induct)
  case (2 p)
  then show ?case using fields_from_token [of p "[]" "[]"] by (simp add: flush_field_def)
next
  case (3 p q ps)
  then show ?case by (simp add: fields_from_token flush_field_def)
qed (simp add: flush_field_def)

lemma plain_digit: "d < 36 \<Longrightarrow> plain (digit_char d)"
  by (auto simp: plain_def digit_char_def)

lemma plain_format_digits:
  "2 \<le> base \<Longrightarrow> base \<le> 36 \<Longrightarrow> c \<in> set (format_digits base n) \<Longrightarrow> plain c"
proof (induction base n rule: format_digits.induct)
  case (1 base n)
  have "n mod base < 36" "n < base \<Longrightarrow> n < 36"
    using "1.prems" by (auto intro: less_le_trans [of _ base])
  with 1 show ?case
    by (auto simp: format_digits.simps [of base n] intro: plain_digit split: if_splits)
qed

section \<open>Trimming plain text\<close>

lemma go_spaces_last_not_plain: "r \<in> set go_spaces \<Longrightarrow> r \<noteq> [] \<and> \<not> plain (last r)"
proof -
  have "list_all (\<lambda>r. r \<noteq> [] \<and> \<not> plain (last r)) go_spaces"
    by (simp add: go_spaces_def plain_def)
  then show "r \<in> set go_spaces \<Longrightarrow> r \<noteq> [] \<and> \<not> plain (last r)"
    by (auto simp: list_all_iff)
qed

lemma space_len_back_plain [simp]: "plain c \<Longrightarrow> space_len_back (c # cs) = 0"
proof -
  assume c: "plain c"
  have "find (\<lambda>r. starts_with (rev r) (c # cs)) go_spaces = None"
    using c go_spaces_last_not_plain by (force simp: find_None_iff hd_rev dest: starts_with_hd)
  then show ?thesis by (simp add: space_len_back_def)
qed

lemma trim_by_0 [simp]: "f s = 0 \<Longrightarrow> trim_by f s = s"
  by (simp add: trim_by.simps)

lemma TrimSpace_plain: "\<forall>c \<in> set s. plain c \<Longrightarrow> TrimSpace s = s"
proof -
  assume plain: "\<forall>c \<in> set s. plain c"
  have "space_len s = 0" using plain by (cases s) simp_all
  moreover have "space_len_back (rev s) = 0"
  proof (cases "rev s")
    case (Cons c cs)
    then have "c \<in> set s" by (metis list.set_intros(1) set_rev)
    with Cons plain show ?thesis by simp
  qed simp
  ultimately show ?thesis by (simp add: TrimSpace_def)
qed

section \<open>Paths\<close>

text \<open>\<^verbatim>\<open>filepath.Base\<close>: the last element of a path, without trailing slashes.\<close>

definition path_base :: "string \<Rightarrow> string" where
  "path_base path =
     (if path = '''' then ''.''
      else let p = rev (dropWhile (\<lambda>c. c = CHR ''/'') (rev path))
           in if p = '''' then ''/'' else last (split_on (CHR ''/'') p))"

end
