(* ===== verification/ProcessValue.thy ===== *)
theory ProcessValue
  imports Prelude
begin

text \<open>
  Process identities, process values and the merge order (\<^verbatim>\<open>mark.go\<close>, \<^verbatim>\<open>mark_bpfel.go\<close>,
  \<^verbatim>\<open>mark.c\<close>). The Go comparison chain and the C one are both instances of the locale
  \<open>ranked_merge\<close>: merging keeps the value of the larger rank, the newcomer on ties.
\<close>

section \<open>Data\<close>

record process_key =
  Tgid :: u32
  StartTime :: u64

text \<open>Identities are ordered by process id, then by start time.\<close>

instantiation process_key_ext :: (linorder) linorder
begin

definition less_eq_process_key_ext :: "'a process_key_scheme \<Rightarrow> 'a process_key_scheme \<Rightarrow> bool" where
  "less_eq_process_key_ext k l \<longleftrightarrow>
     (Tgid k, StartTime k, process_key.more k) \<le> (Tgid l, StartTime l, process_key.more l)"

definition less_process_key_ext :: "'a process_key_scheme \<Rightarrow> 'a process_key_scheme \<Rightarrow> bool" where
  "less_process_key_ext k l \<longleftrightarrow>
     (Tgid k, StartTime k, process_key.more k) < (Tgid l, StartTime l, process_key.more l)"

instance
  by standard (auto simp: less_eq_process_key_ext_def less_process_key_ext_def less_prod_def less_eq_prod_def
      intro: process_key.equality)

end

record process_value =
  Tombstone :: bool
  Inheritance :: bool
  HasMark :: bool
  Priority :: i8
  Generation :: u64
  Mark :: u64
  Timestamp :: u64

text \<open>The unit of start times, as both BPF files define it (\<^verbatim>\<open>USER_HZ\<close> is 100).\<close>

definition NSEC_PER_USER_TICK :: u64 where "NSEC_PER_USER_TICK = 1000000000 div 100"

text \<open>Go's zero values.\<close>

definition zero_key :: process_key where
  "zero_key = \<lparr>Tgid = 0, StartTime = 0\<rparr>"

definition zero_value :: process_value where
  "zero_value = \<lparr>Tombstone = False, Inheritance = False, HasMark = False, Priority = 0,
     Generation = 0, Mark = 0, Timestamp = 0\<rparr>"

section \<open>The merge order\<close>

definition preferProcessValue :: "process_value \<Rightarrow> process_value \<Rightarrow> process_value" where
  "preferProcessValue old next =
     (if Tombstone old \<noteq> Tombstone next then
        (if Tombstone old then old else next)
      else if Generation old \<noteq> Generation next then
        (if Generation old > Generation next then old else next)
      else if Priority old \<noteq> Priority next then
        (if i8_less (Priority next) (Priority old) then old else next)
      else if Inheritance old \<noteq> Inheritance next then
        (if Inheritance old then old else next)
      else if Timestamp old > Timestamp next then old
      else next)"

text \<open>The BPF copy of the order, and what the exec program stores with it.\<close>

definition next_process_value_wins :: "process_value \<Rightarrow> process_value \<Rightarrow> bool" where
  "next_process_value_wins old next =
     (if Tombstone old \<noteq> Tombstone next then Tombstone next
      else if Generation old \<noteq> Generation next then Generation next > Generation old
      else if Priority old \<noteq> Priority next then i8_less (Priority old) (Priority next)
      else if Inheritance old \<noteq> Inheritance next then Inheritance next
      else Timestamp next \<ge> Timestamp old)"

definition kernel_merge :: "process_value \<Rightarrow> process_value \<Rightarrow> process_value" where
  "kernel_merge old next = (if next_process_value_wins old next then next else old)"

definition canInherit :: "process_value \<Rightarrow> bool" where
  "canInherit value \<longleftrightarrow> \<not> Tombstone value \<and> HasMark value"

definition maxU64 :: "u64 \<Rightarrow> u64 \<Rightarrow> u64" where
  "maxU64 a b = (if a > b then a else b)"

lemma maxU64_ge [simp]: "a \<le> maxU64 a b" "b \<le> maxU64 a b"
  by (auto simp: maxU64_def)

definition ptrProcessKey :: "process_key \<Rightarrow> process_key option" where
  "ptrProcessKey key = (if Tgid key = 0 \<and> StartTime key = 0 then None else Some key)"

definition ptrProcessValue :: "process_value \<Rightarrow> process_value option" where
  "ptrProcessValue value = (if value = zero_value then None else Some value)"

section \<open>Merging by rank\<close>

locale ranked_merge =
  fixes merge :: "'v \<Rightarrow> 'v \<Rightarrow> 'v"
    and rank :: "'v \<Rightarrow> 'r::linorder"
  assumes merge_next: "rank old \<le> rank next \<Longrightarrow> merge old next = next"
    and merge_old: "rank next < rank old \<Longrightarrow> merge old next = old"
begin

lemma merge_if: "merge old next = (if rank old \<le> rank next then next else old)"
  by (simp add: merge_next merge_old)

lemma merge_in: "merge old next = old \<or> merge old next = next"
  by (simp add: merge_if)

lemma rank_merge: "rank (merge old next) = max (rank old) (rank next)"
  by (simp add: merge_if max_def)

lemma merge_idem: "merge v v = v"
  by (simp add: merge_if)

lemma merge_assoc: "merge (merge a b) c = merge a (merge b c)"
  by (auto simp: merge_if)

lemma merge_absorb: "merge (merge a b) b = merge a b"
  by (auto simp: merge_if)

lemma merge_commute: "rank a \<noteq> rank b \<Longrightarrow> merge a b = merge b a"
  by (auto simp: merge_if)

lemma foldl_merge_rank: "rank (foldl merge v vs) = foldl max (rank v) (map rank vs)"
  by (induction vs arbitrary: v) (simp_all add: rank_merge)

lemma foldl_merge_in: "foldl merge v vs \<in> insert v (set vs)"
proof (induction vs arbitrary: v)
  case (Cons w vs)
  have "foldl merge (merge v w) vs \<in> insert (merge v w) (set vs)" by (rule Cons.IH)
  then show ?case using merge_in [of v w] by auto
qed simp

lemma foldl_merge_head: "rank v \<le> rank (foldl merge v vs)"
proof (induction vs arbitrary: v)
  case (Cons u vs)
  have "rank v \<le> rank (merge v u)" by (simp add: rank_merge)
  also have "\<dots> \<le> rank (foldl merge (merge v u) vs)" by (rule Cons.IH)
  finally show ?case by simp
qed simp

lemma foldl_merge_max: "w \<in> insert v (set vs) \<Longrightarrow> rank w \<le> rank (foldl merge v vs)"
proof (induction vs arbitrary: v)
  case (Cons u vs)
  have "rank u \<le> rank (foldl merge (merge v u) vs)"
    using order_trans [OF _ foldl_merge_head, of _ "merge v u"] by (simp add: rank_merge)
  then show ?case
    using Cons.IH [of "merge v u"] Cons.prems foldl_merge_head [of v "u # vs"] by auto
qed simp

text \<open>The winner does not depend on the order of arrival, as long as no two ranks tie.\<close>

lemma foldl_merge_perm:
  assumes "insert v (set vs) = insert w (set ws)" "inj_on rank (insert v (set vs))"
  shows "foldl merge v vs = foldl merge w ws"
proof (rule inj_onD [OF assms(2)])
  let ?a = "foldl merge v vs" and ?b = "foldl merge w ws"
  show a: "?a \<in> insert v (set vs)" by (rule foldl_merge_in)
  show b: "?b \<in> insert v (set vs)" using foldl_merge_in assms(1) by simp
  show "rank ?a = rank ?b"
  proof (rule antisym)
    show "rank ?a \<le> rank ?b" using a assms(1) by (intro foldl_merge_max) simp
    show "rank ?b \<le> rank ?a" using b by (rule foldl_merge_max)
  qed
qed

end

section \<open>The rank of a process value\<close>

definition value_rank :: "process_value \<Rightarrow> bool \<times> u64 \<times> int \<times> bool \<times> u64" where
  "value_rank v = (Tombstone v, Generation v, sint (Priority v), Inheritance v, Timestamp v)"

lemma i8_eq_iff: "(a::i8) = b \<longleftrightarrow> sint a = sint b"
  by (auto intro: signed_word_eqI)

lemma bool_less_eq: "(a::bool) \<le> b \<longleftrightarrow> (a \<longrightarrow> b)"
  by auto

lemma prefer_next: "value_rank old \<le> value_rank next \<Longrightarrow> preferProcessValue old next = next"
  by (auto simp: value_rank_def preferProcessValue_def less_eq_prod_def less_prod_def i8_eq_iff
      split: if_splits)

lemma prefer_old: "value_rank next < value_rank old \<Longrightarrow> preferProcessValue old next = old"
  by (auto simp: value_rank_def preferProcessValue_def less_eq_prod_def less_prod_def i8_eq_iff
      split: if_splits)

lemma kernel_wins_iff: "next_process_value_wins old next \<longleftrightarrow> value_rank old \<le> value_rank next"
  by (auto simp: value_rank_def next_process_value_wins_def less_eq_prod_def less_prod_def
      i8_eq_iff)

interpretation go: ranked_merge preferProcessValue value_rank
  by unfold_locales (fact prefer_next prefer_old)+

interpretation bpf: ranked_merge kernel_merge value_rank
  by unfold_locales (auto simp: kernel_merge_def kernel_wins_iff)

lemma value_rank_tie:
  "value_rank a = value_rank b \<Longrightarrow> HasMark a = HasMark b \<Longrightarrow> Mark a = Mark b \<Longrightarrow> a = b"
  by (cases a; cases b) (auto simp: value_rank_def i8_eq_iff)

text \<open>What the first two components of the rank say on their own.\<close>

lemma rank_le_Tombstone: "value_rank v \<le> value_rank w \<Longrightarrow> Tombstone v \<Longrightarrow> Tombstone w"
  by (auto simp: value_rank_def less_eq_prod_def)

lemma rank_le_Generation:
  "value_rank v \<le> value_rank w \<Longrightarrow> Tombstone v = Tombstone w \<Longrightarrow> Generation v \<le> Generation w"
  by (auto simp: value_rank_def less_eq_prod_def)

lemma prefer_rank_ge [simp]:
  "value_rank old \<le> value_rank (preferProcessValue old next)"
  "value_rank next \<le> value_rank (preferProcessValue old next)"
  by (simp_all add: go.rank_merge)

lemma prefer_in: "preferProcessValue old next = old \<or> preferProcessValue old next = next"
  by (rule go.merge_in)

lemma prefer_tombstone_old [simp]: "Tombstone old \<Longrightarrow> Tombstone (preferProcessValue old next)"
  by (auto simp: preferProcessValue_def)

lemma prefer_tombstone_iff [simp]:
  "Tombstone (preferProcessValue old next) \<longleftrightarrow> Tombstone old \<or> Tombstone next"
  by (auto simp: preferProcessValue_def)

end
