(* ===== verification/World.thy ===== *)
theory World
  imports GoText ProcessValue
begin

text \<open>
  The world the daemon runs in: the boot clock, the \<^verbatim>\<open>/proc\<close> file system and the pinned BPF
  maps. None of it is code of the repository. The clock and the files are given by their
  successive readings (any function of the number of readings so far, so that anything
  may change between two readings); the BPF maps are state, and every map system call can
  fail as an oracle says. The locale \<open>bpf_table\<close> states what the daemon relies on of a BPF
  map; it is the contract of the interface \<^verbatim>\<open>bpfMapMutator\<close> of \<^verbatim>\<open>policy.go\<close>.
\<close>

section \<open>Data shared with the BPF programs\<close>

record comm_rule_key =
  rk_Generation :: u64
  rk_Comm :: "i8 list"

record comm_rule_value =
  rv_Priority :: i8
  rv_Mark :: u64

record kernel_policy_state =
  ps_Generation :: u64
  ps_Mode :: u8

record mark_event =
  ev_Type :: u32
  ev_Key :: process_key
  ev_ParentKey :: process_key
  ev_Pid :: u32
  ev_Ppid :: u32
  ev_HasMark :: bool
  ev_Value :: process_value
  ev_Comm :: "i8 list"

record process_info =
  pi_Key :: process_key
  pi_PPID :: u32
  pi_Comm :: string
  pi_Cmdline :: string
  pi_Exe :: string

section \<open>The state of the world\<close>

text \<open>
  \<^const>\<open>None\<close> stands for an error: of \<^verbatim>\<open>os.ReadDir("/proc")\<close>, of \<^verbatim>\<open>os.ReadFile\<close>, of
  \<^verbatim>\<open>os.Readlink\<close>. A directory entry is its name and whether it is a directory.
\<close>

record procfs =
  fs_dir :: "(string \<times> bool) list option"
  fs_file :: "string \<Rightarrow> string option"
  fs_link :: "string \<Rightarrow> string option"

text \<open>
  \<^item> \<open>os_clock n\<close>: the n-th \<^verbatim>\<open>clock_gettime(CLOCK_BOOTTIME)\<close> in nanoseconds, \<^const>\<open>None\<close> for
    an error; \<open>os_uptime n\<close>: what \<^verbatim>\<open>procUptimeNS\<close> computes from \<^verbatim>\<open>/proc/uptime\<close> then;
  \<^item> \<open>os_fs n\<close>: the file system at the n-th reading of it;
  \<^item> \<open>os_fault n\<close>: whether the n-th map system call fails; \<open>os_abort n\<close>: after how many
    entries an iteration started by that call is cut short with an error.
\<close>

record world =
  os_clock :: "nat \<Rightarrow> u64 option"
  os_uptime :: "nat \<Rightarrow> u64"
  os_ticks :: nat
  os_fs :: "nat \<Rightarrow> procfs"
  os_looks :: nat
  os_fault :: "nat \<Rightarrow> bool"
  os_abort :: "nat \<Rightarrow> nat option"
  os_calls :: nat
  k_processes :: "(process_key, process_value) gomap"
  k_comm_rules :: "(comm_rule_key, comm_rule_value) gomap"
  k_active_policy :: kernel_policy_state

definition nowBootNS :: "world \<Rightarrow> u64 \<times> world" where
  "nowBootNS w =
     ((case os_clock w (os_ticks w) of Some t \<Rightarrow> t | None \<Rightarrow> os_uptime w (os_ticks w)),
      w\<lparr>os_ticks := Suc (os_ticks w)\<rparr>)"

definition look_fs :: "(procfs \<Rightarrow> 'a) \<Rightarrow> world \<Rightarrow> 'a \<times> world" where
  "look_fs f w = (f (os_fs w (os_looks w)), w\<lparr>os_looks := Suc (os_looks w)\<rparr>)"

abbreviation ReadDir :: "world \<Rightarrow> (string \<times> bool) list option \<times> world" where
  "ReadDir \<equiv> look_fs fs_dir"

abbreviation ReadFile :: "string \<Rightarrow> world \<Rightarrow> string option \<times> world" where
  "ReadFile path \<equiv> look_fs (\<lambda>fs. fs_file fs path)"

abbreviation Readlink :: "string \<Rightarrow> world \<Rightarrow> string option \<times> world" where
  "Readlink path \<equiv> look_fs (\<lambda>fs. fs_link fs path)"

section \<open>Map system calls\<close>

datatype map_error = ErrKeyNotExist | ErrSyscall

definition syscall :: "world \<Rightarrow> bool \<times> world" where
  "syscall w = (os_fault w (os_calls w), w\<lparr>os_calls := Suc (os_calls w)\<rparr>)"

definition processes_Put ::
    "process_key \<Rightarrow> process_value \<Rightarrow> world \<Rightarrow> map_error option \<times> world" where
  "processes_Put key value w =
     (let (fault, w) = syscall w
      in if fault then (Some ErrSyscall, w)
         else (None, w\<lparr>k_processes := mput key value (k_processes w)\<rparr>))"

definition processes_Delete :: "process_key \<Rightarrow> world \<Rightarrow> map_error option \<times> world" where
  "processes_Delete key w =
     (let (fault, w) = syscall w
      in if fault then (Some ErrSyscall, w)
         else if mget (k_processes w) key = None then (Some ErrKeyNotExist, w)
         else (None, w\<lparr>k_processes := mdel key (k_processes w)\<rparr>))"

text \<open>A batch deletion stops at the first key it cannot delete.\<close>

fun batch_delete ::
    "process_key list \<Rightarrow> (process_key, process_value) gomap \<Rightarrow>
     map_error option \<times> (process_key, process_value) gomap" where
  "batch_delete [] tab = (None, tab)"
| "batch_delete (key # keys) tab =
     (if mget tab key = None then (Some ErrKeyNotExist, tab)
      else batch_delete keys (mdel key tab))"

definition processes_BatchDelete :: "process_key list \<Rightarrow> world \<Rightarrow> map_error option \<times> world" where
  "processes_BatchDelete keys w =
     (let (fault, w) = syscall w
      in if fault then (Some ErrSyscall, w)
         else let (err, tab) = batch_delete keys (k_processes w)
              in (err, w\<lparr>k_processes := tab\<rparr>))"

text \<open>An iteration: the entries it yields and whether \<^verbatim>\<open>iter.Err()\<close> is an error after them.\<close>

definition processes_Iterate ::
    "world \<Rightarrow> ((process_key, process_value) gomap \<times> bool) \<times> world" where
  "processes_Iterate w =
     ((case os_abort w (os_calls w) of
         None \<Rightarrow> (k_processes w, False)
       | Some n \<Rightarrow> (take n (k_processes w), True)),
      w\<lparr>os_calls := Suc (os_calls w)\<rparr>)"

definition comm_rules_Put ::
    "comm_rule_key \<Rightarrow> comm_rule_value \<Rightarrow> world \<Rightarrow> map_error option \<times> world" where
  "comm_rules_Put key value w =
     (let (fault, w) = syscall w
      in if fault then (Some ErrSyscall, w)
         else (None, w\<lparr>k_comm_rules := mput key value (k_comm_rules w)\<rparr>))"

definition comm_rules_Delete :: "comm_rule_key \<Rightarrow> world \<Rightarrow> map_error option \<times> world" where
  "comm_rules_Delete key w =
     (let (fault, w) = syscall w
      in if fault then (Some ErrSyscall, w)
         else if mget (k_comm_rules w) key = None then (Some ErrKeyNotExist, w)
         else (None, w\<lparr>k_comm_rules := mdel key (k_comm_rules w)\<rparr>))"

text \<open>\<^verbatim>\<open>active_policy\<close> is an array map with one slot.\<close>

definition active_policy_Put :: "kernel_policy_state \<Rightarrow> world \<Rightarrow> map_error option \<times> world" where
  "active_policy_Put state w =
     (let (fault, w) = syscall w
      in if fault then (Some ErrSyscall, w) else (None, w\<lparr>k_active_policy := state\<rparr>))"

section \<open>The contract of a BPF hash map\<close>

locale bpf_table =
  fixes look :: "'w \<Rightarrow> 'k \<Rightarrow> 'v option"
    and put :: "'k \<Rightarrow> 'v \<Rightarrow> 'w \<Rightarrow> map_error option \<times> 'w"
    and del :: "'k \<Rightarrow> 'w \<Rightarrow> map_error option \<times> 'w"
  assumes put_ok: "put k v w = (None, w') \<Longrightarrow> look w' = (look w)(k \<mapsto> v)"
    and put_err: "put k v w = (Some e, w') \<Longrightarrow> look w' = look w"
    and del_ok: "del k w = (None, w') \<Longrightarrow> look w' = (look w)(k := None)"
    and del_absent: "del k w = (Some ErrKeyNotExist, w') \<Longrightarrow> look w k = None"
    and del_err: "del k w = (Some e, w') \<Longrightarrow> look w' = look w"
begin

lemma put_look: "look (snd (put k v w)) = look w \<or> look (snd (put k v w)) = (look w)(k \<mapsto> v)"
proof (cases "put k v w")
  case (Pair r w')
  then show ?thesis by (cases r) (auto dest: put_ok put_err)
qed

lemma put_other: "k' \<noteq> k \<Longrightarrow> look (snd (put k v w)) k' = look w k'"
  using put_look [of k v w] by auto

lemma del_look: "look (snd (del k w)) = look w \<or> look (snd (del k w)) = (look w)(k := None)"
proof (cases "del k w")
  case (Pair r w')
  then show ?thesis by (cases r) (auto dest: del_ok del_err)
qed

text \<open>After a deletion that reports success or a missing key, the key is absent.\<close>

lemma del_gone:
  assumes "fst (del k w) \<in> {None, Some ErrKeyNotExist}"
  shows "look (snd (del k w)) = (look w)(k := None)"
proof (cases "del k w")
  case (Pair r w')
  show ?thesis
  proof (cases r)
    case None
    with Pair show ?thesis by (simp add: del_ok)
  next
    case (Some e)
    with Pair assms have "del k w = (Some ErrKeyNotExist, w')" by simp
    from del_absent [OF this] del_err [OF this] Pair show ?thesis by (simp add: fun_upd_idem)
  qed
qed

end

interpretation procs: bpf_table "\<lambda>w. mget (k_processes w)" processes_Put processes_Delete
  by unfold_locales
    (auto simp: processes_Put_def processes_Delete_def syscall_def split: if_splits)

interpretation comms: bpf_table "\<lambda>w. mget (k_comm_rules w)" comm_rules_Put comm_rules_Delete
  by unfold_locales
    (auto simp: comm_rules_Put_def comm_rules_Delete_def syscall_def split: if_splits)

end
