(* ===== verification/Procfs.thy ===== *)
theory Procfs
  imports World
begin

text \<open>
  Reading \<^verbatim>\<open>/proc\<close> (\<^verbatim>\<open>mark.go\<close> from \<^verbatim>\<open>listProcesses\<close> on, and the copy of \<^verbatim>\<open>parseProcStat\<close>
  in \<^verbatim>\<open>fwmark/fwmark.go\<close>): the parser of \<^verbatim>\<open>/proc/<pid>/stat\<close>, the process list and the
  test whether a process identity is still alive. The lemmas show that the parser finds
  the parent and the start time whatever the process name contains.
\<close>

section \<open>Parsing\<close>

datatype proc_error = ErrRead | ErrMalformedStat | ErrShortStat | ErrNumber num_error

definition parseProcStat :: "string \<Rightarrow> proc_error + (u32 \<times> u64)" where
  "parseProcStat stat =
     (case last_index (CHR '')'') stat of
        None \<Rightarrow> Inl ErrMalformedStat
      | Some end \<Rightarrow>
          if length stat \<le> end + 2 then Inl ErrMalformedStat
          else
            (let fields = Fields (drop (end + 2) stat)
             in if length fields < 20 then Inl ErrShortStat
                else case ParseUint 10 32 (fields ! 1) of
                       Inl e \<Rightarrow> Inl (ErrNumber e)
                     | Inr ppid \<Rightarrow>
                         (case ParseUint 10 64 (fields ! 19) of
                            Inl e \<Rightarrow> Inl (ErrNumber e)
                          | Inr startTime \<Rightarrow> Inr (word_of_nat ppid, word_of_nat startTime))))"

definition trimProcLine :: "string \<Rightarrow> string" where
  "trimProcLine data = TrimSuffix data [CHR 0x0A]"

text \<open>The text of \<^verbatim>\<open>/proc/<pid>/cmdline\<close>: arguments end in NUL bytes.\<close>

definition cmdline_text :: "string \<Rightarrow> string" where
  "cmdline_text data =
     join_with '' '' (filter (\<lambda>part. part \<noteq> [])
       (split_on (CHR 0x00) (trim_byte (CHR 0x00) data)))"

definition int8String :: "i8 list \<Rightarrow> string" where
  "int8String raw = map (\<lambda>b. char_of (unat b)) (takeWhile (\<lambda>b. b \<noteq> 0) raw)"

section \<open>Reading one process\<close>

definition proc_path :: "u32 \<Rightarrow> string \<Rightarrow> string" where
  "proc_path pid name = ''/proc/'' @ dec (unat pid) @ ''/'' @ name"

definition readProcText :: "u32 \<Rightarrow> string \<Rightarrow> world \<Rightarrow> string \<times> world" where
  "readProcText pid name w =
     (let (data, w) = ReadFile (proc_path pid name) w
      in case data of None \<Rightarrow> ('''', w) | Some text \<Rightarrow> (trimProcLine text, w))"

definition readProcCmdline :: "u32 \<Rightarrow> world \<Rightarrow> string \<times> world" where
  "readProcCmdline pid w =
     (let (data, w) = ReadFile (proc_path pid ''cmdline'') w
      in case data of None \<Rightarrow> ('''', w) | Some text \<Rightarrow> (cmdline_text text, w))"

definition readProcExe :: "u32 \<Rightarrow> world \<Rightarrow> string \<times> world" where
  "readProcExe pid w =
     (let (exe, w) = Readlink (proc_path pid ''exe'') w
      in case exe of None \<Rightarrow> ('''', w) | Some path \<Rightarrow> (path, w))"

definition readProcInfo :: "u32 \<Rightarrow> world \<Rightarrow> (proc_error + process_info) \<times> world" where
  "readProcInfo pid w =
     (let (stat, w) = ReadFile (proc_path pid ''stat'') w
      in case stat of
           None \<Rightarrow> (Inl ErrRead, w)
         | Some text \<Rightarrow>
             (case parseProcStat text of
                Inl e \<Rightarrow> (Inl e, w)
              | Inr (ppid, startTime) \<Rightarrow>
                  (let (comm, w) = readProcText pid ''comm'' w;
                       (cmdline, w) = readProcCmdline pid w;
                       (exe, w) = readProcExe pid w
                   in (Inr \<lparr>pi_Key = \<lparr>Tgid = pid, StartTime = startTime\<rparr>, pi_PPID = ppid,
                            pi_Comm = comm, pi_Cmdline = cmdline, pi_Exe = exe\<rparr>, w))))"

section \<open>The process list\<close>

fun listProcesses_loop :: "(string \<times> bool) list \<Rightarrow> world \<Rightarrow> process_info list \<times> world" where
  "listProcesses_loop [] w = ([], w)"
| "listProcesses_loop ((name, isDir) # entries) w =
     (if \<not> isDir then listProcesses_loop entries w
      else case ParseUint 10 32 name of
             Inl _ \<Rightarrow> listProcesses_loop entries w
           | Inr pid64 \<Rightarrow>
               (let (res, w) = readProcInfo (word_of_nat pid64) w
                in case res of
                     Inl _ \<Rightarrow> listProcesses_loop entries w
                   | Inr info \<Rightarrow>
                       (let (procs, w) = listProcesses_loop entries w in (info # procs, w))))"

definition listProcesses :: "world \<Rightarrow> (proc_error + process_info list) \<times> world" where
  "listProcesses w =
     (let (dir, w) = ReadDir w
      in case dir of
           None \<Rightarrow> (Inl ErrRead, w)
         | Some entries \<Rightarrow>
             (let (procs, w) = listProcesses_loop entries w in (Inr procs, w)))"

definition procInfoFromEvent :: "mark_event \<Rightarrow> world \<Rightarrow> process_info \<times> world" where
  "procInfoFromEvent event w =
     (let (res, w) = readProcInfo (Tgid (ev_Key event)) w;
          fallback = \<lparr>pi_Key = ev_Key event, pi_PPID = ev_Ppid event,
                      pi_Comm = int8String (ev_Comm event), pi_Cmdline = '''', pi_Exe = ''''\<rparr>
      in case res of
           Inl _ \<Rightarrow> (fallback, w)
         | Inr info \<Rightarrow>
             (if StartTime (pi_Key info) = StartTime (ev_Key event) then info else fallback, w))"

definition procMatchesKey :: "process_key \<Rightarrow> world \<Rightarrow> bool \<times> world" where
  "procMatchesKey key w =
     (let (res, w) = readProcInfo (Tgid key) w
      in case res of
           Inl _ \<Rightarrow> (False, w)
         | Inr info \<Rightarrow> (StartTime (pi_Key info) = StartTime key, w))"

section \<open>Reading changes nothing but the position in the readings\<close>

definition still :: "world \<Rightarrow> world" where
  "still w = w\<lparr>os_looks := 0\<rparr>"

lemma stillD:
  "still w' = still w \<Longrightarrow>
   os_ticks w' = os_ticks w \<and> os_calls w' = os_calls w \<and> k_processes w' = k_processes w \<and>
   k_comm_rules w' = k_comm_rules w \<and> k_active_policy w' = k_active_policy w \<and>
   os_fs w' = os_fs w \<and> os_fault w' = os_fault w \<and> os_abort w' = os_abort w \<and>
   os_clock w' = os_clock w \<and> os_uptime w' = os_uptime w"
  by (cases w; cases w') (simp add: still_def)

lemma look_fs_still [simp]: "still (snd (look_fs f w)) = still w"
  by (simp add: look_fs_def still_def)

lemma readProcText_still [simp]: "still (snd (readProcText pid name w)) = still w"
  by (simp add: readProcText_def split_beta Let_def split: option.splits)

lemma readProcCmdline_still [simp]: "still (snd (readProcCmdline pid w)) = still w"
  by (simp add: readProcCmdline_def split_beta Let_def split: option.splits)

lemma readProcExe_still [simp]: "still (snd (readProcExe pid w)) = still w"
  by (simp add: readProcExe_def split_beta Let_def split: option.splits)

lemma readProcInfo_still [simp]: "still (snd (readProcInfo pid w)) = still w"
  by (auto simp: readProcInfo_def split_beta Let_def split: option.splits sum.splits)

lemma listProcesses_loop_still [simp]: "still (snd (listProcesses_loop entries w)) = still w"
  by (induction entries arbitrary: w) (auto simp: split_beta Let_def split: sum.splits)

lemma listProcesses_still [simp]: "still (snd (listProcesses w)) = still w"
  by (auto simp: listProcesses_def split_beta Let_def split: option.splits)

lemma procInfoFromEvent_still [simp]: "still (snd (procInfoFromEvent event w)) = still w"
  by (auto simp: procInfoFromEvent_def split_beta Let_def split: sum.splits)

lemma procMatchesKey_still [simp]: "still (snd (procMatchesKey key w)) = still w"
  by (auto simp: procMatchesKey_def split_beta Let_def split: sum.splits)

lemmas listProcesses_frame [simp] = listProcesses_still [THEN stillD]
lemmas procInfoFromEvent_frame [simp] = procInfoFromEvent_still [THEN stillD]
lemmas procMatchesKey_frame [simp] = procMatchesKey_still [THEN stillD]

section \<open>Functional lemmas\<close>

lemma readProcInfo_Tgid: "readProcInfo pid w = (Inr info, w') \<Longrightarrow> Tgid (pi_Key info) = pid"
  by (auto simp: readProcInfo_def split_beta Let_def split: option.splits sum.splits prod.splits)

text \<open>The process ids a directory listing names, in its order.\<close>

definition dir_pids :: "(string \<times> bool) list \<Rightarrow> u32 list" where
  "dir_pids entries =
     concat (map (\<lambda>(name, isDir).
       case ParseUint 10 32 name of
         Inr n \<Rightarrow> if isDir then [word_of_nat n] else []
       | Inl _ \<Rightarrow> []) entries)"

lemma listProcesses_loop_subseq:
  "subseq (map (Tgid \<circ> pi_Key) (fst (listProcesses_loop entries w))) (dir_pids entries)"
proof (induction entries arbitrary: w)
  case (Cons entry entries)
  have pid: "fst (readProcInfo pid w) = Inr info \<Longrightarrow> Tgid (pi_Key info) = pid" for pid info
    by (rule readProcInfo_Tgid [of _ _ _ "snd (readProcInfo pid w)"]) (simp add: prod_eq_iff)
  show ?case
    using Cons.IH by (cases entry) (auto simp: dir_pids_def split_beta Let_def split: sum.splits
        dest!: pid intro: subseq_Cons')
qed (simp add: dir_pids_def)

lemma subseq_distinct: "subseq xs ys \<Longrightarrow> distinct ys \<Longrightarrow> distinct xs"
  by (metis subseq_conv_nths distinct_nthsI)

lemma listProcesses_distinct:
  assumes "\<And>n. case fs_dir (os_fs w n) of None \<Rightarrow> True | Some es \<Rightarrow> distinct (dir_pids es)"
    and "fst (listProcesses w) = Inr procs"
  shows "distinct (map (Tgid \<circ> pi_Key) procs)"
proof -
  from assms(2) obtain es w' where es: "fs_dir (os_fs w (os_looks w)) = Some es"
    and "procs = fst (listProcesses_loop es w')"
    by (auto simp: listProcesses_def look_fs_def split_beta Let_def split: option.splits)
  then show ?thesis
    using assms(1) [of "os_looks w"] listProcesses_loop_subseq by (auto intro: subseq_distinct)
qed

lemma parseProcStat_line:
  fixes ppid :: u32 and startTime :: u64
  assumes len: "20 \<le> length fs"
    and toks: "\<forall>t \<in> set fs. t \<noteq> [] \<and> (\<forall>c \<in> set t. plain c \<and> c \<noteq> CHR '')'')"
    and nums: "fs ! 1 = dec (unat ppid)" "fs ! 19 = dec (unat startTime)"
  shows "parseProcStat (pre @ '') '' @ join_with '' '' fs) = Inr (ppid, startTime)"
proof -
  have set_join: "c \<in> set (join_with '' '' ts) \<Longrightarrow> c = CHR '' '' \<or> (\<exists>t \<in> set ts. c \<in> set t)" for c ts
    by (induction "'' ''" ts rule: join_with.induct) auto
  let ?rest = "join_with '' '' fs"
  obtain f fs' where f: "fs = f # fs'" using len by (cases fs) auto
  then have ne: "?rest \<noteq> []" using toks by (cases fs') auto
  have "CHR '')'' \<notin> set (CHR '' '' # ?rest)"
    using toks by (auto dest!: set_join)
  then have "last_index (CHR '')'') (pre @ '') '' @ ?rest) = Some (length pre)"
    using last_index_append [of "CHR '')''" "CHR '' '' # ?rest" pre] by simp
  moreover have "\<not> length (pre @ '') '' @ ?rest) \<le> length pre + 2" using ne by simp
  moreover have "drop (length pre + 2) (pre @ '') '' @ ?rest) = ?rest" by simp
  moreover have "Fields ?rest = fs" using toks by (intro Fields_tokens) auto
  moreover have "unat ppid < 2 ^ 32" "unat startTime < 2 ^ 64"
    using unsigned_less [of ppid] unsigned_less [of startTime] by simp_all
  ultimately show ?thesis
    using len nums by (simp add: parseProcStat_def ParseUint_format)
qed

end
