(* ===== verification/KernelPolicy.thy ===== *)
theory KernelPolicy
  imports Procfs
begin

text \<open>
  The pure part of \<^verbatim>\<open>policy.go\<close>: the policy types, validation and normalisation, the exact
  matcher and the keys of the BPF rule table. The lemmas show that normalisation keeps the
  decision of every process name, with at most one rule for a name, and that looking a
  name up in the rule table decides as the userspace matcher does.
\<close>

section \<open>Data\<close>

abbreviation (input) TaskCommLength :: nat where "TaskCommLength \<equiv> 16"
abbreviation (input) MaxKernelCommRules :: nat where "MaxKernelCommRules \<equiv> 1024"

text \<open>\<^verbatim>\<open>KernelPolicyMode\<close> is a \<^verbatim>\<open>uint8\<close>: values outside the constants exist.\<close>

abbreviation KernelPolicyUserspaceOnly :: u8 where "KernelPolicyUserspaceOnly \<equiv> 0"
abbreviation KernelPolicyPositiveOnly :: u8 where "KernelPolicyPositiveOnly \<equiv> 1"
abbreviation KernelPolicyAuthoritative :: u8 where "KernelPolicyAuthoritative \<equiv> 2"

definition mode_String :: "u8 \<Rightarrow> string" where
  "mode_String mode =
     (if mode = KernelPolicyUserspaceOnly then ''userspace-only''
      else if mode = KernelPolicyPositiveOnly then ''positive-only''
      else if mode = KernelPolicyAuthoritative then ''authoritative''
      else ''unknown('' @ dec (unat mode) @ '')'')"

record exact_comm_rule =
  cr_Comm :: string
  cr_Priority :: i8
  cr_Mark :: u64

record kernel_policy =
  kp_Mode :: u8
  kp_CommRules :: "exact_comm_rule list"

record kernel_policy_status =
  st_Generation :: u64
  st_Mode :: u8
  st_RuleCount :: nat

datatype comm_error = ErrCommNUL | ErrCommLength nat

datatype policy_error =
    ErrMode u8
  | ErrUserspaceRules
  | ErrTooManyRules nat
  | ErrCommRule nat comm_error

section \<open>Operations\<close>

definition validateExactComm :: "string \<Rightarrow> comm_error option" where
  "validateExactComm comm =
     (if CHR 0x00 \<in> set comm then Some ErrCommNUL
      else if length comm > TaskCommLength - 1 then Some (ErrCommLength (length comm))
      else None)"

fun normalize_loop ::
    "nat \<Rightarrow> exact_comm_rule list \<Rightarrow> (string, nat) gomap \<Rightarrow> exact_comm_rule list \<Rightarrow>
     policy_error + exact_comm_rule list" where
  "normalize_loop index [] indices normalized = Inr normalized"
| "normalize_loop index (rule # rules) indices normalized =
     (case validateExactComm (cr_Comm rule) of
        Some e \<Rightarrow> Inl (ErrCommRule index e)
      | None \<Rightarrow>
          (case mget indices (cr_Comm rule) of
             Some existing \<Rightarrow>
               normalize_loop (Suc index) rules indices
                 (if i8_less (cr_Priority (normalized ! existing)) (cr_Priority rule)
                  then normalized[existing := rule] else normalized)
           | None \<Rightarrow>
               normalize_loop (Suc index) rules
                 (mput (cr_Comm rule) (length normalized) indices) (normalized @ [rule])))"

definition validateAndNormalizeKernelPolicy :: "kernel_policy \<Rightarrow> policy_error + kernel_policy" where
  "validateAndNormalizeKernelPolicy policy =
     (if kp_Mode policy > KernelPolicyAuthoritative then Inl (ErrMode (kp_Mode policy))
      else if kp_Mode policy = KernelPolicyUserspaceOnly \<and> kp_CommRules policy \<noteq> [] then
        Inl ErrUserspaceRules
      else if length (kp_CommRules policy) > MaxKernelCommRules then
        Inl (ErrTooManyRules (length (kp_CommRules policy)))
      else
        case normalize_loop 0 (kp_CommRules policy) [] [] of
          Inl e \<Rightarrow> Inl e
        | Inr rules \<Rightarrow> Inr \<lparr>kp_Mode = kp_Mode policy, kp_CommRules = rules\<rparr>)"

fun exact_loop :: "string \<Rightarrow> i8 \<times> u64 \<times> bool \<Rightarrow> exact_comm_rule list \<Rightarrow> i8 \<times> u64 \<times> bool" where
  "exact_loop comm acc [] = acc"
| "exact_loop comm (priority, mark, matched) (rule # rules) =
     (if comm \<noteq> cr_Comm rule then exact_loop comm (priority, mark, matched) rules
      else if \<not> matched \<or> i8_less priority (cr_Priority rule)
      then exact_loop comm (cr_Priority rule, cr_Mark rule, True) rules
      else exact_loop comm (priority, mark, matched) rules)"

definition exactCommCheck :: "exact_comm_rule list \<Rightarrow> process_info \<Rightarrow> i8 \<times> u64 \<times> bool" where
  "exactCommCheck rules info = exact_loop (pi_Comm info) (0, 0, False) rules"

definition nextPolicyGeneration :: "u64 \<Rightarrow> u64 option" where
  "nextPolicyGeneration current = (if current = NOT 0 then None else Some (current + 1))"

definition byte_of :: "char \<Rightarrow> i8" where
  "byte_of c = word_of_nat (of_char c)"

definition makeCommRuleKey :: "u64 \<Rightarrow> string \<Rightarrow> comm_error + comm_rule_key" where
  "makeCommRuleKey generation comm =
     (case validateExactComm comm of
        Some e \<Rightarrow> Inl e
      | None \<Rightarrow>
          Inr \<lparr>rk_Generation = generation,
               rk_Comm = map byte_of comm @ replicate (TaskCommLength - length comm) 0\<rparr>)"

section \<open>What the exact matcher decides\<close>

text \<open>The rule that decides a name: the first of those of the highest priority.\<close>

definition better :: "string \<Rightarrow> exact_comm_rule option \<Rightarrow> exact_comm_rule \<Rightarrow> exact_comm_rule option" where
  "better comm best rule =
     (if cr_Comm rule \<noteq> comm then best
      else case best of
             None \<Rightarrow> Some rule
           | Some b \<Rightarrow> if i8_less (cr_Priority b) (cr_Priority rule) then Some rule else best)"

definition deciding_rule :: "string \<Rightarrow> exact_comm_rule list \<Rightarrow> exact_comm_rule option" where
  "deciding_rule comm rules = foldl (better comm) None rules"

fun decision :: "exact_comm_rule option \<Rightarrow> i8 \<times> u64 \<times> bool" where
  "decision None = (0, 0, False)"
| "decision (Some r) = (cr_Priority r, cr_Mark r, True)"

lemma exact_loop_decision:
  "exact_loop comm (decision b) rules = decision (foldl (better comm) b rules)"
proof (induction rules arbitrary: b)
  case (Cons rule rules)
  have "exact_loop comm (decision b) (rule # rules) = exact_loop comm (decision (better comm b rule)) rules"
    by (cases b) (auto simp: better_def)
  with Cons show ?case by simp
qed simp

lemma exactCommCheck_decision:
  "exactCommCheck rules info = decision (deciding_rule (pi_Comm info) rules)"
  using exact_loop_decision [of _ None] by (simp add: exactCommCheck_def deciding_rule_def)

lemma foldl_better_absent:
  "\<forall>r \<in> set rules. cr_Comm r \<noteq> comm \<Longrightarrow> foldl (better comm) b rules = b"
  by (induction rules arbitrary: b) (auto simp: better_def)

abbreviation rule_for :: "string \<Rightarrow> exact_comm_rule list \<Rightarrow> exact_comm_rule option" where
  "rule_for comm \<equiv> find (\<lambda>r. cr_Comm r = comm)"

text \<open>With one rule for each name, the deciding rule is the only candidate.\<close>

lemma deciding_rule_distinct:
  assumes "distinct (map cr_Comm rules)"
  shows "deciding_rule comm rules = rule_for comm rules"
proof -
  have "foldl (better comm) None rules = rule_for comm rules"
    using assms
  proof (induction rules)
    case (Cons r rules)
    show ?case
    proof (cases "cr_Comm r = comm")
      case True
      then have "\<forall>x \<in> set rules. cr_Comm x \<noteq> comm" using Cons.prems by (auto intro: rev_image_eqI)
      then have "foldl (better comm) (Some r) rules = Some r" by (rule foldl_better_absent)
      with True show ?thesis by (simp add: better_def [of _ None])
    next
      case False
      with Cons show ?thesis by (simp add: better_def [of _ None])
    qed
  qed simp
  then show ?thesis by (simp add: deciding_rule_def)
qed

section \<open>Normalisation\<close>

text \<open>The loop invariant: \<open>indices\<close> maps each name in \<open>normalized\<close> to its only position.\<close>

definition indexed :: "(string, nat) gomap \<Rightarrow> exact_comm_rule list \<Rightarrow> bool" where
  "indexed indices rules \<longleftrightarrow>
     (\<forall>comm i. mget indices comm = Some i \<longleftrightarrow> i < length rules \<and> cr_Comm (rules ! i) = comm)"

lemma indexed_distinct: "indexed indices rules \<Longrightarrow> distinct (map cr_Comm rules)"
proof -
  assume ix: "indexed indices rules"
  have "i = j" if "i < length rules" "j < length rules" "cr_Comm (rules ! i) = cr_Comm (rules ! j)"
    for i j
  proof -
    have "mget indices (cr_Comm (rules ! j)) = Some i" "mget indices (cr_Comm (rules ! j)) = Some j"
      using ix that by (simp_all add: indexed_def)
    then show ?thesis by simp
  qed
  then show ?thesis by (auto simp: distinct_conv_nth)
qed

lemma indexed_append:
  "indexed indices rules \<Longrightarrow> mget indices (cr_Comm rule) = None \<Longrightarrow>
   indexed (mput (cr_Comm rule) (length rules) indices) (rules @ [rule])"
  by (auto simp: indexed_def nth_append less_Suc_eq)
    (metis less_irrefl option.distinct(1))+

lemma indexed_update:
  "indexed indices rules \<Longrightarrow> mget indices (cr_Comm rule) = Some i \<Longrightarrow>
   indexed indices (rules[i := rule])"
  by (auto simp: indexed_def nth_list_update)

text \<open>The decision of a name among the normalised rules so far is kept by each step.\<close>

lemma rule_for_append: "rule_for comm (rules @ [rule]) =
  (case rule_for comm rules of None \<Rightarrow> if cr_Comm rule = comm then Some rule else None | r \<Rightarrow> r)"
  by (induction rules) auto

lemma rule_for_indexed:
  assumes "indexed indices rules"
  shows "rule_for comm rules = map_option ((!) rules) (mget indices comm)"
proof (cases "mget indices comm")
  case None
  then have "\<forall>i < length rules. cr_Comm (rules ! i) \<noteq> comm"
    using assms by (metis indexed_def option.distinct(1))
  then have "rule_for comm rules = None"
    by (auto simp: find_None_iff in_set_conv_nth)
  with None show ?thesis by simp
next
  case (Some i)
  then have i: "i < length rules" "cr_Comm (rules ! i) = comm"
    using assms by (auto simp: indexed_def)
  have "cr_Comm (rules ! j) \<noteq> comm" if "j < i" for j
  proof
    assume "cr_Comm (rules ! j) = comm"
    then have "mget indices comm = Some j" using assms that i by (simp add: indexed_def)
    with Some that show False by simp
  qed
  then have "rule_for comm rules = Some (rules ! i)"
    using i by (auto simp: find_Some_iff)
  with Some show ?thesis by simp
qed

lemma better_step_append:
  "indexed indices rules \<Longrightarrow> mget indices (cr_Comm rule) = None \<Longrightarrow>
   rule_for comm (rules @ [rule]) = better comm (rule_for comm rules) rule"
  by (auto simp: rule_for_append better_def rule_for_indexed split: option.splits)

lemma better_step_update:
  assumes "indexed indices rules" "mget indices (cr_Comm rule) = Some i"
  shows "rule_for comm
      (if i8_less (cr_Priority (rules ! i)) (cr_Priority rule) then rules[i := rule] else rules) =
    better comm (rule_for comm rules) rule"
proof -
  have i: "i < length rules" using assms by (auto simp: indexed_def)
  have "rule_for comm (rules[i := rule]) = map_option ((!) (rules[i := rule])) (mget indices comm)"
    by (rule rule_for_indexed [OF indexed_update [OF assms]])
  moreover have "mget indices comm = Some i \<longleftrightarrow> comm = cr_Comm rule"
    using assms by (auto simp: indexed_def)
  ultimately show ?thesis
    using assms i by (cases "mget indices comm")
      (auto simp: better_def rule_for_indexed nth_list_update)
qed

lemma normalize_step:
  assumes "normalize_loop index (rule # rules) indices acc = Inr out" "indexed indices acc"
  obtains indices' acc' where
    "normalize_loop (Suc index) rules indices' acc' = Inr out" "indexed indices' acc'"
    "\<And>comm. rule_for comm acc' = better comm (rule_for comm acc) rule"
    "validateExactComm (cr_Comm rule) = None"
    "set acc' \<subseteq> insert rule (set acc)" "length acc' \<le> Suc (length acc)"
proof -
  have ok: "validateExactComm (cr_Comm rule) = None"
    using assms(1) by (cases "validateExactComm (cr_Comm rule)") auto
  show ?thesis
  proof (cases "mget indices (cr_Comm rule)")
    case None
    then show ?thesis
      using assms ok by (intro that [of "mput (cr_Comm rule) (length acc) indices" "acc @ [rule]"])
        (auto intro: indexed_append better_step_append)
  next
    case (Some i)
    let ?acc = "if i8_less (cr_Priority (acc ! i)) (cr_Priority rule) then acc[i := rule] else acc"
    have "indexed indices ?acc" using indexed_update [OF assms(2) Some] assms(2) by simp
    moreover have "set ?acc \<subseteq> insert rule (set acc)" by (auto dest: set_update_subset_insert [THEN subsetD])
    ultimately show ?thesis
      using assms(1) ok Some better_step_update [OF assms(2) Some]
      by (intro that [of indices ?acc]) auto
  qed
qed

lemma normalize_loop_spec:
  assumes "normalize_loop index rules indices acc = Inr out" "indexed indices acc"
  shows "distinct (map cr_Comm out) \<and>
    (\<forall>comm. rule_for comm out = foldl (better comm) (rule_for comm acc) rules) \<and>
    (\<forall>r \<in> set rules. validateExactComm (cr_Comm r) = None) \<and>
    set out \<subseteq> set acc \<union> set rules \<and> length out \<le> length acc + length rules"
  using assms
proof (induction rules arbitrary: index indices acc)
  case Nil
  then show ?case by (auto dest: indexed_distinct)
next
  case (Cons rule rules)
  from Cons.prems show ?case
  proof (rule normalize_step)
    fix indices' acc'
    assume step: "normalize_loop (Suc index) rules indices' acc' = Inr out" "indexed indices' acc'"
      "\<And>comm. rule_for comm acc' = better comm (rule_for comm acc) rule"
      "validateExactComm (cr_Comm rule) = None"
      "set acc' \<subseteq> insert rule (set acc)" "length acc' \<le> Suc (length acc)"
    from Cons.IH [OF step(1,2)] step(3-6) show ?thesis by auto
  qed
qed

lemma indexed_Nil: "indexed [] []"
  by (simp add: indexed_def)

text \<open>Policies as the daemon stores them.\<close>

definition normal_policy :: "kernel_policy \<Rightarrow> bool" where
  "normal_policy policy \<longleftrightarrow>
     kp_Mode policy \<le> KernelPolicyAuthoritative \<and>
     (kp_Mode policy = KernelPolicyUserspaceOnly \<longrightarrow> kp_CommRules policy = []) \<and>
     length (kp_CommRules policy) \<le> MaxKernelCommRules \<and>
     distinct (map cr_Comm (kp_CommRules policy)) \<and>
     (\<forall>r \<in> set (kp_CommRules policy). validateExactComm (cr_Comm r) = None)"

lemma normalize_normal:
  assumes "validateAndNormalizeKernelPolicy policy = Inr policy'"
  shows "normal_policy policy'" and "kp_Mode policy' = kp_Mode policy"
    and "deciding_rule comm (kp_CommRules policy') = deciding_rule comm (kp_CommRules policy)"
proof -
  from assms obtain rules where
    mode: "\<not> kp_Mode policy > KernelPolicyAuthoritative"
      "\<not> (kp_Mode policy = KernelPolicyUserspaceOnly \<and> kp_CommRules policy \<noteq> [])"
      "\<not> length (kp_CommRules policy) > MaxKernelCommRules"
    and rules: "normalize_loop 0 (kp_CommRules policy) [] [] = Inr rules"
    and p': "policy' = \<lparr>kp_Mode = kp_Mode policy, kp_CommRules = rules\<rparr>"
    by (auto simp: validateAndNormalizeKernelPolicy_def split: if_splits sum.splits)
  note spec = normalize_loop_spec [OF rules indexed_Nil, simplified]
  show "kp_Mode policy' = kp_Mode policy" by (simp add: p')
  show "normal_policy policy'"
    using mode spec by (auto simp: normal_policy_def p' not_less)
  show "deciding_rule comm (kp_CommRules policy') = deciding_rule comm (kp_CommRules policy)"
    using spec by (simp add: p' deciding_rule_distinct) (simp add: deciding_rule_def)
qed

section \<open>Keys of the rule table\<close>

definition comm_bytes :: "string \<Rightarrow> i8 list" where
  "comm_bytes comm = map byte_of comm @ replicate (TaskCommLength - length comm) 0"

lemma makeCommRuleKey_ok:
  "validateExactComm comm = None \<Longrightarrow>
   makeCommRuleKey generation comm = Inr \<lparr>rk_Generation = generation, rk_Comm = comm_bytes comm\<rparr>"
  by (simp add: makeCommRuleKey_def comm_bytes_def)

lemma unat_byte_of [simp]: "unat (byte_of c) = of_char c"
  by (simp add: byte_of_def unat_of_nat)

lemma char_of_byte [simp]: "char_of (unat (byte_of c)) = c"
  by simp

lemma byte_of_inj [simp]: "byte_of c = byte_of d \<longleftrightarrow> c = d"
  by (metis char_of_byte)

lemma byte_of_eq_0 [simp]: "byte_of c = 0 \<longleftrightarrow> c = CHR 0x00"
proof -
  have "byte_of (CHR 0x00) = 0" by (simp add: byte_of_def)
  then show ?thesis by (metis byte_of_inj)
qed

lemma int8String_comm_bytes:
  assumes "validateExactComm comm = None"
  shows "int8String (comm_bytes comm) = comm"
proof -
  have nz: "CHR 0x00 \<notin> set comm" and short: "length comm < 16"
    using assms by (auto simp: validateExactComm_def split: if_splits)
  have "takeWhile (\<lambda>b. b \<noteq> 0) (map byte_of comm @ replicate (16 - length comm) 0) = map byte_of comm"
    using nz short by (subst takeWhile_append2) (auto simp: takeWhile_eq_Nil_iff)
  then show ?thesis by (simp add: int8String_def comm_bytes_def comp_def)
qed

lemma comm_bytes_inj:
  "validateExactComm a = None \<Longrightarrow> validateExactComm b = None \<Longrightarrow>
   comm_bytes a = comm_bytes b \<longleftrightarrow> a = b"
  by (metis int8String_comm_bytes)

lemma length_comm_bytes: "validateExactComm comm = None \<Longrightarrow> length (comm_bytes comm) = 16"
  by (auto simp: validateExactComm_def comm_bytes_def split: if_splits)

definition rule_key :: "u64 \<Rightarrow> exact_comm_rule \<Rightarrow> comm_rule_key" where
  "rule_key generation rule = \<lparr>rk_Generation = generation, rk_Comm = comm_bytes (cr_Comm rule)\<rparr>"

definition rule_value :: "exact_comm_rule \<Rightarrow> comm_rule_value" where
  "rule_value rule = \<lparr>rv_Priority = cr_Priority rule, rv_Mark = cr_Mark rule\<rparr>"

text \<open>The entries a complete generation of a policy has in the rule table.\<close>

definition rule_entries :: "u64 \<Rightarrow> exact_comm_rule list \<Rightarrow> (comm_rule_key, comm_rule_value) gomap" where
  "rule_entries generation rules = map (\<lambda>r. (rule_key generation r, rule_value r)) rules"

lemma rule_entries_lookup:
  assumes "\<forall>r \<in> set rules. validateExactComm (cr_Comm r) = None" "validateExactComm comm = None"
  shows "mget (rule_entries generation rules) \<lparr>rk_Generation = generation, rk_Comm = comm_bytes comm\<rparr> =
    map_option rule_value (rule_for comm rules)"
  using assms by (induction rules) (auto simp: rule_entries_def rule_key_def comm_bytes_inj)

lemma rule_entries_other_generation:
  "rk_Generation k \<noteq> generation \<Longrightarrow> mget (rule_entries generation rules) k = None"
  by (auto simp: rule_entries_def rule_key_def map_of_eq_None_iff)

lemma distinct_rule_keys:
  "distinct (map cr_Comm rules) \<Longrightarrow> \<forall>r \<in> set rules. validateExactComm (cr_Comm r) = None \<Longrightarrow>
   distinct (map (rule_key generation) rules)"
  by (auto simp: distinct_map rule_key_def comm_bytes_inj inj_on_def)

text \<open>A lookup of a name in the rules of a normalised policy finds the rule that decides it.\<close>

lemma lookup_decides:
  assumes "validateAndNormalizeKernelPolicy policy = Inr policy'" "validateExactComm name = None"
  shows "mget (rule_entries g (kp_CommRules policy')) \<lparr>rk_Generation = g, rk_Comm = comm_bytes name\<rparr> =
    map_option rule_value (deciding_rule name (kp_CommRules policy))"
  using normalize_normal(1,3) [OF assms(1)] assms(2)
  by (simp add: rule_entries_lookup normal_policy_def deciding_rule_distinct [symmetric])

end
