(* ===== verification/Marker.thy ===== *)
theory Marker
  imports KernelPolicy
begin

text \<open>
  The state of the daemon (the struct \<^verbatim>\<open>marker\<close> of \<^verbatim>\<open>mark.go\<close>) and the operations the
  handlers are made of: callbacks, the synchronisation of one entry with the kernel map,
  the merge of one entry into the mirror and the replay of the mirror. A callback is a
  function on the state \<open>'c\<close> its closure may change (\<open>env\<close>), so a checker may count its
  calls or feed a rule tracker; \<open>wld\<close> is the world the system calls act on.
\<close>

section \<open>Data\<close>

record kernel_mark =
  km_HasMark :: bool
  km_Inherited :: bool
  km_Mark :: u64
  km_Priority :: i8

record process_event =
  pe_Type :: string
  pe_Key :: process_key
  pe_ParentKey :: "process_key option"
  pe_Kernel :: kernel_mark
  pe_Process :: process_info
  pe_Value :: "process_value option"

text \<open>
  The errors the daemon's methods return, and its diagnostics, one constructor for each format.
  \<open>PanicNilProcesses\<close> is the panic of a method call on a nil map handle.
\<close>

datatype go_error =
    ErrRefreshMirror
  | ErrListProcesses proc_error
  | ErrListBeforeSwitch proc_error
  | ErrFallbackDelete process_key map_error
  | PanicNilProcesses
  | ErrPolicy policy_error
  | ErrGenerationExhausted
  | ErrCommKey comm_error
  | ErrPopulate string map_error
  | ErrActivate u64 map_error

datatype log_entry =
    LogSyncKernel process_key map_error
  | LogExecTombstone process_key
  | LogTraversal nat nat nat
  | LogCollected nat
  | LogExpiredGeneration
  | LogTombstonedDead nat
  | LogRollbackRule comm_rule_key map_error
  | LogDeleteInactive u64 comm_rule_key map_error
  | LogTraversalAfterSwitch go_error
  | LogPolicyActive u8 u64 nat
  | LogInitialTraversal bool go_error
  | LogReadRing
  | LogParseEvent
  | LogCollectTombstones go_error

type_synonym 'c check_func = "process_info \<Rightarrow> 'c \<Rightarrow> (i8 \<times> u64 \<times> bool) \<times> 'c"

record 'c callbacks =
  cb_Check :: "'c check_func option"
  cb_ProcessEvent :: "(process_event \<Rightarrow> 'c \<Rightarrow> 'c) option"
  cb_ProcessUpdate :: "(process_key \<times> process_value \<Rightarrow> 'c \<Rightarrow> 'c) option"
  cb_Logf :: "(log_entry \<Rightarrow> 'c \<Rightarrow> 'c) option"

type_synonym mirror_map = "(process_key, process_value) gomap"

text \<open>
  The fields up to \<open>tombTTL\<close> are those of the Go struct; the three map handles are reduced
  to whether they are non-nil. \<open>tombTTL\<close> is a \<^verbatim>\<open>time.Duration\<close>, a signed 64-bit number of
  nanoseconds.
\<close>

record 'c marker =
  processes :: bool
  commRules :: bool
  activePolicy :: bool
  mirror :: mirror_map
  check :: "'c check_func"
  generation :: u64
  policyGeneration :: u64
  kernelPolicy :: kernel_policy
  callbacks :: "'c callbacks"
  eventCounter :: u64
  installedCommRules :: "(u64, comm_rule_key list) gomap"
  tombTTL :: "64 word"
  wld :: world
  env :: 'c

section \<open>Primitive operations\<close>

definition logf :: "log_entry \<Rightarrow> 'c marker \<Rightarrow> 'c marker" where
  "logf entry m =
     (case cb_Logf (callbacks m) of None \<Rightarrow> m | Some f \<Rightarrow> m\<lparr>env := f entry (env m)\<rparr>)"

definition onProcessUpdate :: "process_key \<Rightarrow> process_value \<Rightarrow> 'c marker \<Rightarrow> 'c marker" where
  "onProcessUpdate key value m =
     (case cb_ProcessUpdate (callbacks m) of
        None \<Rightarrow> m | Some f \<Rightarrow> m\<lparr>env := f (key, value) (env m)\<rparr>)"

definition onProcessEvent :: "process_event \<Rightarrow> 'c marker \<Rightarrow> 'c marker" where
  "onProcessEvent event m =
     (case cb_ProcessEvent (callbacks m) of None \<Rightarrow> m | Some f \<Rightarrow> m\<lparr>env := f event (env m)\<rparr>)"

definition run_check :: "process_info \<Rightarrow> 'c marker \<Rightarrow> (i8 \<times> u64 \<times> bool) \<times> 'c marker" where
  "run_check info m = (let (r, c) = check m info (env m) in (r, m\<lparr>env := c\<rparr>))"

text \<open>A world operation, run on the daemon's world.\<close>

definition in_world :: "(world \<Rightarrow> 'a \<times> world) \<Rightarrow> 'c marker \<Rightarrow> 'a \<times> 'c marker" where
  "in_world f m = (let (r, w) = f (wld m) in (r, m\<lparr>wld := w\<rparr>))"

definition syncKernel :: "process_key \<Rightarrow> process_value \<Rightarrow> 'c marker \<Rightarrow> 'c marker" where
  "syncKernel key value m =
     (if \<not> processes m then m
      else let (err, m) = in_world (processes_Put key value) m
           in case err of None \<Rightarrow> m | Some e \<Rightarrow> logf (LogSyncKernel key e) m)"

definition newProcessValue :: "i8 \<Rightarrow> u64 \<Rightarrow> bool \<Rightarrow> 'c marker \<Rightarrow> process_value \<times> 'c marker" where
  "newProcessValue priority mark explicit m =
     (let (now, m') = in_world nowBootNS m
      in (\<lparr>Tombstone = False, Inheritance = explicit, HasMark = True, Priority = priority,
           Generation = generation m, Mark = mark, Timestamp = now\<rparr>, m'))"

definition newNoMarkProcessValue :: "process_value \<Rightarrow> 'c marker \<Rightarrow> process_value \<times> 'c marker" where
  "newNoMarkProcessValue old m =
     (let (now, m') = in_world nowBootNS m
      in (\<lparr>Tombstone = False, Inheritance = Inheritance old, HasMark = False,
           Priority = Priority old, Generation = generation m, Mark = Mark old,
           Timestamp = now\<rparr>, m'))"

text \<open>The value a child inherits, as \<^verbatim>\<open>handleEvent\<close> and the traversal build it.\<close>

definition inheritedValue :: "process_value \<Rightarrow> 'c marker \<Rightarrow> process_value \<times> 'c marker" where
  "inheritedValue parentValue m =
     (let (now, m') = in_world nowBootNS m
      in (parentValue\<lparr>Tombstone := False, HasMark := True, Inheritance := False,
           Generation := generation m, Timestamp := now\<rparr>, m'))"

definition canInheritCurrentGeneration :: "'c marker \<Rightarrow> process_value \<Rightarrow> bool" where
  "canInheritCurrentGeneration m value \<longleftrightarrow> canInherit value \<and> Generation value = generation m"

section \<open>Merging one entry\<close>

definition upsertProcessWithLog ::
    "process_key \<Rightarrow> process_value \<Rightarrow> bool \<Rightarrow> 'c marker \<Rightarrow> 'c marker" where
  "upsertProcessWithLog key next logUpdate m =
     (let store = \<lambda>next.
        (let m = m\<lparr>mirror := mput key next (mirror m)\<rparr>;
             m = syncKernel key next m
         in if logUpdate then onProcessUpdate key next m else m)
      in case mget (mirror m) key of
           Some old \<Rightarrow>
             (let next = preferProcessValue old next in if old = next then m else store next)
         | None \<Rightarrow> store next)"

definition upsertProcess :: "process_key \<Rightarrow> process_value \<Rightarrow> 'c marker \<Rightarrow> 'c marker" where
  "upsertProcess key next m = upsertProcessWithLog key next True m"

definition setProcessMark :: "process_key \<Rightarrow> i8 \<Rightarrow> u64 \<Rightarrow> 'c marker \<Rightarrow> 'c marker" where
  "setProcessMark key priority mark m =
     (let (value, m) = newProcessValue priority mark True m in upsertProcess key value m)"

section \<open>Replaying the mirror\<close>

fun replay_loop ::
    "(process_key \<times> process_value \<Rightarrow> 'c \<Rightarrow> 'c) \<Rightarrow>
     (process_key \<Rightarrow> process_value \<Rightarrow> process_value option) \<Rightarrow> mirror_map \<Rightarrow> 'c \<Rightarrow> 'c" where
  "replay_loop f selectValue [] c = c"
| "replay_loop f selectValue ((key, value) # rest) c =
     replay_loop f selectValue rest
       (case selectValue key value of None \<Rightarrow> c | Some v \<Rightarrow> f (key, v) c)"

definition replayProcessUpdates ::
    "(process_key \<Rightarrow> process_value \<Rightarrow> process_value option) \<Rightarrow> 'c marker \<Rightarrow> 'c marker" where
  "replayProcessUpdates selectValue m =
     (case cb_ProcessUpdate (callbacks m) of
        None \<Rightarrow> m
      | Some f \<Rightarrow> m\<lparr>env := replay_loop f selectValue (mirror m) (env m)\<rparr>)"

definition updateHooks :: "'c callbacks \<Rightarrow> 'c marker \<Rightarrow> 'c marker" where
  "updateHooks cbs m =
     replayProcessUpdates (\<lambda>_ value. if \<not> Tombstone value then Some value else None)
       (m\<lparr>callbacks := (callbacks m)\<lparr>cb_ProcessEvent := cb_ProcessEvent cbs,
           cb_ProcessUpdate := cb_ProcessUpdate cbs, cb_Logf := cb_Logf cbs\<rparr>\<rparr>)"

definition currentGeneration :: "'c marker \<Rightarrow> u64" where
  "currentGeneration m = generation m"

definition kernelPolicyState :: "'c marker \<Rightarrow> kernel_policy_status" where
  "kernelPolicyState m =
     \<lparr>st_Generation = generation m, st_Mode = kp_Mode (kernelPolicy m),
      st_RuleCount = length (kp_CommRules (kernelPolicy m))\<rparr>"

section \<open>Frame: what the primitive operations leave unchanged\<close>

text \<open>All fields of the struct but the mirror.\<close>

definition settings ::
    "'c marker \<Rightarrow> bool \<times> bool \<times> bool \<times> 'c check_func \<times> u64 \<times> u64 \<times> kernel_policy \<times>
       'c callbacks \<times> u64 \<times> (u64, comm_rule_key list) gomap \<times> 64 word" where
  "settings m = (processes m, commRules m, activePolicy m, check m, generation m,
     policyGeneration m, kernelPolicy m, callbacks m, eventCounter m, installedCommRules m,
     tombTTL m)"

lemma settingsD:
  "settings m' = settings m \<Longrightarrow>
   processes m' = processes m \<and> commRules m' = commRules m \<and> activePolicy m' = activePolicy m \<and>
   check m' = check m \<and> generation m' = generation m \<and>
   policyGeneration m' = policyGeneration m \<and> kernelPolicy m' = kernelPolicy m \<and>
   callbacks m' = callbacks m \<and> eventCounter m' = eventCounter m \<and>
   installedCommRules m' = installedCommRules m \<and> tombTTL m' = tombTTL m"
  by (simp add: settings_def)

lemma settings_cong [simp]:
  "settings (m\<lparr>env := c\<rparr>) = settings m" "settings (m\<lparr>wld := w\<rparr>) = settings m"
  "settings (m\<lparr>mirror := mm\<rparr>) = settings m"
  by (simp_all add: settings_def)

lemma logf_frame [simp]:
  "settings (logf e m) = settings m" "mirror (logf e m) = mirror m" "wld (logf e m) = wld m"
  by (simp_all add: logf_def split: option.splits)

lemma onProcessUpdate_frame [simp]:
  "settings (onProcessUpdate k v m) = settings m" "mirror (onProcessUpdate k v m) = mirror m"
  "wld (onProcessUpdate k v m) = wld m"
  by (simp_all add: onProcessUpdate_def split: option.splits)

lemma onProcessEvent_frame [simp]:
  "settings (onProcessEvent e m) = settings m" "mirror (onProcessEvent e m) = mirror m"
  "wld (onProcessEvent e m) = wld m"
  by (simp_all add: onProcessEvent_def split: option.splits)

lemma run_check_frame [simp]:
  "settings (snd (run_check info m)) = settings m" "mirror (snd (run_check info m)) = mirror m"
  "wld (snd (run_check info m)) = wld m"
  by (simp_all add: run_check_def split_beta Let_def)

lemma in_world_frame [simp]:
  "settings (snd (in_world f m)) = settings m" "mirror (snd (in_world f m)) = mirror m"
  "env (snd (in_world f m)) = env m"
  by (simp_all add: in_world_def split_beta Let_def)

lemma wld_in_world [simp]: "wld (snd (in_world f m)) = snd (f (wld m))"
  and fst_in_world [simp]: "fst (in_world f m) = fst (f (wld m))"
  by (simp_all add: in_world_def split_beta Let_def)

lemma syncKernel_frame [simp]:
  "settings (syncKernel k v m) = settings m" "mirror (syncKernel k v m) = mirror m"
  by (simp_all add: syncKernel_def split_beta Let_def split: option.splits)

lemma newProcessValue_frame [simp]:
  "settings (snd (newProcessValue p mk ex m)) = settings m"
  "mirror (snd (newProcessValue p mk ex m)) = mirror m"
  by (simp_all add: newProcessValue_def split_beta Let_def)

lemma newNoMarkProcessValue_frame [simp]:
  "settings (snd (newNoMarkProcessValue old m)) = settings m"
  "mirror (snd (newNoMarkProcessValue old m)) = mirror m"
  by (simp_all add: newNoMarkProcessValue_def split_beta Let_def)

lemma inheritedValue_frame [simp]:
  "settings (snd (inheritedValue v m)) = settings m" "mirror (snd (inheritedValue v m)) = mirror m"
  by (simp_all add: inheritedValue_def split_beta Let_def)

lemma newProcessValue_value [simp]:
  "Tombstone (fst (newProcessValue p mk ex m)) = False"
  "HasMark (fst (newProcessValue p mk ex m)) = True"
  "Inheritance (fst (newProcessValue p mk ex m)) = ex"
  "Generation (fst (newProcessValue p mk ex m)) = generation m"
  "Priority (fst (newProcessValue p mk ex m)) = p"
  "Mark (fst (newProcessValue p mk ex m)) = mk"
  "Timestamp (fst (newProcessValue p mk ex m)) = fst (nowBootNS (wld m))"
  by (simp_all add: newProcessValue_def split_beta Let_def)

lemma newNoMarkProcessValue_value [simp]:
  "Tombstone (fst (newNoMarkProcessValue old m)) = False"
  "HasMark (fst (newNoMarkProcessValue old m)) = False"
  "Inheritance (fst (newNoMarkProcessValue old m)) = Inheritance old"
  "Generation (fst (newNoMarkProcessValue old m)) = generation m"
  "Priority (fst (newNoMarkProcessValue old m)) = Priority old"
  "Mark (fst (newNoMarkProcessValue old m)) = Mark old"
  "Timestamp (fst (newNoMarkProcessValue old m)) = fst (nowBootNS (wld m))"
  by (simp_all add: newNoMarkProcessValue_def split_beta Let_def)

lemma inheritedValue_value [simp]:
  "Tombstone (fst (inheritedValue v m)) = False"
  "HasMark (fst (inheritedValue v m)) = True"
  "Inheritance (fst (inheritedValue v m)) = False"
  "Generation (fst (inheritedValue v m)) = generation m"
  "Priority (fst (inheritedValue v m)) = Priority v"
  "Mark (fst (inheritedValue v m)) = Mark v"
  by (simp_all add: inheritedValue_def split_beta Let_def)

lemmas logf_fields [simp] = logf_frame(1) [THEN settingsD]
lemmas onProcessUpdate_fields [simp] = onProcessUpdate_frame(1) [THEN settingsD]
lemmas onProcessEvent_fields [simp] = onProcessEvent_frame(1) [THEN settingsD]
lemmas run_check_fields [simp] = run_check_frame(1) [THEN settingsD]
lemmas in_world_fields [simp] = in_world_frame(1) [THEN settingsD]
lemmas syncKernel_fields [simp] = syncKernel_frame(1) [THEN settingsD]
lemmas newProcessValue_fields [simp] = newProcessValue_frame(1) [THEN settingsD]
lemmas newNoMarkProcessValue_fields [simp] = newNoMarkProcessValue_frame(1) [THEN settingsD]
lemmas inheritedValue_fields [simp] = inheritedValue_frame(1) [THEN settingsD]

section \<open>A store merged by rank\<close>

text \<open>
  The contract between the mirror and its clients: every write merges. What the clients
  need is that a store only grows along the rank.
\<close>

definition grows :: "('v \<Rightarrow> 'r::linorder) \<Rightarrow> ('k \<Rightarrow> 'v option) \<Rightarrow> ('k \<Rightarrow> 'v option) \<Rightarrow> bool" where
  "grows rank f g \<longleftrightarrow> (\<forall>k v. f k = Some v \<longrightarrow> (\<exists>w. g k = Some w \<and> rank v \<le> rank w))"

lemma grows_refl [simp]: "grows rank f f"
  by (auto simp: grows_def)

lemma grows_trans [trans]: "grows rank f g \<Longrightarrow> grows rank g h \<Longrightarrow> grows rank f h"
  unfolding grows_def by (meson order_trans)

lemma growsD: "grows rank f g \<Longrightarrow> f k = Some v \<Longrightarrow> \<exists>w. g k = Some w \<and> rank v \<le> rank w"
  by (simp add: grows_def)

locale merge_store = ranked_merge merge rank
  for merge :: "'v \<Rightarrow> 'v \<Rightarrow> 'v" and rank :: "'v \<Rightarrow> 'r::linorder" +
  fixes find :: "'s \<Rightarrow> 'k \<Rightarrow> 'v option"
    and upsert :: "'k \<Rightarrow> 'v \<Rightarrow> 's \<Rightarrow> 's"
  assumes find_upsert: "find (upsert k v s) =
    (find s)(k \<mapsto> (case find s k of None \<Rightarrow> v | Some old \<Rightarrow> merge old v))"
begin

lemma upsert_grows: "grows rank (find s) (find (upsert k v s))"
  by (auto simp: grows_def find_upsert rank_merge split: option.splits)

lemma upsert_other: "k' \<noteq> k \<Longrightarrow> find (upsert k v s) k' = find s k'"
  by (simp add: find_upsert)

lemma upsert_rank: "\<exists>w. find (upsert k v s) k = Some w \<and> rank v \<le> rank w"
  by (auto simp: find_upsert rank_merge split: option.splits)

lemma upsert_in: "find (upsert k v s) k \<in> {Some v, find s k}"
  using merge_in by (auto simp: find_upsert split: option.splits)

lemma upsert_twice: "find (upsert k v (upsert k v s)) = find (upsert k v s)"
  by (auto simp: find_upsert merge_idem merge_absorb fun_eq_iff split: option.splits)

lemma upsert_commute:
  "k \<noteq> k' \<or> rank v \<noteq> rank v' \<Longrightarrow>
   find (upsert k v (upsert k' v' s)) = find (upsert k' v' (upsert k v s))"
  by (auto simp: find_upsert merge_if fun_eq_iff split: option.splits)

end

definition mirror_upsert :: "process_key \<Rightarrow> process_value \<Rightarrow> mirror_map \<Rightarrow> mirror_map" where
  "mirror_upsert key next mm =
     mput key (case mget mm key of None \<Rightarrow> next | Some old \<Rightarrow> preferProcessValue old next) mm"

interpretation mir: merge_store preferProcessValue value_rank mget mirror_upsert
  by unfold_locales (simp add: mirror_upsert_def)

lemma wfmap_mirror_upsert [simp, intro]: "wfmap mm \<Longrightarrow> wfmap (mirror_upsert k v mm)"
  by (simp add: mirror_upsert_def)

lemma upsertProcessWithLog_frame [simp]:
  "settings (upsertProcessWithLog k v b m) = settings m"
  by (simp add: upsertProcessWithLog_def Let_def split: option.splits)

lemma upsertProcessWithLog_mirror [simp]:
  "mirror (upsertProcessWithLog k v b m) = mirror_upsert k v (mirror m)"
  by (auto simp: upsertProcessWithLog_def mirror_upsert_def Let_def update_triv
      split: option.splits)

lemma upsertProcess_frame [simp]:
  "settings (upsertProcess k v m) = settings m"
  "mirror (upsertProcess k v m) = mirror_upsert k v (mirror m)"
  by (simp_all add: upsertProcess_def)

lemmas upsertProcessWithLog_fields [simp] = upsertProcessWithLog_frame [THEN settingsD]
lemmas upsertProcess_fields [simp] = upsertProcess_frame(1) [THEN settingsD]

section \<open>Sequences of upserts\<close>

text \<open>
  The relation behind every operation but the collector: the mirror changes by merging
  entries that satisfy \<open>P\<close>, any number of them, in any order.
\<close>

inductive upserts ::
    "(process_key \<Rightarrow> process_value \<Rightarrow> bool) \<Rightarrow> mirror_map \<Rightarrow> mirror_map \<Rightarrow> bool"
  for P :: "process_key \<Rightarrow> process_value \<Rightarrow> bool" where
  upserts_refl [simp, intro!]: "upserts P mm mm"
| upserts_step: "upserts P mm mm' \<Longrightarrow> P k v \<Longrightarrow> upserts P mm (mirror_upsert k v mm')"

lemma upserts_one [intro]: "P k v \<Longrightarrow> upserts P mm (mirror_upsert k v mm)"
  by (rule upserts_step) auto

lemma upserts_trans [trans]:
  assumes "upserts P mm mm'" "upserts P mm' mm''"
  shows "upserts P mm mm''"
  using assms(2,1) by induction (auto intro: upserts_step)

lemma upserts_mono:
  assumes "upserts P mm mm'" "\<And>k v. P k v \<Longrightarrow> Q k v"
  shows "upserts Q mm mm'"
  using assms by induction (auto intro: upserts_step)

lemma upserts_grows: "upserts P mm mm' \<Longrightarrow> grows value_rank (mget mm) (mget mm')"
  by (induction rule: upserts.induct) (auto intro: grows_trans mir.upsert_grows)

lemma upserts_wfmap: "upserts P mm mm' \<Longrightarrow> wfmap mm \<Longrightarrow> wfmap mm'"
  by (induction rule: upserts.induct) auto

text \<open>Every value of the result was there before or is one of the merged ones.\<close>

lemma upsert_values:
  "mget (mirror_upsert j w mm) k = Some v \<Longrightarrow> mget mm k = Some v \<or> k = j \<and> v = w"
  using mir.upsert_in [of j w mm] mir.upsert_other [of k j w mm] by (cases "k = j") auto

lemma upserts_values:
  "upserts P mm mm' \<Longrightarrow> mget mm' k = Some v \<Longrightarrow> mget mm k = Some v \<or> P k v"
  by (induction rule: upserts.induct) (auto dest!: upsert_values)

lemma grows_tombstone:
  assumes "grows value_rank f g" "f k = Some v" "Tombstone v"
  shows "\<exists>w. g k = Some w \<and> Tombstone w"
  using growsD [OF assms(1,2)] assms(3) rank_le_Tombstone by blast

section \<open>Bounds on generations\<close>

definition gens_le :: "u64 \<Rightarrow> mirror_map \<Rightarrow> bool" where
  "gens_le g mm \<longleftrightarrow> (\<forall>k v. mget mm k = Some v \<longrightarrow> Generation v \<le> g)"

lemma upserts_gens_le:
  "upserts P mm mm' \<Longrightarrow> gens_le g mm \<Longrightarrow> (\<And>k v. P k v \<Longrightarrow> Generation v \<le> g) \<Longrightarrow> gens_le g mm'"
  unfolding gens_le_def by (meson upserts_values)

section \<open>The kernel map as a replica of the mirror\<close>

definition synced :: "'c marker \<Rightarrow> bool" where
  "synced m \<longleftrightarrow>
     processes m \<and> wfmap (k_processes (wld m)) \<and> mget (k_processes (wld m)) = mget (mirror m)"

text \<open>No map system call from now on fails.\<close>

definition no_faults :: "world \<Rightarrow> bool" where
  "no_faults w \<longleftrightarrow> (\<forall>n \<ge> os_calls w. \<not> os_fault w n \<and> os_abort w n = None)"

definition maps_ok :: "'c marker \<Rightarrow> bool" where
  "maps_ok m \<longleftrightarrow> synced m \<and> no_faults (wld m)"

lemma still_cong: "still w' = still w \<Longrightarrow> no_faults w' = no_faults w"
  by (drule stillD) (simp add: no_faults_def)

lemma maps_okI:
  "maps_ok m \<Longrightarrow> settings m' = settings m \<Longrightarrow> mirror m' = mirror m \<Longrightarrow>
   k_processes (wld m') = k_processes (wld m) \<Longrightarrow> no_faults (wld m') = no_faults (wld m) \<Longrightarrow>
   maps_ok m'"
  by (auto simp: maps_ok_def synced_def dest: settingsD)

lemma nowBootNS_world [simp]:
  "k_processes (snd (nowBootNS w)) = k_processes w" "no_faults (snd (nowBootNS w)) = no_faults w"
  "k_comm_rules (snd (nowBootNS w)) = k_comm_rules w"
  "k_active_policy (snd (nowBootNS w)) = k_active_policy w"
  by (simp_all add: nowBootNS_def no_faults_def)

lemma maps_ok_frame [simp]:
  "maps_ok m \<Longrightarrow> maps_ok (logf e m)"
  "maps_ok m \<Longrightarrow> maps_ok (onProcessUpdate k v m)"
  "maps_ok m \<Longrightarrow> maps_ok (onProcessEvent pe m)"
  "maps_ok m \<Longrightarrow> maps_ok (snd (run_check info m))"
  "maps_ok m \<Longrightarrow> maps_ok (snd (newProcessValue p mk ex m))"
  "maps_ok m \<Longrightarrow> maps_ok (snd (newNoMarkProcessValue v m))"
  "maps_ok m \<Longrightarrow> maps_ok (snd (inheritedValue v m))"
  by (erule maps_okI; simp add: newProcessValue_def newNoMarkProcessValue_def inheritedValue_def
      split_beta Let_def)+

lemma maps_ok_in_world:
  "maps_ok m \<Longrightarrow> still (snd (f (wld m))) = still (wld m) \<Longrightarrow> maps_ok (snd (in_world f m))"
  by (erule maps_okI) (auto dest: stillD still_cong)

lemma no_faults_step: "no_faults w \<Longrightarrow> no_faults (w\<lparr>os_calls := Suc (os_calls w)\<rparr>)"
  by (simp add: no_faults_def)

lemma no_faults_tab [simp]:
  "no_faults (w\<lparr>k_processes := t\<rparr>) = no_faults w"
  "no_faults (w\<lparr>k_comm_rules := t'\<rparr>) = no_faults w"
  "no_faults (w\<lparr>k_active_policy := p\<rparr>) = no_faults w"
  by (simp_all add: no_faults_def)

text \<open>With the mirror written first, one successful \<^verbatim>\<open>Put\<close> makes the replica exact again.\<close>

lemma maps_ok_sync:
  assumes "processes m" "no_faults (wld m)" "wfmap (k_processes (wld m))"
    "mget (mirror m) = (mget (k_processes (wld m)))(k \<mapsto> v)"
  shows "maps_ok (syncKernel k v m)"
proof -
  have "\<not> os_fault (wld m) (os_calls (wld m))" using assms(2) by (simp add: no_faults_def)
  then have "syncKernel k v m = snd (in_world (processes_Put k v) m)"
    using assms(1) by (simp add: syncKernel_def split_beta Let_def processes_Put_def syscall_def)
  then show ?thesis
    using assms \<open>\<not> os_fault _ _\<close>
    by (simp add: maps_ok_def synced_def processes_Put_def syscall_def split_beta Let_def
        no_faults_step)
qed

lemma maps_ok_upsert [simp]: "maps_ok m \<Longrightarrow> maps_ok (upsertProcessWithLog k v b m)"
  by (auto simp: upsertProcessWithLog_def Let_def maps_ok_def [of m] synced_def
      intro!: maps_ok_sync maps_ok_frame(2) split: option.splits)

lemma maps_ok_upsertProcess [simp]: "maps_ok m \<Longrightarrow> maps_ok (upsertProcess k v m)"
  by (simp add: upsertProcess_def)

end
