(* ===== verification/Traversal.thy ===== *)
theory Traversal
  imports Marker
begin

text \<open>
  The traversal of the process tree (\<^verbatim>\<open>traverseProcessesLocked\<close> and
  \<^verbatim>\<open>refreshMirrorFromKernelLocked\<close> of \<^verbatim>\<open>mark.go\<close>): the mirror is refreshed from the kernel
  map, \<^verbatim>\<open>/proc\<close> is listed, and the processes are visited from the roots down, each once.
  The recursion over children is nested (a child sees what its elder siblings wrote), and
  its termination rests on the set of visited ids.
\<close>

section \<open>The tables of the traversal\<close>

fun index_byPID :: "process_info list \<Rightarrow> (u32, process_info) gomap \<Rightarrow> (u32, process_info) gomap" where
  "index_byPID [] tab = tab"
| "index_byPID (proc # procs) tab = index_byPID procs (mput (Tgid (pi_Key proc)) proc tab)"

type_synonym child_table = "(u32, process_info list) gomap"

definition children_of :: "child_table \<Rightarrow> u32 \<Rightarrow> process_info list" where
  "children_of tab pid = (case mget tab pid of None \<Rightarrow> [] | Some procs \<Rightarrow> procs)"

fun index_byParent :: "process_info list \<Rightarrow> child_table \<Rightarrow> child_table" where
  "index_byParent [] tab = tab"
| "index_byParent (proc # procs) tab =
     index_byParent procs (mput (pi_PPID proc) (children_of tab (pi_PPID proc) @ [proc]) tab)"

definition byParent_table :: "process_info list \<Rightarrow> child_table" where
  "byParent_table procs =
     map (\<lambda>(ppid, cs). (ppid, sort_key (Tgid \<circ> pi_Key) cs)) (index_byParent procs [])"

section \<open>Visiting one process\<close>

definition inheritable :: "'c marker \<Rightarrow> process_value option \<Rightarrow> process_value option" where
  "inheritable m parentValue =
     (case parentValue of
        None \<Rightarrow> None
      | Some v \<Rightarrow> if canInheritCurrentGeneration m v then Some v else None)"

definition visit ::
    "process_info \<Rightarrow> process_value option \<Rightarrow> 'c marker \<Rightarrow> process_value option \<times> 'c marker" where
  "visit info parentValue m =
     (let ((priority, mark, ok), m) = run_check info m
      in if ok then
           (let (value, m) = newProcessValue priority mark True m
            in (Some value, upsertProcess (pi_Key info) value m))
         else case inheritable m parentValue of
             Some parent \<Rightarrow>
               (let (value, m) = inheritedValue parent m
                in (Some value, upsertProcess (pi_Key info) value m))
           | None \<Rightarrow>
               (case mget (mirror m) (pi_Key info) of
                  Some existing \<Rightarrow>
                    if \<not> Tombstone existing then
                      (let (value, m) = newNoMarkProcessValue existing m
                       in (Some value, upsertProcess (pi_Key info) value m))
                    else (None, m)
                | None \<Rightarrow> (None, m)))"

section \<open>Walking the tree\<close>

text \<open>
  \<open>walk tab infos parentValue (visited, m)\<close> is the loop \<^verbatim>\<open>for child in children: walk(child, \<dots>)\<close>;
  a single call \<^verbatim>\<open>walk(info, v)\<close> is \<open>walk tab [info] v\<close>.
\<close>

type_synonym 'c walk_state = "u32 set \<times> 'c marker"

function walk ::
    "child_table \<Rightarrow> process_info list \<Rightarrow> process_value option \<Rightarrow> 'c walk_state \<Rightarrow> 'c walk_state" where
  "walk tab [] parentValue s = s"
| "walk tab (info # infos) parentValue s =
     walk tab infos parentValue
       (if Tgid (pi_Key info) \<in> fst s then s
        else let (current, m) = visit info parentValue (snd s)
             in walk tab (children_of tab (Tgid (pi_Key info))) current
                  (insert (Tgid (pi_Key info)) (fst s), m))"
  by pat_completeness auto

lemma walk_visited_dom: "walk_dom (tab, infos, pv, s) \<Longrightarrow> fst s \<subseteq> fst (walk tab infos pv s)"
proof (induction tab infos pv s rule: walk.pinduct)
  case (2 tab info infos pv s)
  obtain cur m where visit: "visit info pv (snd s) = (cur, m)" by fastforce
  from 2 visit show ?case by (simp add: walk.psimps split: if_splits) blast
qed (simp add: walk.psimps)

text \<open>The ids the table knows: as parents, or as ids of listed processes.\<close>

definition table_ids :: "child_table \<Rightarrow> u32 set" where
  "table_ids tab = fst ` set tab \<union> (Tgid \<circ> pi_Key) ` (\<Union> (set ` snd ` set tab))"

lemma finite_table_ids [simp]: "finite (table_ids tab)"
  by (simp add: table_ids_def)

lemma children_of_unknown: "pid \<notin> table_ids tab \<Longrightarrow> children_of tab pid = []"
  by (auto simp: children_of_def table_ids_def dest: mget_Some_key split: option.splits)

termination walk
proof (relation "measures [\<lambda>(tab, infos, pv, s). card (table_ids tab - fst s),
    \<lambda>(tab, infos, pv, s). length infos]", simp, goal_cases)
  case (1 tab info infos pv s cur m)
  then show ?case
  proof (cases "Tgid (pi_Key info) \<in> table_ids tab")
    case True
    then have "table_ids tab - insert (Tgid (pi_Key info)) (fst s) \<subset> table_ids tab - fst s"
      using 1 by auto
    then show ?thesis by (simp add: psubset_card_mono)
  next
    case False
    then show ?thesis by (simp add: children_of_unknown)
  qed
next
  case (2 tab info infos pv s)
  let ?s' = "if Tgid (pi_Key info) \<in> fst s then s
        else let (current, m) = visit info pv (snd s)
             in walk tab (children_of tab (Tgid (pi_Key info))) current
                  (insert (Tgid (pi_Key info)) (fst s), m)"
  obtain cur m where visit: "visit info pv (snd s) = (cur, m)" by fastforce
  have "fst s \<subseteq> fst ?s'"
    using 2 walk_visited_dom [of tab "children_of tab (Tgid (pi_Key info))" cur
        "(insert (Tgid (pi_Key info)) (fst s), m)"] visit by auto
  then have "card (table_ids tab - fst ?s') \<le> card (table_ids tab - fst s)"
    by (intro card_mono) auto
  then show ?case by (simp add: less_Suc_eq_le le_less)
qed

declare walk.simps(2) [simp del]

text \<open>The processes no root reaches, in the order of the listing.\<close>

definition rest_parent ::
    "(u32, process_info) gomap \<Rightarrow> process_info \<Rightarrow> 'c marker \<Rightarrow> process_value option" where
  "rest_parent byPID proc m =
     (case mget byPID (pi_PPID proc) of
        None \<Rightarrow> None
      | Some parent \<Rightarrow> inheritable m (mget (mirror m) (pi_Key parent)))"

fun walk_rest ::
    "child_table \<Rightarrow> (u32, process_info) gomap \<Rightarrow> process_info list \<Rightarrow> 'c walk_state \<Rightarrow> 'c walk_state" where
  "walk_rest tab byPID [] s = s"
| "walk_rest tab byPID (proc # procs) s =
     walk_rest tab byPID procs
       (if Tgid (pi_Key proc) \<in> fst s then s
        else walk tab [proc] (rest_parent byPID proc (snd s)) s)"

definition live_marked :: "mirror_map \<Rightarrow> nat" where
  "live_marked mm = length (filter (\<lambda>(k, v). \<not> Tombstone v \<and> HasMark v) mm)"

definition walk_all :: "process_info list \<Rightarrow> 'c marker \<Rightarrow> 'c walk_state" where
  "walk_all procs m =
     (let tab = byParent_table procs;
          byPID = index_byPID procs []
      in walk_rest tab byPID procs (walk tab (children_of tab 0) None ({}, m)))"

definition traverseProcessesLocked :: "process_info list \<Rightarrow> 'c marker \<Rightarrow> 'c marker" where
  "traverseProcessesLocked procs m =
     (let m = snd (walk_all procs m)
      in logf (LogTraversal (length procs) (length (mirror m)) (live_marked (mirror m))) m)"

section \<open>Refreshing the mirror from the kernel map\<close>

fun refresh_loop ::
    "(process_key \<times> process_value) list \<Rightarrow> mirror_map \<Rightarrow>
     (process_key \<times> process_value) list \<times> mirror_map" where
  "refresh_loop [] mm = ([], mm)"
| "refresh_loop ((key, kernelValue) # entries) mm =
     (let value = (case mget mm key of
                     None \<Rightarrow> kernelValue
                   | Some mirrorValue \<Rightarrow> preferProcessValue mirrorValue kernelValue);
          (repairs, mm) = refresh_loop entries (mput key value mm)
      in (if value \<noteq> kernelValue then (key, value) # repairs else repairs, mm))"

fun sync_all :: "(process_key \<times> process_value) list \<Rightarrow> 'c marker \<Rightarrow> 'c marker" where
  "sync_all [] m = m"
| "sync_all ((key, value) # repairs) m = sync_all repairs (syncKernel key value m)"

text \<open>The result is whether the iteration failed; then no entry is repaired.\<close>

definition refreshMirrorFromKernelLocked :: "'c marker \<Rightarrow> bool \<times> 'c marker" where
  "refreshMirrorFromKernelLocked m =
     (if \<not> processes m then (False, m)
      else let ((entries, failed), m) = in_world processes_Iterate m;
               (repairs, mm) = refresh_loop entries (mirror m);
               m = m\<lparr>mirror := mm\<rparr>
           in if failed then (True, m) else (False, sync_all repairs m))"

definition traverseProcessTreeLocked :: "'c marker \<Rightarrow> go_error option \<times> 'c marker" where
  "traverseProcessTreeLocked m =
     (let (failed, m) = refreshMirrorFromKernelLocked m
      in if failed then (Some ErrRefreshMirror, m)
         else let (res, m) = in_world listProcesses m
              in case res of
                   Inl e \<Rightarrow> (Some (ErrListProcesses e), m)
                 | Inr procs \<Rightarrow> (None, traverseProcessesLocked procs m))"

section \<open>Frame and upserts\<close>

text \<open>What a traversal merges: live values of the current generation.\<close>

definition fresh :: "u64 \<Rightarrow> process_key \<Rightarrow> process_value \<Rightarrow> bool" where
  "fresh g key value \<longleftrightarrow> Generation value = g \<and> \<not> Tombstone value"

lemma visit_frame [simp]: "settings (snd (visit info pv m)) = settings m"
  by (simp add: visit_def split_beta Let_def split: option.splits)

lemmas visit_fields [simp] = visit_frame [THEN settingsD]

lemma visit_upserts: "upserts (fresh (generation m)) (mirror m) (mirror (snd (visit info pv m)))"
  by (auto simp: visit_def split_beta Let_def fresh_def split: option.splits)

lemma walk_frame [simp]: "settings (snd (walk tab infos pv s)) = settings (snd s)"
  by (induction tab infos pv s rule: walk.induct)
    (simp_all add: walk.simps(2) split_beta Let_def)

lemmas walk_fields [simp] = walk_frame [THEN settingsD]

lemma walk_upserts:
  "upserts (fresh (generation (snd s))) (mirror (snd s)) (mirror (snd (walk tab infos pv s)))"
proof (induction tab infos pv s rule: walk.induct)
  case (2 tab info infos pv s)
  show ?case
  proof (cases "Tgid (pi_Key info) \<in> fst s")
    case True
    with "2.IH"(2) show ?thesis by (simp add: walk.simps(2))
  next
    case False
    obtain cur m where visit: "visit info pv (snd s) = (cur, m)" by fastforce
    have gen: "generation m = generation (snd s)"
      using visit_fields [of info pv "snd s"] by (simp add: visit)
    let ?s' = "walk tab (children_of tab (Tgid (pi_Key info))) cur
      (insert (Tgid (pi_Key info)) (fst s), m)"
    let ?P = "fresh (generation (snd s))"
    have "upserts ?P (mirror (snd s)) (mirror m)"
      using visit_upserts [of "snd s" info pv] by (simp add: visit)
    also have "upserts ?P (mirror m) (mirror (snd ?s'))"
      using "2.IH"(1) [OF False refl visit [symmetric]] gen visit by simp
    also have "upserts ?P (mirror (snd ?s')) (mirror (snd (walk tab infos pv ?s')))"
      using "2.IH"(2) False visit gen by simp
    finally show ?thesis using False visit by (simp add: walk.simps(2))
  qed
qed simp

lemma walk_rest_frame [simp]: "settings (snd (walk_rest tab byPID procs s)) = settings (snd s)"
  by (induction procs arbitrary: s) auto

lemmas walk_rest_fields [simp] = walk_rest_frame [THEN settingsD]

lemma walk_rest_upserts:
  "upserts (fresh (generation (snd s))) (mirror (snd s)) (mirror (snd (walk_rest tab byPID procs s)))"
proof (induction procs arbitrary: s)
  case (Cons proc procs)
  show ?case
    using Cons.IH [of s] Cons.IH [of "walk tab [proc] (rest_parent byPID proc (snd s)) s"]
      walk_upserts [of s tab "[proc]"] by (auto intro: upserts_trans)
qed simp

lemma walk_all_frame [simp]: "settings (snd (walk_all procs m)) = settings m"
  by (simp add: walk_all_def Let_def)

lemmas walk_all_fields [simp] = walk_all_frame [THEN settingsD]

lemma walk_all_upserts: "upserts (fresh (generation m)) (mirror m) (mirror (snd (walk_all procs m)))"
  unfolding walk_all_def Let_def
  by (rule upserts_trans [OF walk_upserts [of "({}, m)", simplified]])
    (use walk_rest_upserts [of "walk _ _ None ({}, m)"] in simp)

lemma traverseProcessesLocked_frame [simp]:
  "settings (traverseProcessesLocked procs m) = settings m"
  by (simp add: traverseProcessesLocked_def Let_def)

lemmas traverseProcessesLocked_fields [simp] = traverseProcessesLocked_frame [THEN settingsD]

lemma traverseProcessesLocked_mirror:
  "mirror (traverseProcessesLocked procs m) = mirror (snd (walk_all procs m))"
  by (simp add: traverseProcessesLocked_def Let_def)

lemma refresh_loop_upserts:
  "upserts (\<lambda>k v. (k, v) \<in> set entries) mm (snd (refresh_loop entries mm))"
proof (induction entries arbitrary: mm)
  case (Cons entry entries)
  obtain k v where entry: "entry = (k, v)" by fastforce
  let ?mm = "mirror_upsert k v mm"
  have "upserts (\<lambda>k v. (k, v) \<in> set (entry # entries)) mm ?mm"
    by (rule upserts_one) (simp add: entry)
  also have "upserts (\<lambda>k v. (k, v) \<in> set (entry # entries)) ?mm (snd (refresh_loop entries ?mm))"
    by (rule upserts_mono [OF Cons.IH]) simp
  finally show ?case by (simp add: entry mirror_upsert_def split_beta Let_def)
qed simp

lemma sync_all_frame [simp]:
  "settings (sync_all repairs m) = settings m" "mirror (sync_all repairs m) = mirror m"
  by (induction repairs arbitrary: m) auto

lemma refreshMirror_frame [simp]:
  "settings (snd (refreshMirrorFromKernelLocked m)) = settings m"
  by (simp add: refreshMirrorFromKernelLocked_def split_beta Let_def)

lemmas refreshMirror_fields [simp] = refreshMirror_frame [THEN settingsD]

lemma Iterate_entries:
  "set (fst (fst (processes_Iterate w))) \<subseteq> set (k_processes w)"
  by (auto simp: processes_Iterate_def dest: in_set_takeD split: option.splits)

lemma refreshMirror_upserts:
  "upserts (\<lambda>k v. (k, v) \<in> set (k_processes (wld m))) (mirror m)
     (mirror (snd (refreshMirrorFromKernelLocked m)))"
proof -
  have "upserts (\<lambda>k v. (k, v) \<in> set (k_processes (wld m))) (mirror m)
      (snd (refresh_loop (fst (fst (processes_Iterate (wld m)))) (mirror m)))"
    by (rule upserts_mono [OF refresh_loop_upserts]) (use Iterate_entries in blast)
  then show ?thesis by (auto simp: refreshMirrorFromKernelLocked_def split_beta Let_def)
qed

lemma traverseProcessTreeLocked_frame [simp]:
  "settings (snd (traverseProcessTreeLocked m)) = settings m"
  by (simp add: traverseProcessTreeLocked_def split_beta Let_def split: sum.splits)

lemmas traverseProcessTreeLocked_fields [simp] = traverseProcessTreeLocked_frame [THEN settingsD]

text \<open>Everything a traversal merges is in the kernel map or is fresh.\<close>

lemma traverseProcessTreeLocked_upserts:
  "upserts (\<lambda>k v. (k, v) \<in> set (k_processes (wld m)) \<or> fresh (generation m) k v) (mirror m)
     (mirror (snd (traverseProcessTreeLocked m)))"
proof -
  let ?P = "\<lambda>k v. (k, v) \<in> set (k_processes (wld m)) \<or> fresh (generation m) k v"
  let ?m = "snd (refreshMirrorFromKernelLocked m)"
  have 1: "upserts ?P (mirror m) (mirror ?m)"
    by (rule upserts_mono [OF refreshMirror_upserts]) simp
  have 2: "upserts ?P (mirror ?m) (mirror (snd (walk_all procs (snd (in_world listProcesses ?m)))))"
    for procs
    by (rule upserts_mono [OF walk_all_upserts [of "snd (in_world listProcesses ?m)", simplified]])
      simp
  from 1 2 show ?thesis
    by (auto simp: traverseProcessTreeLocked_def traverseProcessesLocked_mirror split_beta Let_def
        split: sum.splits intro: upserts_trans)
qed

section \<open>The kernel replica through a traversal\<close>

lemma maps_ok_visit [simp]: "maps_ok m \<Longrightarrow> maps_ok (snd (visit info pv m))"
  by (auto simp: visit_def split_beta Let_def split: option.splits)

lemma maps_ok_walk: "maps_ok (snd s) \<Longrightarrow> maps_ok (snd (walk tab infos pv s))"
proof (induction tab infos pv s rule: walk.induct)
  case (2 tab info infos pv s)
  obtain cur m where visit: "visit info pv (snd s) = (cur, m)" by fastforce
  with 2 maps_ok_visit [of "snd s" info pv] show ?case
    by (simp add: walk.simps(2))
qed simp

lemma maps_ok_walk_rest: "maps_ok (snd s) \<Longrightarrow> maps_ok (snd (walk_rest tab byPID procs s))"
  by (induction procs arbitrary: s) (auto simp: maps_ok_walk)

lemma maps_ok_traverseProcesses [simp]: "maps_ok m \<Longrightarrow> maps_ok (traverseProcessesLocked procs m)"
  by (simp add: traverseProcessesLocked_def walk_all_def Let_def maps_ok_walk maps_ok_walk_rest)

lemma refresh_loop_id:
  "\<forall>(k, v) \<in> set entries. mget mm k = Some v \<Longrightarrow> refresh_loop entries mm = ([], mm)"
  by (induction entries) (auto simp: go.merge_idem update_triv)

lemma in_world_same_mirror [simp]:
  "(snd (in_world f m))\<lparr>mirror := mirror m\<rparr> = snd (in_world f m)"
  by (simp add: in_world_def split_beta Let_def)

lemma maps_ok_refresh: "maps_ok m \<Longrightarrow> maps_ok (snd (refreshMirrorFromKernelLocked m))"
  and refresh_succeeds: "maps_ok m \<Longrightarrow> \<not> fst (refreshMirrorFromKernelLocked m)"
proof -
  assume ok: "maps_ok m"
  let ?m = "snd (in_world processes_Iterate m)"
  have it: "fst (processes_Iterate (wld m)) = (k_processes (wld m), False)"
    using ok by (simp add: maps_ok_def no_faults_def processes_Iterate_def)
  have "\<forall>(k, v) \<in> set (k_processes (wld m)). mget (mirror m) k = Some v"
    using ok by (auto simp: maps_ok_def synced_def wfmap_get_iff [symmetric])
  note id = refresh_loop_id [OF this]
  have "maps_ok ?m"
    by (rule maps_okI [OF ok]) (use ok in \<open>simp_all add: processes_Iterate_def maps_ok_def no_faults_def\<close>)
  then show "maps_ok (snd (refreshMirrorFromKernelLocked m))"
    using ok it id by (simp add: refreshMirrorFromKernelLocked_def split_beta Let_def)
  show "\<not> fst (refreshMirrorFromKernelLocked m)"
    using it id by (simp add: refreshMirrorFromKernelLocked_def split_beta Let_def)
qed

lemma maps_ok_traverseTree [simp]: "maps_ok m \<Longrightarrow> maps_ok (snd (traverseProcessTreeLocked m))"
  using maps_ok_refresh [of m] maps_ok_in_world [of "snd (refreshMirrorFromKernelLocked m)" listProcesses]
  by (auto simp: traverseProcessTreeLocked_def split_beta Let_def split: sum.splits)

end
