(* ===== verification/TraversalSpec.thy ===== *)
theory TraversalSpec
  imports Traversal
begin

text \<open>
  What a traversal computes. For a listing whose processes all hang under the roots, and a
  generation that no live entry has reached yet, the live marks of the new generation are
  exactly the effective marks: a process has the mark the checker gives it, or else the
  effective mark of its parent. Every process is visited, and the checker is called once
  for each.
\<close>

section \<open>Children of the table\<close>

abbreviation pid_of :: "process_info \<Rightarrow> u32" where
  "pid_of p \<equiv> Tgid (pi_Key p)"

definition listing :: "process_info list \<Rightarrow> bool" where
  "listing procs \<longleftrightarrow> distinct (map pid_of procs)"

lemma listing_key_inj:
  "listing procs \<Longrightarrow> p \<in> set procs \<Longrightarrow> q \<in> set procs \<Longrightarrow> pid_of p = pid_of q \<Longrightarrow> p = q"
  by (auto simp: listing_def distinct_map dest: inj_onD)

lemma children_index:
  "children_of (index_byParent procs tab) t = children_of tab t @ filter (\<lambda>p. pi_PPID p = t) procs"
  by (induction procs arbitrary: tab) (auto simp: children_of_def)

lemma children_of_map:
  "children_of (map (\<lambda>(k, v). (k, sort_key f v)) tab) t = sort_key f (children_of tab t)"
  by (induction tab) (auto simp: children_of_def)

lemma children_byParent:
  "children_of (byParent_table procs) t = sort_key (Tgid \<circ> pi_Key) (filter (\<lambda>p. pi_PPID p = t) procs)"
  by (simp add: byParent_table_def children_of_map children_index) (simp add: children_of_def)

lemma set_children: "set (children_of (byParent_table procs) t) = {p \<in> set procs. pi_PPID p = t}"
  by (auto simp: children_byParent)

section \<open>Which processes are visited\<close>

lemma walk_visited_mono: "fst s \<subseteq> fst (walk tab infos pv s)"
proof (induction tab infos pv s rule: walk.induct)
  case (2 tab info infos pv s)
  obtain cur m where visit: "visit info pv (snd s) = (cur, m)" by fastforce
  from 2 visit show ?case by (simp add: walk.simps(2) split: if_splits) blast
qed simp

lemma walk_visits: "pid_of ` set infos \<subseteq> fst (walk tab infos pv s)"
proof (induction tab infos pv s rule: walk.induct)
  case (2 tab info infos pv s)
  obtain cur m where visit: "visit info pv (snd s) = (cur, m)" by fastforce
  let ?s' = "if pid_of info \<in> fst s then s
    else walk tab (children_of tab (pid_of info)) cur (insert (pid_of info) (fst s), m)"
  have "pid_of info \<in> fst ?s'"
    using walk_visited_mono [of "(insert (pid_of info) (fst s), m)"] by auto
  moreover have "fst ?s' \<subseteq> fst (walk tab infos pv ?s')" by (rule walk_visited_mono)
  ultimately show ?case using 2 visit by (auto simp: walk.simps(2))
qed simp

text \<open>Whoever is newly visited has all children visited.\<close>

lemma walk_closed:
  "t \<in> fst (walk tab infos pv s) - fst s \<Longrightarrow> c \<in> set (children_of tab t) \<Longrightarrow>
   pid_of c \<in> fst (walk tab infos pv s)"
proof (induction tab infos pv s arbitrary: t rule: walk.induct)
  case (2 tab info infos pv s)
  show ?case
  proof (cases "pid_of info \<in> fst s")
    case True
    with 2 show ?thesis by (simp add: walk.simps(2))
  next
    case False
    obtain cur m where visit: "visit info pv (snd s) = (cur, m)" by fastforce
    let ?cs = "children_of tab (pid_of info)"
    let ?s0 = "(insert (pid_of info) (fst s), m)"
    let ?s' = "walk tab ?cs cur ?s0"
    have eq: "walk tab (info # infos) pv s = walk tab infos pv ?s'"
      using False visit by (simp add: walk.simps(2))
    have mono: "fst ?s' \<subseteq> fst (walk tab infos pv ?s')" by (rule walk_visited_mono)
    consider "t \<notin> fst ?s'" | "t = pid_of info" | "t \<in> fst ?s' - fst ?s0"
      using "2.prems"(1) by (auto simp: eq)
    then show ?thesis
    proof cases
      case 1
      then show ?thesis using "2.IH"(2) [of t] "2.prems" False visit eq by simp
    next
      case 2
      then have "pid_of c \<in> fst ?s'" using walk_visits [of ?cs tab cur ?s0] "2.prems"(2) by auto
      with mono show ?thesis by (auto simp: eq)
    next
      case 3
      then have "pid_of c \<in> fst ?s'"
        using "2.IH"(1) [OF False refl visit [symmetric], of t] "2.prems"(2) visit by simp
      with mono show ?thesis by (auto simp: eq)
    qed
  qed
qed simp

lemma walk_rest_visited_mono: "fst s \<subseteq> fst (walk_rest tab byPID procs s)"
proof (induction procs arbitrary: s)
  case (Cons proc procs)
  show ?case
    using Cons.IH [of s] Cons.IH [of "walk tab [proc] (rest_parent byPID proc (snd s)) s"]
      walk_visited_mono [of s tab "[proc]"] by auto
qed simp

lemma walk_rest_visits: "pid_of ` set procs \<subseteq> fst (walk_rest tab byPID procs s)"
proof (induction procs arbitrary: s)
  case (Cons proc procs)
  let ?s' = "if pid_of proc \<in> fst s then s
    else walk tab [proc] (rest_parent byPID proc (snd s)) s"
  have "pid_of proc \<in> fst ?s'" using walk_visits [of "[proc]" tab _ s] by auto
  with walk_rest_visited_mono [of ?s' tab byPID procs] Cons.IH [of ?s'] show ?case by auto
qed simp

lemma walk_all_visits: "pid_of ` set procs \<subseteq> fst (walk_all procs m)"
  by (simp add: walk_all_def Let_def walk_rest_visits)

section \<open>Effective marks\<close>

type_synonym decision_fun = "process_info \<Rightarrow> i8 \<times> u64 \<times> bool"

text \<open>The checker's decision does not depend on the state of its closure.\<close>

definition decides :: "'c marker \<Rightarrow> decision_fun \<Rightarrow> bool" where
  "decides m d \<longleftrightarrow> (\<forall>info c. fst (check m info c) = d info)"

lemma decides_run: "decides m d \<Longrightarrow> fst (run_check info m) = d info"
  by (simp add: decides_def run_check_def split_beta Let_def)

lemma decides_settings: "settings m' = settings m \<Longrightarrow> decides m' d = decides m d"
  by (drule settingsD) (simp add: decides_def)

inductive effective :: "decision_fun \<Rightarrow> process_info list \<Rightarrow> process_info \<Rightarrow> i8 \<times> u64 \<Rightarrow> bool"
  for d :: decision_fun and procs :: "process_info list" where
  eff_match: "d p = (prio, mk, True) \<Longrightarrow> effective d procs p (prio, mk)"
| eff_inherit: "d p = (prio, mk, False) \<Longrightarrow> q \<in> set procs \<Longrightarrow> pi_PPID p = pid_of q \<Longrightarrow>
    effective d procs q x \<Longrightarrow> effective d procs p x"

inductive rooted :: "process_info list \<Rightarrow> process_info \<Rightarrow> bool"
  for procs :: "process_info list" where
  rooted_root: "pi_PPID p = 0 \<Longrightarrow> rooted procs p"
| rooted_child: "q \<in> set procs \<Longrightarrow> pi_PPID p = pid_of q \<Longrightarrow> rooted procs q \<Longrightarrow> rooted procs p"

inductive_cases effective_cases: "effective d procs p x"

lemma effective_unmatched:
  "d p = (prio, mk, False) \<Longrightarrow>
   effective d procs p x \<longleftrightarrow> (\<exists>q \<in> set procs. pid_of q = pi_PPID p \<and> effective d procs q x)"
proof (intro iffI)
  assume "d p = (prio, mk, False)" "effective d procs p x"
  then show "\<exists>q \<in> set procs. pid_of q = pi_PPID p \<and> effective d procs q x"
    by (cases rule: effective.cases [OF \<open>effective d procs p x\<close>]) (simp, metis)
qed (metis eff_inherit)

lemma effective_matched: "d p = (prio, mk, True) \<Longrightarrow> effective d procs p x \<longleftrightarrow> x = (prio, mk)"
  by (auto intro: eff_match elim: effective_cases)

text \<open>A value that marks its process in the generation \<open>g\<close>, and what it marks it with.\<close>

definition value_marks :: "u64 \<Rightarrow> process_value option \<Rightarrow> i8 \<times> u64 \<Rightarrow> bool" where
  "value_marks g value x \<longleftrightarrow>
     (case value of
        None \<Rightarrow> False
      | Some v \<Rightarrow> canInherit v \<and> Generation v = g \<and> (Priority v, Mark v) = x)"

text \<open>An entry the generation \<open>g\<close> has not reached: absent, or live and older.\<close>

definition stale :: "u64 \<Rightarrow> process_value option \<Rightarrow> bool" where
  "stale g value \<longleftrightarrow>
     (case value of None \<Rightarrow> True | Some v \<Rightarrow> \<not> Tombstone v \<and> Generation v < g)"

lemma prefer_over_stale:
  "stale g (Some old) \<Longrightarrow> Generation next = g \<Longrightarrow> \<not> Tombstone next \<Longrightarrow>
   preferProcessValue old next = next"
  by (auto simp: stale_def preferProcessValue_def)

lemma upsert_over_stale:
  "stale g (mget mm k) \<Longrightarrow> Generation v = g \<Longrightarrow> \<not> Tombstone v \<Longrightarrow>
   mget (mirror_upsert k v mm) = (mget mm)(k \<mapsto> v)"
  by (auto simp: mir.find_upsert prefer_over_stale split: option.splits)

lemma inheritable_marks:
  "value_marks (generation m) pv x \<longleftrightarrow>
   (case inheritable m pv of None \<Rightarrow> False | Some v \<Rightarrow> (Priority v, Mark v) = x)"
  by (auto simp: value_marks_def inheritable_def canInheritCurrentGeneration_def split: option.splits)

lemma visit_spec:
  assumes d: "decides m d" and st: "stale (generation m) (mget (mirror m) (pi_Key p))"
    and pv: "\<And>x. value_marks (generation m) pv x \<longleftrightarrow>
      (\<exists>q \<in> set procs. pid_of q = pi_PPID p \<and> effective d procs q x)"
  shows "value_marks (generation m) (fst (visit p pv m)) x \<longleftrightarrow> effective d procs p x"
    and "value_marks (generation m) (mget (mirror (snd (visit p pv m))) (pi_Key p)) x \<longleftrightarrow>
      effective d procs p x"
    and "k \<noteq> pi_Key p \<Longrightarrow> mget (mirror (snd (visit p pv m))) k = mget (mirror m) k"
proof -
  obtain prio mk ok where dp: "d p = (prio, mk, ok)" by (cases "d p")
  have run: "fst (run_check p m) = (prio, mk, ok)" using d dp by (simp add: decides_run)
  have gen: "generation (snd (run_check p m)) = generation m" by simp
  have up: "mget (mirror_upsert (pi_Key p) v (mirror m)) = (mget (mirror m))(pi_Key p \<mapsto> v)"
    if "Generation v = generation m" "\<not> Tombstone v" for v
    using st that by (rule upsert_over_stale)
  have eff: "effective d procs p x \<longleftrightarrow>
      (if ok then x = (prio, mk) else value_marks (generation m) pv x)" for x
    using dp pv by (cases ok) (auto simp: effective_matched effective_unmatched)
  have inh: "inheritable (snd (run_check p m)) pv = inheritable m pv"
    by (simp add: inheritable_def canInheritCurrentGeneration_def split: option.splits)
  have stale_live: "\<not> value_marks (generation m) (mget (mirror m) (pi_Key p)) x" for x
    using st by (auto simp: value_marks_def stale_def split: option.splits)
  show "value_marks (generation m) (fst (visit p pv m)) x \<longleftrightarrow> effective d procs p x"
    using run inheritable_marks [of m pv x]
    by (auto simp: eff visit_def inh value_marks_def canInherit_def split_beta Let_def
        split: option.splits)
  show "value_marks (generation m) (mget (mirror (snd (visit p pv m))) (pi_Key p)) x \<longleftrightarrow>
      effective d procs p x"
    using run inheritable_marks [of m pv x] stale_live [of x]
    by (auto simp: eff visit_def inh up value_marks_def canInherit_def split_beta Let_def
        split: option.splits)
  show "k \<noteq> pi_Key p \<Longrightarrow> mget (mirror (snd (visit p pv m))) k = mget (mirror m) k"
    by (auto simp: visit_def mir.upsert_other split_beta Let_def split: option.splits)
qed

section \<open>The walk computes the effective marks\<close>

text \<open>Visited processes carry their effective mark, the others are as at the start.\<close>

definition walk_inv ::
    "decision_fun \<Rightarrow> process_info list \<Rightarrow> u64 \<Rightarrow> mirror_map \<Rightarrow> u32 set \<Rightarrow> mirror_map \<Rightarrow> bool" where
  "walk_inv d procs g mm0 visited mm \<longleftrightarrow>
     (\<forall>p \<in> set procs.
        if pid_of p \<in> visited
        then (\<forall>x. value_marks g (mget mm (pi_Key p)) x \<longleftrightarrow> effective d procs p x)
        else mget mm (pi_Key p) = mget mm0 (pi_Key p))"

lemma walk_inv_visit:
  assumes inv: "walk_inv d procs (generation m) mm0 visited (mirror m)"
    and l: "listing procs" and p: "p \<in> set procs" "pid_of p \<notin> visited"
    and d: "decides m d" and st: "stale (generation m) (mget mm0 (pi_Key p))"
    and pv: "\<And>x. value_marks (generation m) pv x \<longleftrightarrow>
      (\<exists>q \<in> set procs. pid_of q = pi_PPID p \<and> effective d procs q x)"
  shows "walk_inv d procs (generation m) mm0 (insert (pid_of p) visited)
      (mirror (snd (visit p pv m)))"
proof -
  have "mget (mirror m) (pi_Key p) = mget mm0 (pi_Key p)" using inv p by (auto simp: walk_inv_def)
  then have st': "stale (generation m) (mget (mirror m) (pi_Key p))" using st by simp
  note spec = visit_spec [OF d st' pv]
  have "pi_Key q \<noteq> pi_Key p" if "q \<in> set procs" "q \<noteq> p" for q
    using listing_key_inj [OF l that(1) p(1)] that(2) by auto
  moreover have "pid_of q \<noteq> pid_of p" if "q \<in> set procs" "q \<noteq> p" for q
    using listing_key_inj [OF l that(1) p(1)] that(2) by auto
  ultimately show ?thesis
    using inv spec(2,3) unfolding walk_inv_def by (metis insert_iff)
qed

lemma walk_inv_walk:
  assumes "tab = byParent_table procs" "listing procs" "set infos \<subseteq> set procs"
    and "decides (snd s) d" "g = generation (snd s)"
    and "\<And>p. p \<in> set procs \<Longrightarrow> stale g (mget mm0 (pi_Key p))"
    and "\<And>p x. p \<in> set infos \<Longrightarrow> value_marks g pv x \<longleftrightarrow>
      (\<exists>q \<in> set procs. pid_of q = pi_PPID p \<and> effective d procs q x)"
    and "walk_inv d procs g mm0 (fst s) (mirror (snd s))"
  shows "walk_inv d procs g mm0 (fst (walk tab infos pv s)) (mirror (snd (walk tab infos pv s)))"
  using assms
proof (induction tab infos pv s rule: walk.induct)
  case (2 tab info infos pv s)
  note prems = "2.prems"
  show ?case
  proof (cases "pid_of info \<in> fst s")
    case True
    have "walk_inv d procs g mm0 (fst (walk tab infos pv s)) (mirror (snd (walk tab infos pv s)))"
      using "2.IH"(2) True prems by simp
    with True show ?thesis by (simp add: walk.simps(2))
  next
    case False
    obtain cur m where visit: "visit info pv (snd s) = (cur, m)" by fastforce
    have m: "settings m = settings (snd s)" "snd (visit info pv (snd s)) = m"
        "fst (visit info pv (snd s)) = cur"
      using visit_frame [of info pv "snd s"] visit by simp_all
    note gen = settingsD [OF m(1)]
    have info: "info \<in> set procs" using prems(3) by simp
    have pv: "\<And>x. value_marks (generation (snd s)) pv x \<longleftrightarrow>
        (\<exists>q \<in> set procs. pid_of q = pi_PPID info \<and> effective d procs q x)"
      using prems(5,7) by simp
    have st: "stale (generation (snd s)) (mget mm0 (pi_Key info))" using prems(5,6) info by simp
    let ?cs = "children_of tab (pid_of info)" and ?s0 = "(insert (pid_of info) (fst s), m)"
    have cs: "set ?cs = {p \<in> set procs. pi_PPID p = pid_of info}"
      using prems(1) by (simp add: set_children)
    have inv0: "walk_inv d procs g mm0 (fst ?s0) (mirror (snd ?s0))"
      using walk_inv_visit [of d procs "snd s" mm0 "fst s" info pv] prems info False st pv m by simp
    have stale_key: "stale (generation (snd s)) (mget (mirror (snd s)) (pi_Key info))"
      using prems(8) info False st by (simp add: walk_inv_def)
    have cur: "value_marks g cur x \<longleftrightarrow>
        (\<exists>q \<in> set procs. pid_of q = pid_of info \<and> effective d procs q x)" for x
      using visit_spec(1) [OF prems(4) stale_key pv, of x] m(3) prems(5) info
        listing_key_inj [OF prems(2)] by auto
    let ?s' = "walk tab ?cs cur ?s0"
    have inv1: "walk_inv d procs g mm0 (fst ?s') (mirror (snd ?s'))"
      by (rule "2.IH"(1) [OF False refl visit [symmetric] prems(1,2)])
        (use cs prems(4,5,6) gen inv0 cur decides_settings [OF m(1)] in auto)
    have "walk_inv d procs g mm0 (fst (walk tab infos pv ?s')) (mirror (snd (walk tab infos pv ?s')))"
      using "2.IH"(2) False visit prems inv1 gen decides_settings [of "snd ?s'" "snd s" d] m(1)
      by simp
    with False visit show ?thesis by (simp add: walk.simps(2))
  qed
qed simp

text \<open>From the roots every rooted process is reached, so nothing is left for the second loop.\<close>

lemma rooted_visited:
  assumes "tab = byParent_table procs" "rooted procs p" "p \<in> set procs"
  shows "pid_of p \<in> fst (walk tab (children_of tab 0) pv ({}, m))"
  using assms(2,3)
proof (induction rule: rooted.induct)
  case (rooted_root p)
  then show ?case
    using walk_visits [of "children_of tab 0" tab pv "({}, m)"] assms(1) by (auto simp: set_children)
next
  case (rooted_child q p)
  then show ?case
    using walk_closed [of "pid_of q" tab "children_of tab 0" pv "({}, m)" p] assms(1)
    by (auto simp: set_children)
qed

lemma walk_rest_done: "pid_of ` set procs \<subseteq> fst s \<Longrightarrow> walk_rest tab byPID procs s = s"
  by (induction procs) auto

theorem walk_all_effective:
  assumes l: "listing procs" and root: "\<And>p. p \<in> set procs \<Longrightarrow> rooted procs p"
    and zero: "\<And>p. p \<in> set procs \<Longrightarrow> pid_of p \<noteq> 0" and d: "decides m d"
    and st: "\<And>p. p \<in> set procs \<Longrightarrow> stale (generation m) (mget (mirror m) (pi_Key p))"
    and p: "p \<in> set procs"
  shows "value_marks (generation m) (mget (mirror (snd (walk_all procs m))) (pi_Key p)) x \<longleftrightarrow>
    effective d procs p x"
proof -
  let ?tab = "byParent_table procs"
  let ?s = "walk ?tab (children_of ?tab 0) None ({}, m)"
  have vis: "pid_of ` set procs \<subseteq> fst ?s" using rooted_visited [OF refl root] by auto
  then have eq: "walk_all procs m = ?s" by (simp add: walk_all_def Let_def walk_rest_done)
  have "walk_inv d procs (generation m) (mirror m) (fst ?s) (mirror (snd ?s))"
  proof (rule walk_inv_walk [OF refl l])
    show "value_marks (generation m) None x \<longleftrightarrow>
        (\<exists>q \<in> set procs. pid_of q = pi_PPID c \<and> effective d procs q x)"
      if "c \<in> set (children_of ?tab 0)" for c x
      using that zero by (auto simp: set_children value_marks_def)
  qed (use d st in \<open>auto simp: set_children walk_inv_def\<close>)
  then show ?thesis using p vis by (auto simp: walk_inv_def eq)
qed

end
