(* ===== verification/Events.thy ===== *)
theory Events
  imports TraversalSpec
begin

text \<open>
  The event handler (\<^verbatim>\<open>handleEvent\<close> of \<^verbatim>\<open>mark.go\<close>): fork, exit, exec and unknown events of
  the BPF ring, each reconciled with the mirror, the checker and the kernel map. Each branch
  of the Go \<^verbatim>\<open>switch\<close> is a function; the fork branch is in two steps, what the event and the
  mirror already say of the child and what the checker and the parent decide.
\<close>

section \<open>The handlers\<close>

definition eventFork :: u32 where "eventFork = 1"
definition eventExit :: u32 where "eventExit = 2"
definition eventExec :: u32 where "eventExec = 3"

definition event_kernel_mark :: "mark_event \<Rightarrow> kernel_mark" where
  "event_kernel_mark event =
     \<lparr>km_HasMark = ev_HasMark event,
      km_Inherited = (ev_HasMark event \<and> \<not> Inheritance (ev_Value event)),
      km_Mark = Mark (ev_Value event), km_Priority = Priority (ev_Value event)\<rparr>"

text \<open>The mark known before the checker runs.\<close>

definition fork_known :: "mark_event \<Rightarrow> 'c marker \<Rightarrow> process_value option \<times> 'c marker" where
  "fork_known event m =
     (if ev_HasMark event \<and> HasMark (ev_Value event) then
        (Some (ev_Value event), upsertProcess (ev_Key event) (ev_Value event) m)
      else case mget (mirror m) (ev_Key event) of
          Some existing \<Rightarrow>
            if \<not> Tombstone existing \<and> HasMark existing
            then (Some existing, syncKernel (ev_Key event) existing m)
            else (None, m)
        | None \<Rightarrow> (None, m))"

text \<open>The last two branches: a value the child had but is no longer entitled to.\<close>

definition fork_demote ::
    "mark_event \<Rightarrow> process_value option \<Rightarrow> 'c marker \<Rightarrow> process_value option \<times> 'c marker" where
  "fork_demote event known m =
     (case known of
        Some value \<Rightarrow>
          (let (value, m) = newNoMarkProcessValue value m
           in (Some value, upsertProcess (ev_Key event) value m))
      | None \<Rightarrow>
          (case mget (mirror m) (ev_Key event) of
             Some existing \<Rightarrow>
               if \<not> Tombstone existing then
                 (let (value, m) = newNoMarkProcessValue existing m
                  in (Some value, upsertProcess (ev_Key event) value m))
               else (None, m)
           | None \<Rightarrow> (None, m)))"

definition fork_decide ::
    "mark_event \<Rightarrow> process_info \<Rightarrow> process_value option \<Rightarrow> 'c marker \<Rightarrow>
     process_value option \<times> 'c marker" where
  "fork_decide event info known m =
     (let ((priority, mark, ok), m) = run_check info m
      in if ok then
           (let (value, m) = newProcessValue priority mark True m
            in (Some value, upsertProcess (ev_Key event) value m))
         else case mget (mirror m) (ev_ParentKey event) of
             Some parentValue \<Rightarrow>
               if canInherit parentValue then
                 (let (inherited, m) = inheritedValue parentValue m
                  in (Some inherited, upsertProcess (ev_Key event) inherited m))
               else fork_demote event known m
           | None \<Rightarrow> fork_demote event known m)"

definition handleFork :: "mark_event \<Rightarrow> process_info \<Rightarrow> 'c marker \<Rightarrow> 'c marker" where
  "handleFork event info m =
     (let (known, m) = fork_known event m;
          (res, m) = fork_decide event info known m
      in case res of
           None \<Rightarrow> m
         | Some value \<Rightarrow>
             if \<not> HasMark value then m
             else onProcessEvent
               \<lparr>pe_Type = ''fork'', pe_Key = ev_Key event,
                pe_ParentKey = ptrProcessKey (ev_ParentKey event),
                pe_Kernel = event_kernel_mark event, pe_Process = info,
                pe_Value = ptrProcessValue value\<rparr> m)"

definition handleExit :: "mark_event \<Rightarrow> process_info \<Rightarrow> 'c marker \<Rightarrow> 'c marker" where
  "handleExit event info m =
     (let old = mget (mirror m) (ev_Key event)
      in if old = None \<and> \<not> Tombstone (ev_Value event) then m
         else
           (let logExit = (ev_HasMark event \<or>
                  (case old of None \<Rightarrow> False | Some v \<Rightarrow> \<not> Tombstone v \<and> HasMark v));
                value = (case old of None \<Rightarrow> ev_Value event | Some v \<Rightarrow> v);
                value = value\<lparr>Tombstone := True\<rparr>;
                (now, m) = in_world nowBootNS m;
                value = value\<lparr>Timestamp := maxU64 (Timestamp value) now\<rparr>;
                m = upsertProcessWithLog (ev_Key event) value logExit m
            in if \<not> logExit then m
               else onProcessEvent
                 \<lparr>pe_Type = ''exit'', pe_Key = ev_Key event, pe_ParentKey = None,
                  pe_Kernel = event_kernel_mark event, pe_Process = info,
                  pe_Value = ptrProcessValue value\<rparr> m))"

text \<open>
  Before the checker runs, the exec branch merges the value of the event with the mirror and
  brings the kernel map to the result. The outcome is the merged value, if there is one.
\<close>

definition exec_known :: "mark_event \<Rightarrow> 'c marker \<Rightarrow> process_value option \<times> 'c marker" where
  "exec_known event m =
     (let m = (if ev_Value event \<noteq> zero_value
               then upsertProcessWithLog (ev_Key event) (ev_Value event) False m else m)
      in case mget (mirror m) (ev_Key event) of
           None \<Rightarrow> (None, m)
         | Some existing \<Rightarrow>
             (Some existing,
              if existing \<noteq> ev_Value event then syncKernel (ev_Key event) existing m else m))"

definition exec_decide ::
    "mark_event \<Rightarrow> process_info \<Rightarrow> process_value option \<Rightarrow> 'c marker \<Rightarrow>
     process_value option \<times> 'c marker" where
  "exec_decide event info known m =
     (let ((priority, mark, ok), m) = run_check info m
      in if ok then
           (let (value, m) = newProcessValue priority mark True m
            in (Some value, upsertProcess (ev_Key event) value m))
         else case known of
             Some value \<Rightarrow>
               (let (value, m) = newNoMarkProcessValue value m
                in (Some value, upsertProcess (ev_Key event) value m))
           | None \<Rightarrow> (None, m))"

definition handleExec :: "mark_event \<Rightarrow> process_info \<Rightarrow> 'c marker \<Rightarrow> 'c marker" where
  "handleExec event info m =
     (let (known, m) = exec_known event m
      in if (case known of None \<Rightarrow> Tombstone (ev_Value event) | Some value \<Rightarrow> Tombstone value)
         then logf (LogExecTombstone (ev_Key event)) m
         else
           (let (res, m) = exec_decide event info known m
            in case res of
                 None \<Rightarrow> m
               | Some value \<Rightarrow>
                   if \<not> HasMark value then m
                   else onProcessEvent
                     \<lparr>pe_Type = ''exec'', pe_Key = ev_Key event, pe_ParentKey = None,
                      pe_Kernel = event_kernel_mark event, pe_Process = info,
                      pe_Value = ptrProcessValue value\<rparr> m))"

definition handleUnknown :: "mark_event \<Rightarrow> process_info \<Rightarrow> 'c marker \<Rightarrow> 'c marker" where
  "handleUnknown event info m =
     onProcessEvent
       \<lparr>pe_Type = ''unknown'', pe_Key = ev_Key event, pe_ParentKey = None,
        pe_Kernel = event_kernel_mark event, pe_Process = info, pe_Value = None\<rparr> m"

definition handleEvent :: "mark_event \<Rightarrow> 'c marker \<Rightarrow> 'c marker" where
  "handleEvent event m =
     (let (info, m) = in_world (procInfoFromEvent event) m
      in if ev_Type event = eventFork then handleFork event info m
         else if ev_Type event = eventExit then handleExit event info m
         else if ev_Type event = eventExec then handleExec event info m
         else handleUnknown event info m)"

section \<open>Frame\<close>

lemma fork_known_frame [simp]: "settings (snd (fork_known event m)) = settings m"
  by (simp add: fork_known_def split: option.splits)

lemma fork_demote_frame [simp]: "settings (snd (fork_demote event known m)) = settings m"
  by (simp add: fork_demote_def split_beta Let_def split: option.splits)

lemma fork_decide_frame [simp]: "settings (snd (fork_decide event info known m)) = settings m"
  by (simp add: fork_decide_def split_beta Let_def split: option.splits)

lemma exec_known_frame [simp]: "settings (snd (exec_known event m)) = settings m"
  by (simp add: exec_known_def Let_def split: option.splits)

lemma exec_decide_frame [simp]: "settings (snd (exec_decide event info known m)) = settings m"
  by (simp add: exec_decide_def split_beta Let_def split: option.splits)

lemma handle_frames [simp]:
  "settings (handleFork event info m) = settings m"
  "settings (handleExit event info m) = settings m"
  "settings (handleExec event info m) = settings m"
  "settings (handleUnknown event info m) = settings m"
  by (simp_all add: handleFork_def handleExit_def handleExec_def handleUnknown_def split_beta Let_def
      split: option.splits)

lemma handleEvent_frame [simp]: "settings (handleEvent event m) = settings m"
  by (simp add: handleEvent_def split_beta Let_def)

lemmas fork_known_fields [simp] = fork_known_frame [THEN settingsD]
lemmas fork_demote_fields [simp] = fork_demote_frame [THEN settingsD]
lemmas exec_known_fields [simp] = exec_known_frame [THEN settingsD]
lemmas handleEvent_fields [simp] = handleEvent_frame [THEN settingsD]

lemma maps_ok_resync [simp]:
  assumes "maps_ok m" "mget (mirror m) key = Some value"
  shows "maps_ok (syncKernel key value m)"
  using assms by (intro maps_ok_sync) (auto simp: maps_ok_def synced_def)

lemma maps_ok_fork_known [simp]: "maps_ok m \<Longrightarrow> maps_ok (snd (fork_known event m))"
  by (auto simp: fork_known_def split: option.splits)

lemma maps_ok_fork_demote [simp]: "maps_ok m \<Longrightarrow> maps_ok (snd (fork_demote event known m))"
  by (auto simp: fork_demote_def split_beta Let_def split: option.splits)

lemma maps_ok_fork_decide [simp]:
  "maps_ok m \<Longrightarrow> maps_ok (snd (fork_decide event info known m))"
  by (auto simp: fork_decide_def split_beta Let_def split: option.splits)

lemma maps_ok_exec_known [simp]: "maps_ok m \<Longrightarrow> maps_ok (snd (exec_known event m))"
  by (auto simp: exec_known_def Let_def split: option.splits)

lemma maps_ok_exec_decide [simp]:
  "maps_ok m \<Longrightarrow> maps_ok (snd (exec_decide event info known m))"
  by (auto simp: exec_decide_def split_beta Let_def split: option.splits)

lemma maps_ok_clock [simp]: "maps_ok m \<Longrightarrow> maps_ok (snd (in_world nowBootNS m))"
  by (erule maps_okI) simp_all

lemma maps_ok_handlers [simp]:
  "maps_ok m \<Longrightarrow> maps_ok (handleFork event info m)"
  "maps_ok m \<Longrightarrow> maps_ok (handleExit event info m)"
  "maps_ok m \<Longrightarrow> maps_ok (handleExec event info m)"
  "maps_ok m \<Longrightarrow> maps_ok (handleUnknown event info m)"
  by (auto simp: handleFork_def handleExit_def handleExec_def handleUnknown_def split_beta Let_def
      split: option.splits)

lemma maps_ok_handleEvent: "maps_ok m \<Longrightarrow> maps_ok (handleEvent event m)"
  by (simp add: handleEvent_def split_beta Let_def maps_ok_in_world)

section \<open>What an event merges\<close>

text \<open>
  Only the entry of the event's own process changes, and only by merging: the value the
  event carries, a live value of the current generation, or (on exit) a tombstone of the
  generation the process had.
\<close>

definition event_entry :: "mark_event \<Rightarrow> 'c marker \<Rightarrow> process_key \<Rightarrow> process_value \<Rightarrow> bool" where
  "event_entry event m key value \<longleftrightarrow>
     key = ev_Key event \<and>
     (value = ev_Value event \<or> fresh (generation m) key value \<or>
      ev_Type event = eventExit \<and> Tombstone value \<and>
        (Generation value = Generation (ev_Value event) \<or>
         (\<exists>old. mget (mirror m) key = Some old \<and> Generation value = Generation old)))"

lemma fork_known_upserts:
  "upserts (event_entry event m) (mirror m) (mirror (snd (fork_known event m)))"
  by (auto simp: fork_known_def event_entry_def split: option.splits)

lemma fresh_upserts_event:
  "upserts (\<lambda>k v. k = ev_Key event \<and> fresh (generation m) k v) mm mm' \<Longrightarrow>
   upserts (event_entry event m) mm mm'"
  by (erule upserts_mono) (simp add: event_entry_def)

lemma fork_demote_upserts:
  "upserts (\<lambda>k v. k = ev_Key event \<and> fresh (generation m) k v) (mirror m)
     (mirror (snd (fork_demote event known m)))"
  by (auto simp: fork_demote_def fresh_def split_beta Let_def split: option.splits)

lemma fork_decide_upserts:
  "upserts (\<lambda>k v. k = ev_Key event \<and> fresh (generation m) k v) (mirror m)
     (mirror (snd (fork_decide event info known m)))"
  using fork_demote_upserts [of event "snd (run_check info m)" known]
  by (auto simp: fork_decide_def fresh_def split_beta Let_def split: option.splits)

lemma handleFork_upserts:
  "upserts (event_entry event m) (mirror m) (mirror (handleFork event info m))"
proof -
  let ?m = "snd (fork_known event m)"
  have "mirror (handleFork event info m) =
      mirror (snd (fork_decide event info (fst (fork_known event m)) ?m))"
    by (simp add: handleFork_def split_beta Let_def split: option.splits)
  moreover have "upserts (event_entry event m) (mirror ?m)
      (mirror (snd (fork_decide event info (fst (fork_known event m)) ?m)))"
    using fork_decide_upserts [of event ?m info "fst (fork_known event m)"]
    by (intro fresh_upserts_event) simp
  ultimately show ?thesis using fork_known_upserts by (metis upserts_trans)
qed

lemma handleExit_upserts:
  "ev_Type event = eventExit \<Longrightarrow>
   upserts (event_entry event m) (mirror m) (mirror (handleExit event info m))"
  by (auto simp: handleExit_def event_entry_def split_beta Let_def split: option.splits)

lemma exec_known_upserts:
  "upserts (event_entry event m) (mirror m) (mirror (snd (exec_known event m)))"
  by (auto simp: exec_known_def event_entry_def Let_def split: option.splits)

lemma exec_decide_upserts:
  "upserts (\<lambda>k v. k = ev_Key event \<and> fresh (generation m) k v) (mirror m)
     (mirror (snd (exec_decide event info known m)))"
  by (auto simp: exec_decide_def fresh_def split_beta Let_def split: option.splits)

lemma handleExec_mirror:
  "mirror (handleExec event info m) =
     (let (known, m') = exec_known event m
      in if (case known of None \<Rightarrow> Tombstone (ev_Value event) | Some value \<Rightarrow> Tombstone value)
         then mirror m' else mirror (snd (exec_decide event info known m')))"
  by (simp add: handleExec_def split_beta Let_def split: option.splits)

lemma handleExec_upserts:
  "upserts (event_entry event m) (mirror m) (mirror (handleExec event info m))"
proof -
  let ?m = "snd (exec_known event m)"
  have "upserts (event_entry event m) (mirror ?m)
      (mirror (snd (exec_decide event info (fst (exec_known event m)) ?m)))"
    using exec_decide_upserts [of event ?m info "fst (exec_known event m)"]
      settingsD [OF exec_known_frame [of event m]]
    by (intro fresh_upserts_event) simp
  with exec_known_upserts [of event m] show ?thesis
    by (auto simp: handleExec_mirror split_beta Let_def intro: upserts_trans)
qed

lemma handleUnknown_mirror [simp]: "mirror (handleUnknown event info m) = mirror m"
  by (simp add: handleUnknown_def)

lemma event_entry_in_world [simp]: "event_entry event (snd (in_world f m)) = event_entry event m"
  by (simp add: event_entry_def [abs_def])

lemma handleEvent_upserts:
  "upserts (event_entry event m) (mirror m) (mirror (handleEvent event m))"
proof -
  let ?i = "fst (in_world (procInfoFromEvent event) m)"
  let ?m = "snd (in_world (procInfoFromEvent event) m)"
  show ?thesis
    using handleFork_upserts [of event ?m ?i] handleExit_upserts [of event ?m ?i]
      handleExec_upserts [of event ?m ?i]
    by (simp add: handleEvent_def split_beta Let_def)
qed

lemma upserts_only:
  "upserts P mm mm' \<Longrightarrow> (\<And>k v. P k v \<Longrightarrow> k = key) \<Longrightarrow> k \<noteq> key \<Longrightarrow> mget mm' k = mget mm k"
proof (induction rule: upserts.induct)
  case (upserts_step mm mm' j v)
  then have "k \<noteq> j" by auto
  with upserts_step show ?case by (simp add: mir.upsert_other)
qed simp

lemma handleEvent_other:
  "k \<noteq> ev_Key event \<Longrightarrow> mget (mirror (handleEvent event m)) k = mget (mirror m) k"
  by (rule upserts_only [OF handleEvent_upserts]) (simp_all add: event_entry_def)

section \<open>Exit\<close>

text \<open>The exit of a tracked process leaves a tombstone that keeps everything but the time.\<close>

lemma handleExit_tracked:
  assumes "mget (mirror m) (ev_Key event) = Some old"
  shows "mget (mirror (handleExit event info m)) (ev_Key event) =
     Some (old\<lparr>Tombstone := True, Timestamp := maxU64 (Timestamp old) (fst (nowBootNS (wld m)))\<rparr>)"
proof -
  let ?v = "old\<lparr>Tombstone := True, Timestamp := maxU64 (Timestamp old) (fst (nowBootNS (wld m)))\<rparr>"
  have "preferProcessValue old ?v = ?v"
    by (rule prefer_next) (auto simp: value_rank_def less_eq_prod_def)
  then show ?thesis
    using assms by (simp add: handleExit_def split_beta Let_def mir.find_upsert)
qed

lemma handleExit_unknown:
  assumes "mget (mirror m) (ev_Key event) = None" "Tombstone (ev_Value event)"
  shows "mget (mirror (handleExit event info m)) (ev_Key event) =
     Some ((ev_Value event)\<lparr>Timestamp := maxU64 (Timestamp (ev_Value event)) (fst (nowBootNS (wld m)))\<rparr>)"
  using assms by (simp add: handleExit_def split_beta Let_def mir.find_upsert)

lemma handleExit_untracked:
  "mget (mirror m) (ev_Key event) = None \<Longrightarrow> \<not> Tombstone (ev_Value event) \<Longrightarrow>
   handleExit event info m = m"
  by (simp add: handleExit_def)

section \<open>Exec\<close>

lemma exec_known_value:
  "fst (exec_known event m) = mget (mirror (snd (exec_known event m))) (ev_Key event)"
  by (auto simp: exec_known_def Let_def split: option.splits)

lemma exec_known_entry:
  "mget (mirror (snd (exec_known event m))) (ev_Key event) =
     (if ev_Value event = zero_value then mget (mirror m) (ev_Key event)
      else Some (case mget (mirror m) (ev_Key event) of
                   None \<Rightarrow> ev_Value event
                 | Some old \<Rightarrow> preferProcessValue old (ev_Value event)))"
  by (auto simp: exec_known_def Let_def mir.find_upsert split: option.splits)

lemma stale_prefer:
  "stale g (Some v) \<Longrightarrow> stale g (Some w) \<Longrightarrow> stale g (Some (preferProcessValue v w))"
  using prefer_in [of v w] by auto

section \<open>What the checker decides\<close>

text \<open>
  The mark a fork entitles the child to: the checker's, else the one of the parent's entry.
\<close>

definition fork_entitled ::
    "decision_fun \<Rightarrow> process_info \<Rightarrow> process_value option \<Rightarrow> (i8 \<times> u64) option" where
  "fork_entitled d info parentValue =
     (let (prio, mk, ok) = d info
      in if ok then Some (prio, mk)
         else case parentValue of
             Some pv \<Rightarrow> if canInherit pv then Some (Priority pv, Mark pv) else None
           | None \<Rightarrow> None)"

text \<open>A value of the generation \<open>g\<close> and the mark \<open>x\<close> it carries.\<close>

definition decided :: "u64 \<Rightarrow> (i8 \<times> u64) option \<Rightarrow> process_value \<Rightarrow> bool" where
  "decided g x value \<longleftrightarrow>
     \<not> Tombstone value \<and> Generation value = g \<and>
     (case x of None \<Rightarrow> \<not> HasMark value
              | Some (prio, mk) \<Rightarrow> HasMark value \<and> Priority value = prio \<and> Mark value = mk)"

lemma decided_fresh: "decided g x v \<Longrightarrow> fresh g k v"
  by (simp add: decided_def fresh_def)

lemma decided_marks:
  "decided g x v \<Longrightarrow> value_marks g (Some v) y \<longleftrightarrow> x = Some y"
  by (cases y) (auto simp: decided_def value_marks_def canInherit_def split: option.splits)

lemma fork_demote_result:
  "case fork_demote event known m of
     (None, m') \<Rightarrow> m' = m \<and> known = None
   | (Some v, m') \<Rightarrow> decided (generation m) None v \<and>
       mirror m' = mirror_upsert (ev_Key event) v (mirror m)"
  by (auto simp: fork_demote_def decided_def split_beta Let_def split: option.splits)

lemma fork_decide_result:
  assumes d: "decides m d"
  shows "case fork_decide event info known m of
     (None, m') \<Rightarrow> mirror m' = mirror m \<and> known = None \<and>
       fork_entitled d info (mget (mirror m) (ev_ParentKey event)) = None
   | (Some v, m') \<Rightarrow>
       decided (generation m) (fork_entitled d info (mget (mirror m) (ev_ParentKey event))) v \<and>
       mirror m' = mirror_upsert (ev_Key event) v (mirror m)"
proof -
  let ?m = "snd (run_check info m)"
  obtain prio mk ok where dp: "d info = (prio, mk, ok)" by (cases "d info")
  have run: "fst (run_check info m) = (prio, mk, ok)" using d dp by (simp add: decides_run)
  show ?thesis
  proof (cases "fork_entitled d info (mget (mirror m) (ev_ParentKey event))")
    case None
    then have "fork_decide event info known m = fork_demote event known ?m"
      by (auto simp: fork_decide_def fork_entitled_def run dp split_beta Let_def
          split: option.splits if_splits)
    then show ?thesis using fork_demote_result [where event = event and known = known and m = ?m] None
      by (auto split: prod.splits option.splits)
  next
    case (Some x)
    then show ?thesis
      by (auto simp: fork_decide_def fork_entitled_def run dp split_beta Let_def decided_def
          canInherit_def split: option.splits if_splits)
  qed
qed

text \<open>What a fork does to the child's entry when nothing newer is known of the child.\<close>

lemma handleFork_mirror:
  "mirror (handleFork event info m) =
     mirror (snd (fork_decide event info (fst (fork_known event m)) (snd (fork_known event m))))"
  by (simp add: handleFork_def split_beta Let_def split: option.splits)

lemma fork_known_stale:
  assumes "stale g (mget (mirror m) (ev_Key event))"
    and "ev_HasMark event \<and> HasMark (ev_Value event) \<Longrightarrow> stale g (Some (ev_Value event))"
  shows "stale g (mget (mirror (snd (fork_known event m))) (ev_Key event))"
  using assms stale_prefer [of g]
  by (auto simp: fork_known_def mir.find_upsert split: option.splits)

lemma fork_known_other:
  "k \<noteq> ev_Key event \<Longrightarrow> mget (mirror (snd (fork_known event m))) k = mget (mirror m) k"
  by (rule upserts_only [OF fork_known_upserts]) (simp_all add: event_entry_def)

lemma fork_known_None:
  "fst (fork_known event m) = None \<Longrightarrow> snd (fork_known event m) = m"
  by (auto simp: fork_known_def split: option.splits if_splits)

lemma handleFork_entry:
  assumes d: "decides m d" and ne: "ev_ParentKey event \<noteq> ev_Key event"
    and st: "stale (generation m) (mget (mirror m) (ev_Key event))"
    and ev: "ev_HasMark event \<and> HasMark (ev_Value event) \<Longrightarrow>
      stale (generation m) (Some (ev_Value event))"
  shows "value_marks (generation m) (mget (mirror (handleFork event info m)) (ev_Key event)) x \<longleftrightarrow>
    fork_entitled d info (mget (mirror m) (ev_ParentKey event)) = Some x"
proof -
  let ?m = "snd (fork_known event m)" and ?known = "fst (fork_known event m)"
  have d': "decides ?m d" using decides_settings [OF fork_known_frame] d by blast
  have st': "stale (generation m) (mget (mirror ?m) (ev_Key event))"
    using st ev by (rule fork_known_stale)
  note res = fork_decide_result [OF d', where event = event and info = info and known = ?known]
  obtain r m' where r: "fork_decide event info ?known ?m = (r, m')" by fastforce
  show ?thesis
  proof (cases r)
    case None
    then show ?thesis
      using res r st' fork_known_None [of event m] ne
      by (auto simp: handleFork_mirror value_marks_def stale_def split: option.splits)
  next
    case (Some v)
    with res r have v: "decided (generation m)
        (fork_entitled d info (mget (mirror m) (ev_ParentKey event))) v"
        "mirror m' = mirror_upsert (ev_Key event) v (mirror ?m)"
      by (simp_all add: fork_known_other [OF ne])
    have "mget (mirror m') (ev_Key event) = Some v"
      using upsert_over_stale [OF st'] v by (simp add: decided_def)
    then show ?thesis using v(1) r by (simp add: handleFork_mirror decided_marks)
  qed
qed

section \<open>Which events are reported\<close>

text \<open>A daemon whose event hook records and whose checker decides by \<open>d\<close>.\<close>

definition observed :: "decision_fun \<Rightarrow> process_event list marker \<Rightarrow> bool" where
  "observed d m \<longleftrightarrow>
     cb_ProcessEvent (callbacks m) = Some (\<lambda>e c. c @ [e]) \<and>
     cb_ProcessUpdate (callbacks m) = None \<and> cb_Logf (callbacks m) = None \<and>
     check m = (\<lambda>info c. (d info, c))"

lemma observed_settings: "settings m' = settings m \<Longrightarrow> observed d m' = observed d m"
  by (drule settingsD) (simp add: observed_def)

lemma observed_decides: "observed d m \<Longrightarrow> decides m d"
  by (simp add: observed_def decides_def)

lemma observed_run: "observed d m \<Longrightarrow> run_check info m = (d info, m)"
  by (simp add: observed_def run_check_def)

lemma observed_logf: "observed d m \<Longrightarrow> logf e m = m"
  by (simp add: observed_def logf_def)

lemma observed_value [simp]:
  "observed d (snd (newProcessValue p mk ex m)) = observed d m"
  "observed d (snd (newNoMarkProcessValue v m)) = observed d m"
  "observed d (snd (inheritedValue v m)) = observed d m"
  "observed d (snd (in_world f m)) = observed d m"
  "observed d (m\<lparr>mirror := mm\<rparr>) = observed d m"
  "observed d (upsertProcessWithLog k v b m) = observed d m"
  "observed d (upsertProcess k v m) = observed d m"
  "observed d (syncKernel k v m) = observed d m"
  "observed d (snd (fork_known event m)) = observed d m"
  "observed d (snd (fork_decide event info known m)) = observed d m"
  "observed d (snd (exec_known event m)) = observed d m"
  "observed d (snd (exec_decide event info known m)) = observed d m"
  by (rule observed_settings, simp)+

lemma observed_upsert [simp]:
  assumes "observed d m"
  shows "env (upsertProcessWithLog k v b m) = env m"
    and "env (upsertProcess k v m) = env m" and "env (syncKernel k v m) = env m"
proof -
  have sync: "env (syncKernel k v m) = env m" if "observed d m" for m k v
    using that by (auto simp: syncKernel_def split_beta Let_def observed_logf [of d]
        split: option.splits)
  have "env (syncKernel k v (m\<lparr>mirror := mm\<rparr>)) = env m" for k v mm
    using assms by (simp add: sync)
  with assms show "env (upsertProcessWithLog k v b m) = env m" for v b
    by (auto simp: upsertProcessWithLog_def onProcessUpdate_def Let_def observed_def
        split: option.splits)
  then show "env (upsertProcess k v m) = env m" by (simp add: upsertProcess_def)
  show "env (syncKernel k v m) = env m" using assms by (rule sync)
qed

lemma new_values_env [simp]:
  "env (snd (newProcessValue p mk ex m)) = env m"
  "env (snd (newNoMarkProcessValue v m)) = env m"
  "env (snd (inheritedValue v m)) = env m"
  by (simp_all add: newProcessValue_def newNoMarkProcessValue_def inheritedValue_def
      split_beta Let_def)

lemma observed_event [simp]:
  "observed d m \<Longrightarrow> env (onProcessEvent e m) = env m @ [e]"
  by (simp add: observed_def onProcessEvent_def)

text \<open>The part of a report the policy decides: its type, its process and the mark it names.\<close>

definition report_mark :: "process_event \<Rightarrow> string \<times> process_key \<times> (i8 \<times> u64) option" where
  "report_mark e = (pe_Type e, pe_Key e, map_option (\<lambda>v. (Priority v, Mark v)) (pe_Value e))"

definition report_of ::
    "string \<Rightarrow> process_key \<Rightarrow> (i8 \<times> u64) option \<Rightarrow> (string \<times> process_key \<times> (i8 \<times> u64) option) list" where
  "report_of type key x = (case x of None \<Rightarrow> [] | Some _ \<Rightarrow> [(type, key, x)])"

lemma decided_HasMark: "decided g x v \<Longrightarrow> HasMark v \<longleftrightarrow> x \<noteq> None"
  by (auto simp: decided_def split: option.splits)

lemma HasMark_value: "HasMark v \<Longrightarrow> ptrProcessValue v = Some v"
  by (auto simp: ptrProcessValue_def zero_value_def)

lemma Tombstone_value: "Tombstone v \<Longrightarrow> ptrProcessValue v = Some v"
  by (auto simp: ptrProcessValue_def zero_value_def)

lemma report_decided:
  assumes "decided g x v" and "observed d m" and "pe_Value e = ptrProcessValue v"
  shows "map report_mark (env (if \<not> HasMark v then m else onProcessEvent e m)) =
    map report_mark (env m) @ report_of (pe_Type e) (pe_Key e) x"
  using assms by (cases x) (auto simp: decided_def report_of_def report_mark_def HasMark_value)

lemma observed_decide:
  assumes "observed d m"
  shows "env (snd (fork_known event m)) = env m"
    and "env (snd (fork_demote event known m)) = env m"
    and "env (snd (fork_decide event info known m)) = env m"
    and "env (snd (exec_known event m)) = env m"
    and "env (snd (exec_decide event info known m)) = env m"
proof -
  show "env (snd (fork_known event m)) = env m"
    using assms by (simp add: fork_known_def split: option.splits)
  show demote: "env (snd (fork_demote event known m)) = env m"
    using assms by (auto simp: fork_demote_def split_beta Let_def split: option.splits)
  show "env (snd (fork_decide event info known m)) = env m"
    using assms demote
    by (auto simp: fork_decide_def observed_run split_beta Let_def split: option.splits)
  show "env (snd (exec_known event m)) = env m"
    using assms by (auto simp: exec_known_def Let_def split: option.splits)
  show "env (snd (exec_decide event info known m)) = env m"
    using assms by (auto simp: exec_decide_def observed_run split_beta Let_def
        split: option.splits)
qed

lemma handleFork_reports:
  assumes ob: "observed d m" and ne: "ev_ParentKey event \<noteq> ev_Key event"
  shows "map report_mark (env (handleFork event info m)) = map report_mark (env m) @
    report_of ''fork'' (ev_Key event)
      (fork_entitled d info (mget (mirror m) (ev_ParentKey event)))"
proof -
  let ?m = "snd (fork_known event m)" and ?known = "fst (fork_known event m)"
  have ob': "observed d ?m" using ob by simp
  note res = fork_decide_result [OF observed_decides [OF ob'], where event = event and info = info
      and known = ?known]
  obtain r m' where r: "fork_decide event info ?known ?m = (r, m')" by fastforce
  have m': "observed d m'" "env m' = env m"
    using ob' observed_decide(1) [OF ob] observed_decide(3) [OF ob', where event = event and
      info = info and known = ?known] observed_value(10) [of d event info ?known ?m] r by simp_all
  show ?thesis
  proof (cases r)
    case None
    then show ?thesis using res r m' fork_known_None [of event m]
      by (simp add: handleFork_def split_beta Let_def report_of_def)
  next
    case (Some v)
    with res r have v: "decided (generation m)
        (fork_entitled d info (mget (mirror m) (ev_ParentKey event))) v"
      by (simp add: fork_known_other [OF ne])
    show ?thesis
      using report_decided [OF v m'(1), of "\<lparr>pe_Type = ''fork'', pe_Key = ev_Key event,
          pe_ParentKey = ptrProcessKey (ev_ParentKey event), pe_Kernel = event_kernel_mark event,
          pe_Process = info, pe_Value = ptrProcessValue v\<rparr>"] r Some m'(2)
      by (simp add: handleFork_def split_beta Let_def cong: if_cong)
  qed
qed

lemma handleExit_reports:
  assumes "observed d m"
  shows "env (handleExit event info m) = env m @
    (let live = (case mget (mirror m) (ev_Key event) of
                   None \<Rightarrow> Tombstone (ev_Value event) \<and> ev_HasMark event
                 | Some v \<Rightarrow> ev_HasMark event \<or> canInherit v)
     in if live then
       [\<lparr>pe_Type = ''exit'', pe_Key = ev_Key event, pe_ParentKey = None,
         pe_Kernel = event_kernel_mark event, pe_Process = info,
         pe_Value = Some ((case mget (mirror m) (ev_Key event) of
             None \<Rightarrow> ev_Value event | Some v \<Rightarrow> v)\<lparr>Tombstone := True,
           Timestamp := maxU64 (Timestamp (case mget (mirror m) (ev_Key event) of
             None \<Rightarrow> ev_Value event | Some v \<Rightarrow> v)) (fst (nowBootNS (wld m)))\<rparr>)\<rparr>]
     else [])"
  using assms
  by (auto simp: handleExit_def canInherit_def Tombstone_value split_beta Let_def
      split: option.splits)

section \<open>What an exec does\<close>

lemma exec_decide_result:
  assumes d: "decides m d" and dp: "d info = (prio, mk, ok)"
  shows "case exec_decide event info known m of
     (None, m') \<Rightarrow> mirror m' = mirror m \<and> known = None \<and> \<not> ok
   | (Some v, m') \<Rightarrow> decided (generation m) (if ok then Some (prio, mk) else None) v \<and>
       mirror m' = mirror_upsert (ev_Key event) v (mirror m) \<and> (ok \<or> known \<noteq> None)"
proof -
  have run: "fst (run_check info m) = (prio, mk, ok)" using d dp by (simp add: decides_run)
  show ?thesis
    by (auto simp: exec_decide_def run decided_def split_beta Let_def split: option.splits)
qed

lemma exec_known_stale:
  assumes "stale g (mget (mirror m) (ev_Key event))"
    and "ev_Value event = zero_value \<or> stale g (Some (ev_Value event))"
  shows "stale g (mget (mirror (snd (exec_known event m))) (ev_Key event))"
  using assms stale_prefer [of g] by (auto simp: exec_known_entry split: option.splits)

text \<open>
  An exec of a process of which nothing newer is known decides its mark by the checker alone:
  an inherited mark does not survive it.
\<close>

lemma handleExec_entry:
  assumes d: "decides m d" and dp: "d info = (prio, mk, ok)"
    and st: "stale (generation m) (mget (mirror m) (ev_Key event))"
    and ev: "ev_Value event = zero_value \<or> stale (generation m) (Some (ev_Value event))"
  shows "value_marks (generation m) (mget (mirror (handleExec event info m)) (ev_Key event)) x \<longleftrightarrow>
    ok \<and> x = (prio, mk)"
proof -
  let ?m = "snd (exec_known event m)" and ?known = "fst (exec_known event m)"
  have d': "decides ?m d" using decides_settings [OF exec_known_frame] d by blast
  have st': "stale (generation m) (mget (mirror ?m) (ev_Key event))"
    using exec_known_stale [OF st ev] .
  then have live: "\<not> (case ?known of None \<Rightarrow> Tombstone (ev_Value event) | Some v \<Rightarrow> Tombstone v)"
    using ev by (auto simp: exec_known_value stale_def zero_value_def exec_known_entry
        split: option.splits if_splits)
  note res = exec_decide_result [OF d' dp, where event = event and known = ?known]
  obtain r m' where r: "exec_decide event info ?known ?m = (r, m')" by fastforce
  have mirror: "mirror (handleExec event info m) = mirror m'"
    using live r by (simp add: handleExec_mirror split_beta)
  show ?thesis
  proof (cases r)
    case None
    then show ?thesis using res r st' mirror by (auto simp: value_marks_def stale_def split: option.splits)
  next
    case (Some v)
    with res r have v: "decided (generation m) (if ok then Some (prio, mk) else None) v"
        "mirror m' = mirror_upsert (ev_Key event) v (mirror ?m)" by simp_all
    have "mget (mirror m') (ev_Key event) = Some v"
      using upsert_over_stale [OF st'] v by (simp add: decided_def)
    then show ?thesis using v(1) mirror by (auto simp: decided_marks)
  qed
qed

text \<open>After the exit of a process its late exec changes nothing and asks no checker.\<close>

lemma handleExec_tombstone:
  assumes "mget (mirror m) (ev_Key event) = Some old" "Tombstone old"
    "\<not> Tombstone (ev_Value event)" "observed d m"
  shows "mirror (handleExec event info m) = mirror m" "env (handleExec event info m) = env m"
proof -
  have "preferProcessValue old (ev_Value event) = old"
    using assms by (auto simp: preferProcessValue_def)
  then have known: "fst (exec_known event m) = Some old"
    and mm: "mirror (snd (exec_known event m)) = mirror m"
    using assms by (auto simp: exec_known_value exec_known_entry)
      (auto simp: exec_known_def mirror_upsert_def update_triv Let_def split: option.splits)
  then show "mirror (handleExec event info m) = mirror m"
    using assms by (simp add: handleExec_mirror split_beta)
  show "env (handleExec event info m) = env m"
    using known assms observed_decide(4) [of d m event]
    by (simp add: handleExec_def split_beta observed_logf [of d])
qed

section \<open>From events to handlers\<close>

text \<open>The description of the process an event is about, and the state after reading it.\<close>

abbreviation event_info :: "mark_event \<Rightarrow> 'c marker \<Rightarrow> process_info" where
  "event_info event m \<equiv> fst (procInfoFromEvent event (wld m))"

abbreviation after_info :: "mark_event \<Rightarrow> 'c marker \<Rightarrow> 'c marker" where
  "after_info event m \<equiv> snd (in_world (procInfoFromEvent event) m)"

lemma event_codes [simp]:
  "eventExit \<noteq> eventFork" "eventExec \<noteq> eventFork" "eventExec \<noteq> eventExit"
  by (simp_all add: eventFork_def eventExit_def eventExec_def)

lemma handleEvent_fork:
  "ev_Type event = eventFork \<Longrightarrow> handleEvent event m = handleFork event (event_info event m) (after_info event m)"
  and handleEvent_exit:
  "ev_Type event = eventExit \<Longrightarrow> handleEvent event m = handleExit event (event_info event m) (after_info event m)"
  and handleEvent_exec:
  "ev_Type event = eventExec \<Longrightarrow> handleEvent event m = handleExec event (event_info event m) (after_info event m)"
  by (simp_all add: handleEvent_def in_world_def split_beta Let_def)

lemma after_info_clock [simp]:
  "fst (nowBootNS (snd (procInfoFromEvent event w))) = fst (nowBootNS w)"
  by (simp add: nowBootNS_def split: option.split)

lemma decides_in_world [simp]: "decides (snd (in_world f m)) d = decides m d"
  by (rule decides_settings) simp

end
