(* ===== verification/Cleanup.thy ===== *)
theory Cleanup
  imports Events
begin

text \<open>
  The collector and the event loop (\<^verbatim>\<open>collectTombstones\<close>, \<^verbatim>\<open>regularCleanupLocked\<close>,
  \<^verbatim>\<open>tombstoneDeadProcessesLocked\<close>, \<^verbatim>\<open>hasExpiredLiveGenerationLocked\<close> and \<^verbatim>\<open>runEvents\<close> of
  \<^verbatim>\<open>mark.go\<close>). Collecting tombstones is the only operation that takes entries out of the mirror.
\<close>

section \<open>The operations\<close>

text \<open>The keys of the entries \<open>dead\<close> whose process \<^verbatim>\<open>/proc\<close> no longer shows.\<close>

fun find_dead :: "mirror_map \<Rightarrow> 'c marker \<Rightarrow> process_key list \<times> 'c marker" where
  "find_dead [] m = ([], m)"
| "find_dead ((key, value) # rest) m =
     (if Tombstone value then find_dead rest m
      else let (matches, m) = in_world (procMatchesKey key) m;
               (dead, m) = find_dead rest m
           in (if matches then dead else key # dead, m))"

fun tombstone_all :: "u64 \<Rightarrow> process_key list \<Rightarrow> 'c marker \<Rightarrow> 'c marker" where
  "tombstone_all now [] m = m"
| "tombstone_all now (key # dead) m =
     (let value = (case mget (mirror m) key of None \<Rightarrow> zero_value | Some v \<Rightarrow> v)
      in tombstone_all now dead
           (upsertProcess key
              (value\<lparr>Tombstone := True, Timestamp := maxU64 (Timestamp value) now\<rparr>) m))"

definition tombstoneDeadProcessesLocked :: "'c marker \<Rightarrow> 'c marker" where
  "tombstoneDeadProcessesLocked m =
     (let (dead, m) = find_dead (mirror m) m
      in if dead = [] then m
         else let (now, m) = in_world nowBootNS m
              in logf (LogTombstonedDead (length dead)) (tombstone_all now dead m))"

definition hasExpiredLiveGenerationLocked :: "'c marker \<Rightarrow> bool" where
  "hasExpiredLiveGenerationLocked m \<longleftrightarrow>
     list_ex (\<lambda>(key, value). \<not> Tombstone value \<and> Generation value < generation m) (mirror m)"

definition regularCleanupLocked :: "'c marker \<Rightarrow> go_error option \<times> 'c marker" where
  "regularCleanupLocked m =
     (let m = tombstoneDeadProcessesLocked m
      in if hasExpiredLiveGenerationLocked m
         then traverseProcessTreeLocked (logf LogExpiredGeneration m)
         else (None, m))"

text \<open>\<^verbatim>\<open>cutoff := nowBootNS() - uint64(m.tombTTL.Nanoseconds())\<close>, in 64-bit arithmetic.\<close>

definition expired_keys :: "u64 \<Rightarrow> mirror_map \<Rightarrow> process_key list" where
  "expired_keys cutoff mm =
     map fst (filter (\<lambda>(key, value). Tombstone value \<and> Timestamp value < cutoff) mm)"

fun fallback_delete :: "process_key list \<Rightarrow> 'c marker \<Rightarrow> go_error option \<times> 'c marker" where
  "fallback_delete [] m = (None, m)"
| "fallback_delete (key # keys) m =
     (let (err, m) = in_world (processes_Delete key) m
      in case err of
           None \<Rightarrow> fallback_delete keys m
         | Some e \<Rightarrow>
             if e = ErrKeyNotExist then fallback_delete keys m
             else (Some (ErrFallbackDelete key e), m))"

definition delete_expired :: "process_key list \<Rightarrow> 'c marker \<Rightarrow> go_error option \<times> 'c marker" where
  "delete_expired keys m =
     (let m = m\<lparr>mirror := fold mdel keys (mirror m)\<rparr>
      in if \<not> processes m then (Some PanicNilProcesses, m)
         else
           (let (err, m) = in_world (processes_BatchDelete keys) m;
                (failed, m) = (if err = None then (None, m) else fallback_delete keys m)
            in (failed, if failed = None then logf (LogCollected (length keys)) m else m)))"

definition collectTombstones :: "'c marker \<Rightarrow> go_error option \<times> 'c marker" where
  "collectTombstones m =
     (let (now, m) = in_world nowBootNS m;
          keys = expired_keys (now - tombTTL m) (mirror m)
      in if keys = [] then regularCleanupLocked m
         else
           (let (err, m) = delete_expired keys m
            in if err = None then regularCleanupLocked m else (err, m)))"

text \<open>
  The event loop, over what the successive reads of the ring buffer give: the end (the reader
  was closed), a read error, or a record and what \<^verbatim>\<open>binary.Read\<close> makes of it (see \<^verbatim>\<open>RingRecord\<close>). The result is
  whether the loop has returned, as it does when the reader is closed.
\<close>

datatype ring_read = RingClosed | RingError | RingRecord "mark_event option"

definition process_record :: "u64 \<Rightarrow> mark_event \<Rightarrow> 'c marker \<Rightarrow> 'c marker" where
  "process_record tombCollectionEvents event m =
     (let m = handleEvent event m;
          m = m\<lparr>eventCounter := eventCounter m + 1\<rparr>
      in if eventCounter m \<ge> tombCollectionEvents then
           (let m = m\<lparr>eventCounter := 0\<rparr>;
                (err, m) = collectTombstones m
            in case err of None \<Rightarrow> m | Some e \<Rightarrow> logf (LogCollectTombstones e) m)
         else m)"

fun runEvents :: "u64 \<Rightarrow> ring_read list \<Rightarrow> 'c marker \<Rightarrow> bool \<times> 'c marker" where
  "runEvents tcev [] m = (False, m)"
| "runEvents tcev (RingClosed # reads) m = (True, m)"
| "runEvents tcev (RingError # reads) m = runEvents tcev reads (logf LogReadRing m)"
| "runEvents tcev (RingRecord None # reads) m = runEvents tcev reads (logf LogParseEvent m)"
| "runEvents tcev (RingRecord (Some event) # reads) m =
     runEvents tcev reads (process_record tcev event m)"

section \<open>Frame\<close>

lemma find_dead_frame [simp]:
  "settings (snd (find_dead mm m)) = settings m" "mirror (snd (find_dead mm m)) = mirror m"
  by (induction mm arbitrary: m rule: gomap_induct) (simp_all add: split_beta Let_def)

lemmas find_dead_fields [simp] = find_dead_frame(1) [THEN settingsD]

lemma tombstone_all_frame [simp]: "settings (tombstone_all now dead m) = settings m"
  by (induction dead arbitrary: m) (simp_all add: Let_def)

lemma tombstoneDead_frame [simp]: "settings (tombstoneDeadProcessesLocked m) = settings m"
  by (simp add: tombstoneDeadProcessesLocked_def split_beta Let_def)

lemmas tombstoneDead_fields [simp] = tombstoneDead_frame [THEN settingsD]

lemma regularCleanup_frame [simp]: "settings (snd (regularCleanupLocked m)) = settings m"
  by (simp add: regularCleanupLocked_def Let_def)

lemma fallback_delete_frame [simp]:
  "settings (snd (fallback_delete keys m)) = settings m"
  "mirror (snd (fallback_delete keys m)) = mirror m"
  by (induction keys arbitrary: m) (simp_all add: split_beta Let_def split: option.splits)

lemma delete_expired_frame [simp]:
  "settings (snd (delete_expired keys m)) = settings m"
  "mirror (snd (delete_expired keys m)) = fold mdel keys (mirror m)"
  by (simp_all add: delete_expired_def split_beta Let_def)

lemma collectTombstones_frame [simp]: "settings (snd (collectTombstones m)) = settings m"
  by (simp add: collectTombstones_def split_beta Let_def)

lemmas collectTombstones_fields [simp] = collectTombstones_frame [THEN settingsD]

section \<open>Tombstoning the dead\<close>

text \<open>What it merges: the tombstone of an entry that is there.\<close>

definition buries :: "mirror_map \<Rightarrow> process_key \<Rightarrow> process_value \<Rightarrow> bool" where
  "buries mm key value \<longleftrightarrow>
     Tombstone value \<and> (\<exists>old. mget mm key = Some old \<and> Generation value = Generation old)"

lemma find_dead_Cons:
  "fst (find_dead ((key, value) # rest) m) = fst (find_dead rest m') \<or>
   fst (find_dead ((key, value) # rest) m) = key # fst (find_dead rest m')"
  if "m' = (if Tombstone value then m else snd (in_world (procMatchesKey key) m))"
  using that by (simp add: split_beta Let_def)

lemma find_dead_keys: "set (fst (find_dead mm m)) \<subseteq> fst ` set mm"
proof (induction mm arbitrary: m rule: gomap_induct)
  case (Cons key v rest)
  show ?case using find_dead_Cons [OF refl, of key v rest m] Cons.IH by fastforce
qed simp

lemma find_dead_distinct: "wfmap mm \<Longrightarrow> distinct (fst (find_dead mm m))"
proof (induction mm arbitrary: m rule: gomap_induct)
  case (Cons key v rest)
  let ?m = "if Tombstone v then m else snd (in_world (procMatchesKey key) m)"
  show ?case
    using find_dead_Cons [OF refl, of key v rest m] Cons.IH [of ?m] Cons.prems
      find_dead_keys [of rest ?m] by (auto simp: wfmap_def)
qed simp

lemma tombstone_all_upserts:
  assumes "set dead \<subseteq> fst ` set (mirror m)" "distinct dead"
  shows "upserts (buries (mirror m)) (mirror m) (mirror (tombstone_all now dead m))"
proof -
  have "upserts (buries mm) (mirror m') (mirror (tombstone_all now dead m'))"
    if "\<forall>k \<in> set dead. mget (mirror m') k = mget mm k" "set dead \<subseteq> fst ` set mm" "distinct dead"
    for m' :: "'a marker" and mm
    using that
  proof (induction dead arbitrary: m')
    case (Cons key dead)
    from Cons.prems obtain old where old: "mget mm key = Some old"
      by (auto simp: mkeys_get dest: weak_map_of_SomeI)
    let ?v = "old\<lparr>Tombstone := True, Timestamp := maxU64 (Timestamp old) now\<rparr>"
    let ?m = "upsertProcess key ?v m'"
    have "upserts (buries mm) (mirror m') (mirror ?m)"
      using old by (auto simp: buries_def)
    also have "upserts (buries mm) (mirror ?m) (mirror (tombstone_all now dead ?m))"
    proof (intro Cons.IH ballI)
      fix k assume k: "k \<in> set dead"
      then have "k \<noteq> key" using Cons.prems(3) by auto
      then show "mget (mirror ?m) k = mget mm k"
        using k Cons.prems(1) by (simp add: mir.upsert_other)
    qed (use Cons.prems in auto)
    finally show ?case using Cons.prems(1) old by (simp add: Let_def)
  qed simp
  from this [of m "mirror m"] assms show ?thesis by simp
qed

lemma tombstoneDead_upserts:
  assumes "wfmap (mirror m)"
  shows "upserts (buries (mirror m)) (mirror m) (mirror (tombstoneDeadProcessesLocked m))"
proof -
  let ?dead = "fst (find_dead (mirror m) m)" and ?m = "snd (find_dead (mirror m) m)"
  have "upserts (buries (mirror m)) (mirror m)
      (mirror (tombstone_all now ?dead (snd (in_world nowBootNS ?m))))" for now
    using tombstone_all_upserts [of ?dead "snd (in_world nowBootNS ?m)" now]
      find_dead_keys [of "mirror m" m] find_dead_distinct [OF assms, of m] by simp
  then show ?thesis by (simp add: tombstoneDeadProcessesLocked_def split_beta Let_def)
qed

section \<open>The kernel replica\<close>

lemma maps_ok_find_dead [simp]: "maps_ok m \<Longrightarrow> maps_ok (snd (find_dead mm m))"
  by (induction mm arbitrary: m rule: gomap_induct)
    (simp_all add: split_beta Let_def maps_ok_in_world)

lemma maps_ok_tombstone_all [simp]: "maps_ok m \<Longrightarrow> maps_ok (tombstone_all now dead m)"
  by (induction dead arbitrary: m) (simp_all add: Let_def)

lemma maps_ok_tombstoneDead [simp]: "maps_ok m \<Longrightarrow> maps_ok (tombstoneDeadProcessesLocked m)"
  by (simp add: tombstoneDeadProcessesLocked_def split_beta Let_def)

lemma maps_ok_regularCleanup [simp]: "maps_ok m \<Longrightarrow> maps_ok (snd (regularCleanupLocked m))"
  by (simp add: regularCleanupLocked_def Let_def)

lemma mget_fold_mdel [simp]:
  "mget (fold mdel keys mm) k = (if k \<in> set keys then None else mget mm k)"
  by (induction keys arbitrary: mm) auto

lemma wfmap_fold_mdel [simp]: "wfmap mm \<Longrightarrow> wfmap (fold mdel keys mm)"
  by (induction keys arbitrary: mm) auto

lemma batch_delete_all:
  "distinct keys \<Longrightarrow> \<forall>k \<in> set keys. mget tab k \<noteq> None \<Longrightarrow>
   batch_delete keys tab = (None, fold mdel keys tab)"
proof (induction keys arbitrary: tab)
  case (Cons key keys)
  have "batch_delete keys (mdel key tab) = (None, fold mdel keys (mdel key tab))"
    by (rule Cons.IH) (use Cons.prems in auto)
  with Cons.prems show ?case by simp
qed simp

lemma expired_keys_distinct [simp]: "wfmap mm \<Longrightarrow> distinct (expired_keys cutoff mm)"
  by (simp add: expired_keys_def wfmap_def distinct_map_filter)

lemma expired_keys_iff:
  "wfmap mm \<Longrightarrow> k \<in> set (expired_keys cutoff mm) \<longleftrightarrow>
     (\<exists>v. mget mm k = Some v \<and> Tombstone v \<and> Timestamp v < cutoff)"
  by (force simp: expired_keys_def wfmap_get_iff)

text \<open>The deletion part of the collector on a faultless kernel map.\<close>

lemma delete_expired_ok:
  assumes ok: "maps_ok m" and keys: "distinct keys" "set keys \<subseteq> dom (mget (mirror m))"
  shows "fst (delete_expired keys m) = None" "maps_ok (snd (delete_expired keys m))"
proof -
  let ?m = "m\<lparr>mirror := fold mdel keys (mirror m)\<rparr>"
  have "\<forall>k \<in> set keys. mget (k_processes (wld m)) k \<noteq> None"
    using ok keys(2) by (auto simp: maps_ok_def synced_def)
  then have bd: "batch_delete keys (k_processes (wld m)) =
      (None, fold mdel keys (k_processes (wld m)))"
    using keys(1) by (simp add: batch_delete_all)
  have nf: "\<not> os_fault (wld m) (os_calls (wld m))"
    using ok by (simp add: maps_ok_def no_faults_def)
  have del: "delete_expired keys m =
      (None, logf (LogCollected (length keys)) (snd (in_world (processes_BatchDelete keys) ?m)))"
    using ok bd nf by (simp add: delete_expired_def processes_BatchDelete_def syscall_def maps_ok_def
        synced_def split_beta Let_def)
  then show "fst (delete_expired keys m) = None" by simp
  have "maps_ok (snd (in_world (processes_BatchDelete keys) ?m))"
    using ok bd nf
    by (simp add: maps_ok_def synced_def processes_BatchDelete_def syscall_def no_faults_step fun_eq_iff)
  then show "maps_ok (snd (delete_expired keys m))" by (simp add: del)
qed

text \<open>On a faultless map the collector is: delete the expired tombstones, then clean up.\<close>

lemma collectTombstones_ok:
  assumes ok: "maps_ok m" and wf: "wfmap (mirror m)"
  obtains m' where
    "collectTombstones m = regularCleanupLocked m'" "maps_ok m'" "settings m' = settings m"
    "mirror m' = fold mdel (expired_keys (fst (nowBootNS (wld m)) - tombTTL m) (mirror m)) (mirror m)"
proof -
  let ?m = "snd (in_world nowBootNS m)"
  let ?keys = "expired_keys (fst (nowBootNS (wld m)) - tombTTL m) (mirror m)"
  have ok': "maps_ok ?m" using ok by simp
  have dom: "set ?keys \<subseteq> dom (mget (mirror ?m))" using wf by (auto simp: expired_keys_iff)
  note del = delete_expired_ok [OF ok' expired_keys_distinct [OF wf] dom]
  show thesis
  proof (cases "?keys = []")
    case True
    then show thesis
      using that [of ?m] ok' by (simp add: collectTombstones_def split_beta Let_def)
  next
    case False
    then have "collectTombstones m = regularCleanupLocked (snd (delete_expired ?keys ?m))"
      using del(1) by (simp add: collectTombstones_def split_beta Let_def)
    then show thesis using that [of "snd (delete_expired ?keys ?m)"] del(2) by simp
  qed
qed

lemma maps_ok_collect: "maps_ok m \<Longrightarrow> wfmap (mirror m) \<Longrightarrow> maps_ok (snd (collectTombstones m))"
  by (erule (1) collectTombstones_ok) simp

section \<open>What cleaning up merges\<close>

lemma regularCleanup_upserts:
  assumes wf: "wfmap (mirror m)"
  shows "upserts (\<lambda>k v. True) (mirror m) (mirror (snd (regularCleanupLocked m)))"
proof -
  let ?m = "tombstoneDeadProcessesLocked m"
  have 1: "upserts (\<lambda>k v. True) (mirror m) (mirror ?m)"
    by (rule upserts_mono [OF tombstoneDead_upserts [OF wf]]) simp
  have 2: "upserts (\<lambda>k v. True) (mirror ?m) (mirror (snd (traverseProcessTreeLocked (logf LogExpiredGeneration ?m))))"
    by (rule upserts_mono [OF traverseProcessTreeLocked_upserts [of "logf LogExpiredGeneration ?m",
      unfolded logf_frame]]) simp
  from 1 upserts_trans [OF 1 2] show ?thesis by (simp add: regularCleanupLocked_def Let_def)
qed

text \<open>On a faultless map, an identity the mirror does not know can only come back live.\<close>

lemma regularCleanup_unknown:
  assumes ok: "maps_ok m" and wf: "wfmap (mirror m)" and k: "mget (mirror m) k = None"
    and v: "mget (mirror (snd (regularCleanupLocked m))) k = Some v"
  shows "fresh (generation m) k v"
proof -
  let ?m = "tombstoneDeadProcessesLocked m"
  let ?t = "traverseProcessTreeLocked (logf LogExpiredGeneration ?m)"
  have unknown: "mget (mirror ?m) k = None"
  proof (rule ccontr)
    assume "mget (mirror ?m) k \<noteq> None"
    then obtain w where "mget (mirror ?m) k = Some w" by blast
    from upserts_values [OF tombstoneDead_upserts [OF wf] this] k show False
      by (auto simp: buries_def)
  qed
  have "mget (mirror (snd ?t)) k = Some v"
    using v unknown by (auto simp: regularCleanupLocked_def Let_def split: if_splits)
  then have "(k, v) \<in> set (k_processes (wld ?m)) \<or> fresh (generation m) k v"
    using upserts_values [OF traverseProcessTreeLocked_upserts, of "logf LogExpiredGeneration ?m" k v]
      unknown by simp
  moreover have "mget (k_processes (wld ?m)) k = None" "wfmap (k_processes (wld ?m))"
    using maps_ok_tombstoneDead [OF ok] unknown by (simp_all add: maps_ok_def synced_def)
  ultimately show ?thesis by (auto simp: wfmap_get_iff [symmetric])
qed

text \<open>Whatever fails, the mirror loses nothing but expired tombstones.\<close>

lemma collectTombstones_grows:
  assumes wf: "wfmap (mirror m)"
  shows "grows value_rank
     (mget (fold mdel (expired_keys (fst (nowBootNS (wld m)) - tombTTL m) (mirror m)) (mirror m)))
     (mget (mirror (snd (collectTombstones m))))" (is "grows _ (mget ?mm) _")
proof -
  have "grows value_rank (mget ?mm) (mget (mirror (snd (regularCleanupLocked m'))))"
    if "mirror m' = ?mm" for m' :: "'a marker"
    using upserts_grows [OF regularCleanup_upserts, of m'] that wf by simp
  from this [of "snd (in_world nowBootNS m)"] this show ?thesis
    by (cases "expired_keys (fst (nowBootNS (wld m)) - tombTTL m) (mirror m) = []")
      (simp_all add: collectTombstones_def split_beta Let_def)
qed

lemma wfmap_collect: "wfmap (mirror m) \<Longrightarrow> wfmap (mirror (snd (collectTombstones m)))"
proof -
  assume wf: "wfmap (mirror m)"
  have "wfmap (mirror (snd (regularCleanupLocked m')))" if "wfmap (mirror m')" for m' :: "'a marker"
    using upserts_wfmap [OF regularCleanup_upserts] that by blast
  with wf show ?thesis by (simp add: collectTombstones_def split_beta Let_def)
qed

section \<open>The grace period\<close>

text \<open>
  When the machine has been up for at least the grace period, the cutoff is what it should
  be: exactly the tombstones older than the grace period are collected. Earlier the
  subtraction wraps, and every tombstone is.
\<close>

lemma cutoff_exact:
  fixes now ttl ts :: u64
  assumes "ttl \<le> now"
  shows "ts < now - ttl \<longleftrightarrow> unat ts + unat ttl < unat now"
  using assms by (auto simp: word_less_nat_alt unat_sub word_le_nat_alt)

lemma cutoff_wraps:
  fixes now ttl ts :: u64
  assumes "now < ttl" "ts \<le> now"
  shows "ts < now - ttl"
proof -
  have "unat now < unat ttl" "unat ts \<le> unat now"
    using assms by (simp_all add: word_less_nat_alt word_le_nat_alt)
  moreover have "unat (now - ttl) = 2 ^ 64 + unat now - unat ttl"
    using assms(1) by (simp add: unat_sub_if_size word_size word_less_nat_alt)
  moreover have "unat ttl < 2 ^ 64" using unsigned_less [of ttl] by simp
  ultimately show ?thesis by (simp add: word_less_nat_alt)
qed

section \<open>The event loop\<close>

text \<open>Tombstones are collected once in every \<open>tombCollectionEvents\<close> events.\<close>

fun events_read :: "ring_read list \<Rightarrow> nat" where
  "events_read [] = 0"
| "events_read (RingClosed # reads) = 0"
| "events_read (RingRecord (Some event) # reads) = Suc (events_read reads)"
| "events_read (read # reads) = events_read reads"

lemma process_record_counter:
  assumes "0 < tcev" "eventCounter m < tcev"
  shows "eventCounter (process_record tcev event m) =
     (if eventCounter m + 1 = tcev then 0 else eventCounter m + 1)"
proof -
  have "eventCounter m + 1 \<le> tcev" using assms(2) by (rule inc_le)
  then show ?thesis
    by (auto simp: process_record_def split_beta Let_def split: option.splits)
qed

lemma counter_step:
  fixes c tcev :: u64
  assumes "c < tcev"
  shows "unat (if c + 1 = tcev then 0 else c + 1) = Suc (unat c) mod unat tcev"
    and "(if c + 1 = tcev then 0 else c + 1) < tcev"
proof -
  have "c \<noteq> - 1" using assms by auto
  then have "c + 1 \<noteq> 0" by (simp add: add_eq_0_iff2)
  then have suc: "unat (c + 1) = Suc (unat c)" by (simp add: unat_eq_zero unatSuc add.commute)
  have le: "unat (c + 1) \<le> unat tcev" using inc_le [OF assms] by (simp add: word_le_nat_alt)
  show "unat (if c + 1 = tcev then 0 else c + 1) = Suc (unat c) mod unat tcev"
    using suc le by (cases "c + 1 = tcev") (auto simp: le_less word_unat_eq_iff)
  show "(if c + 1 = tcev then 0 else c + 1) < tcev"
    using inc_le [OF assms] assms by (auto simp: order_less_le)
qed

lemma runEvents_counter_mod:
  "0 < tcev \<Longrightarrow> eventCounter m < tcev \<Longrightarrow>
   unat (eventCounter (snd (runEvents tcev reads m))) =
     (unat (eventCounter m) + events_read reads) mod unat tcev"
proof (induction tcev reads m rule: runEvents.induct)
  case (5 tcev event reads m)
  note step = process_record_counter [OF "5.prems"] counter_step [OF "5.prems"(2)]
  then show ?case using "5.IH" "5.prems" by (simp add: mod_simps)
qed (simp_all add: word_less_nat_alt)

text \<open>The loop keeps the replica exact and the mirror a map, whatever the events say.\<close>

lemma wfmap_handleEvent: "wfmap (mirror m) \<Longrightarrow> wfmap (mirror (handleEvent event m))"
  by (rule upserts_wfmap [OF handleEvent_upserts])

lemma process_record_ok:
  assumes "maps_ok m" "wfmap (mirror m)"
  shows "maps_ok (process_record tcev event m) \<and> wfmap (mirror (process_record tcev event m))"
proof -
  let ?m = "handleEvent event m"
  have ok: "maps_ok (?m\<lparr>eventCounter := c\<rparr>)" "wfmap (mirror (?m\<lparr>eventCounter := c\<rparr>))" for c
    using maps_ok_handleEvent [OF assms(1)] wfmap_handleEvent [OF assms(2)]
    by (simp_all add: maps_ok_def synced_def)
  show ?thesis
    using ok maps_ok_collect [OF ok] wfmap_collect [OF ok(2)]
    by (auto simp: process_record_def split_beta Let_def split: option.splits)
qed

lemma runEvents_ok:
  "maps_ok m \<Longrightarrow> wfmap (mirror m) \<Longrightarrow>
   maps_ok (snd (runEvents tcev reads m)) \<and> wfmap (mirror (snd (runEvents tcev reads m)))"
  by (induction tcev reads m rule: runEvents.induct) (simp_all add: process_record_ok)

lemma runEvents_returns: "fst (runEvents tcev reads m) \<longleftrightarrow> RingClosed \<in> set reads"
  by (induction tcev reads m rule: runEvents.induct) simp_all

section \<open>Dead processes\<close>

text \<open>
  If \<^verbatim>\<open>/proc\<close> does not change meanwhile, every entry still live after
  \<^const>\<open>tombstoneDeadProcessesLocked\<close> belongs to a process \<^verbatim>\<open>/proc\<close> shows with the same start time.
\<close>

definition shown :: "procfs \<Rightarrow> process_key \<Rightarrow> bool" where
  "shown fs key \<longleftrightarrow>
     (case fs_file fs (proc_path (Tgid key) ''stat'') of
        None \<Rightarrow> False
      | Some stat \<Rightarrow> (case parseProcStat stat of Inl _ \<Rightarrow> False | Inr (_, start) \<Rightarrow> start = StartTime key))"

definition static_fs :: "procfs \<Rightarrow> world \<Rightarrow> bool" where
  "static_fs fs w \<longleftrightarrow> (\<forall>n \<ge> os_looks w. os_fs w n = fs)"

lemma look_fs_static [simp]:
  "static_fs fs w \<Longrightarrow> fst (look_fs f w) = f fs" "static_fs fs w \<Longrightarrow> static_fs fs (snd (look_fs f w))"
  by (simp_all add: static_fs_def look_fs_def)

lemma readProcInfo_static [simp]: "static_fs fs w \<Longrightarrow> static_fs fs (snd (readProcInfo pid w))"
  by (auto simp: readProcInfo_def readProcText_def readProcCmdline_def readProcExe_def split_beta
      Let_def split: option.splits sum.splits)

lemma procMatchesKey_static:
  assumes "static_fs fs w"
  shows "fst (procMatchesKey key w) = shown fs key" "static_fs fs (snd (procMatchesKey key w))"
proof -
  show "fst (procMatchesKey key w) = shown fs key"
    using assms by (auto simp: procMatchesKey_def shown_def readProcInfo_def split_beta Let_def
        split: option.splits sum.splits)
  show "static_fs fs (snd (procMatchesKey key w))"
    using readProcInfo_static [OF assms]
    by (auto simp: procMatchesKey_def split_beta Let_def split: sum.splits)
qed

lemma find_dead_static:
  "static_fs fs (wld m) \<Longrightarrow>
   set (fst (find_dead mm m)) = {k. \<exists>v. (k, v) \<in> set mm \<and> \<not> Tombstone v \<and> \<not> shown fs k}"
proof (induction mm arbitrary: m rule: gomap_induct)
  case (Cons key v rest)
  let ?m = "snd (in_world (procMatchesKey key) m)"
  have "static_fs fs (wld ?m)" using Cons.prems by (simp add: procMatchesKey_static)
  from Cons.IH [OF this] Cons.IH [OF Cons.prems] show ?case
    using Cons.prems by (auto simp: split_beta Let_def procMatchesKey_static(1))
qed simp

lemma tombstone_all_entry:
  assumes "key \<in> set dead \<or> (\<exists>w. mget (mirror m) key = Some w \<and> Tombstone w)"
  shows "\<exists>w. mget (mirror (tombstone_all now dead m)) key = Some w \<and> Tombstone w"
  using assms
proof (induction dead arbitrary: m)
  case (Cons k dead)
  let ?v = "(case mget (mirror m) k of None \<Rightarrow> zero_value | Some v \<Rightarrow> v)"
  let ?w = "?v\<lparr>Tombstone := True, Timestamp := maxU64 (Timestamp ?v) now\<rparr>"
  have "\<exists>w. mget (mirror (upsertProcess k ?w m)) k = Some w \<and> Tombstone w"
    by (auto simp: mir.find_upsert split: option.splits)
  moreover have "\<exists>w. mget (mirror (upsertProcess k ?w m)) key = Some w \<and> Tombstone w"
    if "mget (mirror m) key = Some u" "Tombstone u" for u
    using grows_tombstone [OF mir.upsert_grows that] by simp
  ultimately have "key \<in> set dead \<or>
      (\<exists>w. mget (mirror (upsertProcess k ?w m)) key = Some w \<and> Tombstone w)"
    using Cons.prems by (cases "key = k") auto
  from Cons.IH [OF this] show ?case by (simp add: Let_def)
qed simp

lemma tombstoneDead_live_shown:
  assumes wf: "wfmap (mirror m)" and fs: "static_fs fs (wld m)"
    and v: "mget (mirror (tombstoneDeadProcessesLocked m)) k = Some v" "\<not> Tombstone v"
  shows "shown fs k"
proof (rule ccontr)
  assume not: "\<not> shown fs k"
  let ?m = "snd (find_dead (mirror m) m)" and ?dead = "fst (find_dead (mirror m) m)"
  have "mget (mirror m) k = Some v \<and> \<not> Tombstone v"
    using upserts_values [OF tombstoneDead_upserts [OF wf] v(1)] v(2) by (auto simp: buries_def)
  then have dead: "k \<in> set ?dead"
    using not find_dead_static [OF fs, of "mirror m"] by (auto dest: map_of_SomeD)
  then have "mirror (tombstoneDeadProcessesLocked m) =
      mirror (tombstone_all (fst (in_world nowBootNS ?m)) ?dead (snd (in_world nowBootNS ?m)))"
    by (auto simp: tombstoneDeadProcessesLocked_def split_beta Let_def)
  then show False
    using tombstone_all_entry [OF disjI1 [OF dead], where m = "snd (in_world nowBootNS ?m)"
        and now = "fst (in_world nowBootNS ?m)"] v by simp
qed

end
