(* ===== verification/PolicySwitch.thy ===== *)
theory PolicySwitch
  imports Cleanup
begin

text \<open>
  Policy transactions (\<^verbatim>\<open>setKernelPolicyLocked\<close> and its helpers in \<^verbatim>\<open>policy.go\<close>): a new rule
  generation is written beside the active one, made active by one write, and the inactive
  ones are removed. Every map write can fail. The lemmas say that an exec sees a complete old
  or a complete new generation at every moment, that a failed transaction changes nothing the
  daemon decides by, and that no generation is used twice.
\<close>

section \<open>The operations\<close>

text \<open>The deletion loop of \<^verbatim>\<open>deleteCommRuleKeys\<close> and \<^verbatim>\<open>cleanupInactiveCommRulesLocked\<close>.\<close>

fun delete_rule_keys ::
    "(comm_rule_key \<Rightarrow> map_error \<Rightarrow> log_entry) \<Rightarrow> comm_rule_key list \<Rightarrow> 'c marker \<Rightarrow>
     comm_rule_key list \<times> 'c marker" where
  "delete_rule_keys entry [] m = ([], m)"
| "delete_rule_keys entry (key # keys) m =
     (let (err, m) = in_world (comm_rules_Delete key) m
      in case err of
           None \<Rightarrow> delete_rule_keys entry keys m
         | Some e \<Rightarrow>
             if e = ErrKeyNotExist then delete_rule_keys entry keys m
             else let (remaining, m) = delete_rule_keys entry keys (logf (entry key e) m)
                  in (key # remaining, m))"

definition deleteCommRuleKeys :: "comm_rule_key list \<Rightarrow> 'c marker \<Rightarrow> comm_rule_key list \<times> 'c marker" where
  "deleteCommRuleKeys keys m =
     (if \<not> commRules m then ([], m) else delete_rule_keys LogRollbackRule keys m)"

definition rememberUndeletedCommRules :: "u64 \<Rightarrow> comm_rule_key list \<Rightarrow> 'c marker \<Rightarrow> 'c marker" where
  "rememberUndeletedCommRules gen keys m =
     (if keys = [] then m
      else m\<lparr>installedCommRules := mput gen keys (installedCommRules m)\<rparr>)"

definition cleanup_generation :: "u64 \<Rightarrow> comm_rule_key list \<Rightarrow> 'c marker \<Rightarrow> 'c marker" where
  "cleanup_generation gen keys m =
     (let (remaining, m) = delete_rule_keys (LogDeleteInactive gen) keys m
      in m\<lparr>installedCommRules :=
           (if remaining = [] then mdel gen (installedCommRules m)
            else mput gen remaining (installedCommRules m))\<rparr>)"

fun cleanup_loop :: "u64 \<Rightarrow> (u64 \<times> comm_rule_key list) list \<Rightarrow> 'c marker \<Rightarrow> 'c marker" where
  "cleanup_loop activeGeneration [] m = m"
| "cleanup_loop activeGeneration ((gen, keys) # installed) m =
     cleanup_loop activeGeneration installed
       (if gen = activeGeneration then m else cleanup_generation gen keys m)"

definition cleanupInactiveCommRulesLocked :: "u64 \<Rightarrow> 'c marker \<Rightarrow> 'c marker" where
  "cleanupInactiveCommRulesLocked activeGeneration m =
     (if \<not> commRules m then
        m\<lparr>installedCommRules := filter (\<lambda>(gen, keys). gen = activeGeneration) (installedCommRules m)\<rparr>
      else cleanup_loop activeGeneration (installedCommRules m) m)"

fun populate_rules ::
    "u64 \<Rightarrow> exact_comm_rule list \<Rightarrow> comm_rule_key list \<Rightarrow> 'c marker \<Rightarrow>
     (go_error + comm_rule_key list) \<times> 'c marker" where
  "populate_rules nextGeneration [] keys m = (Inr keys, m)"
| "populate_rules nextGeneration (rule # rules) keys m =
     (case makeCommRuleKey nextGeneration (cr_Comm rule) of
        Inl e \<Rightarrow> (Inl (ErrCommKey e), m)
      | Inr key \<Rightarrow>
          if \<not> commRules m then populate_rules nextGeneration rules (keys @ [key]) m
          else
            (let (err, m) = in_world (comm_rules_Put key
                   \<lparr>rv_Priority = cr_Priority rule, rv_Mark = cr_Mark rule\<rparr>) m
             in case err of
                  None \<Rightarrow> populate_rules nextGeneration rules (keys @ [key]) m
                | Some e \<Rightarrow>
                    (let (remaining, m) = deleteCommRuleKeys keys m
                     in (Inl (ErrPopulate (cr_Comm rule) e),
                         rememberUndeletedCommRules nextGeneration remaining m))))"

text \<open>The switch itself: the new checker, generation and policy, undone if the write fails.\<close>

definition activate_policy ::
    "kernel_policy \<Rightarrow> 'c check_func \<Rightarrow> u64 \<Rightarrow> comm_rule_key list \<Rightarrow> 'c marker \<Rightarrow>
     go_error option \<times> 'c marker" where
  "activate_policy policy chk nextGeneration keys m =
     (let oldCheck = check m; oldGeneration = generation m; oldPolicy = kernelPolicy m;
          m = m\<lparr>check := chk, generation := nextGeneration, kernelPolicy := policy\<rparr>
      in if \<not> activePolicy m then (None, m)
         else
           (let (err, m) = in_world (active_policy_Put
                  \<lparr>ps_Generation = nextGeneration, ps_Mode = kp_Mode policy\<rparr>) m
            in case err of
                 None \<Rightarrow> (None, m)
               | Some e \<Rightarrow>
                   (let m = m\<lparr>check := oldCheck, generation := oldGeneration,
                              kernelPolicy := oldPolicy\<rparr>;
                        (remaining, m) = deleteCommRuleKeys keys m
                    in (Some (ErrActivate nextGeneration e),
                        rememberUndeletedCommRules nextGeneration remaining m))))"

definition finish_switch ::
    "kernel_policy \<Rightarrow> u64 \<Rightarrow> comm_rule_key list \<Rightarrow> 'c marker \<Rightarrow> 'c marker" where
  "finish_switch policy nextGeneration keys m =
     (let m = m\<lparr>installedCommRules := mput nextGeneration keys (installedCommRules m)\<rparr>;
          (err, m) = traverseProcessTreeLocked m;
          m = (case err of None \<Rightarrow> m | Some e \<Rightarrow> logf (LogTraversalAfterSwitch e) m);
          m = cleanupInactiveCommRulesLocked nextGeneration m
      in logf (LogPolicyActive (kp_Mode policy) nextGeneration (length (kp_CommRules policy))) m)"

definition setKernelPolicyLocked ::
    "kernel_policy \<Rightarrow> 'c check_func \<Rightarrow> 'c marker \<Rightarrow> (u64 \<times> go_error option) \<times> 'c marker" where
  "setKernelPolicyLocked policy chk m =
     (let (res, m) = in_world listProcesses m
      in case res of
           Inl e \<Rightarrow> ((generation m, Some (ErrListBeforeSwitch e)), m)
         | Inr _ \<Rightarrow>
             (let m = cleanupInactiveCommRulesLocked (generation m) m
              in case nextPolicyGeneration (maxU64 (policyGeneration m) (generation m)) of
                   None \<Rightarrow> ((generation m, Some ErrGenerationExhausted), m)
                 | Some nextGeneration \<Rightarrow>
                     (let m = m\<lparr>policyGeneration := nextGeneration\<rparr>;
                          (res, m) = populate_rules nextGeneration (kp_CommRules policy) [] m
                      in case res of
                           Inl e \<Rightarrow> ((generation m, Some e), m)
                         | Inr keys \<Rightarrow>
                             (let (err, m) = activate_policy policy chk nextGeneration keys m
                              in case err of
                                   Some e \<Rightarrow> ((generation m, Some e), m)
                                 | None \<Rightarrow>
                                     ((nextGeneration, None),
                                      finish_switch policy nextGeneration keys m)))))"

definition setKernelPolicy ::
    "kernel_policy \<Rightarrow> 'c check_func option \<Rightarrow> 'c marker \<Rightarrow> (u64 \<times> go_error option) \<times> 'c marker" where
  "setKernelPolicy policy chk m =
     (case validateAndNormalizeKernelPolicy policy of
        Inl e \<Rightarrow> ((currentGeneration m, Some (ErrPolicy e)), m)
      | Inr normalized \<Rightarrow>
          setKernelPolicyLocked normalized
            (case chk of
               Some f \<Rightarrow> f
             | None \<Rightarrow> (\<lambda>info c. (exactCommCheck (kp_CommRules normalized) info, c))) m)"

definition no_check :: "'c check_func" where
  "no_check info c = ((0, 0, False), c)"

definition setChecker :: "'c check_func option \<Rightarrow> 'c marker \<Rightarrow> (u64 \<times> go_error option) \<times> 'c marker" where
  "setChecker chk m =
     setKernelPolicy \<lparr>kp_Mode = KernelPolicyUserspaceOnly, kp_CommRules = []\<rparr>
       (Some (case chk of Some f \<Rightarrow> f | None \<Rightarrow> no_check)) m"

definition bumpGeneration :: "'c marker \<Rightarrow> (u64 \<times> go_error option) \<times> 'c marker" where
  "bumpGeneration m = setKernelPolicyLocked (kernelPolicy m) (check m) m"

section \<open>The policy tables\<close>

text \<open>What the exec program reads besides the process map.\<close>

definition policy_tables ::
    "world \<Rightarrow> kernel_policy_state \<times> (comm_rule_key \<Rightarrow> comm_rule_value option)" where
  "policy_tables w = (k_active_policy w, mget (k_comm_rules w))"

text \<open>What it can see of them: the active generation's rules.\<close>

definition exec_view ::
    "world \<Rightarrow> kernel_policy_state \<times> (comm_rule_key \<Rightarrow> comm_rule_value option)" where
  "exec_view w =
     (k_active_policy w,
      \<lambda>k. if rk_Generation k = ps_Generation (k_active_policy w) then mget (k_comm_rules w) k else None)"

text \<open>Only the rule operations and the switch touch these tables.\<close>

lemma still_policy_tables: "still w' = still w \<Longrightarrow> policy_tables w' = policy_tables w"
  by (drule stillD) (simp add: policy_tables_def)

lemma syncKernel_tables [simp]:
  "policy_tables (wld (syncKernel k v m)) = policy_tables (wld m)"
  by (simp add: syncKernel_def policy_tables_def processes_Put_def syscall_def split_beta Let_def
      split: option.splits)

lemma clock_tables [simp]: "policy_tables (snd (nowBootNS w)) = policy_tables w"
  by (simp add: policy_tables_def)

lemma upsert_tables [simp]:
  "policy_tables (wld (upsertProcessWithLog k v b m)) = policy_tables (wld m)"
  "policy_tables (wld (upsertProcess k v m)) = policy_tables (wld m)"
  by (simp_all add: upsertProcess_def upsertProcessWithLog_def Let_def split: option.splits)

lemma new_value_tables [simp]:
  "policy_tables (wld (snd (newProcessValue p mk ex m))) = policy_tables (wld m)"
  "policy_tables (wld (snd (newNoMarkProcessValue v m))) = policy_tables (wld m)"
  "policy_tables (wld (snd (inheritedValue v m))) = policy_tables (wld m)"
  by (simp_all add: newProcessValue_def newNoMarkProcessValue_def inheritedValue_def split_beta Let_def)

lemma visit_tables [simp]: "policy_tables (wld (snd (visit info pv m))) = policy_tables (wld m)"
  by (simp add: visit_def split_beta Let_def split: option.splits)

lemma walk_tables [simp]:
  "policy_tables (wld (snd (walk tab infos pv s))) = policy_tables (wld (snd s))"
proof (induction tab infos pv s rule: walk.induct)
  case (2 tab info infos pv s)
  obtain cur m where visit: "visit info pv (snd s) = (cur, m)" by fastforce
  have m: "policy_tables (wld m) = policy_tables (wld (snd s))"
    using visit_tables [of info pv "snd s"] by (simp add: visit)
  show ?case using "2.IH"(1) [OF _ refl visit [symmetric]] "2.IH"(2) visit m
    by (simp add: walk.simps(2))
qed simp

lemma walk_rest_tables [simp]:
  "policy_tables (wld (snd (walk_rest tab byPID procs s))) = policy_tables (wld (snd s))"
  by (induction procs arbitrary: s) auto

lemma sync_all_tables [simp]: "policy_tables (wld (sync_all repairs m)) = policy_tables (wld m)"
  by (induction repairs arbitrary: m) auto

lemma refresh_tables [simp]:
  "policy_tables (wld (snd (refreshMirrorFromKernelLocked m))) = policy_tables (wld m)"
  by (simp add: refreshMirrorFromKernelLocked_def processes_Iterate_def split_beta Let_def)
    (simp add: policy_tables_def)

lemma traverse_tables [simp]:
  "policy_tables (wld (snd (traverseProcessTreeLocked m))) = policy_tables (wld m)"
  by (auto simp: traverseProcessTreeLocked_def traverseProcessesLocked_def walk_all_def split_beta
      Let_def still_policy_tables [OF listProcesses_still] split: sum.splits)

abbreviation ruletab :: "'c marker \<Rightarrow> comm_rule_key \<Rightarrow> comm_rule_value option" where
  "ruletab m \<equiv> mget (k_comm_rules (wld m))"

abbreviation slot :: "'c marker \<Rightarrow> kernel_policy_state" where
  "slot m \<equiv> k_active_policy (wld m)"

lemma policy_tablesD:
  "policy_tables (wld m') = policy_tables (wld m) \<Longrightarrow> ruletab m' = ruletab m \<and> slot m' = slot m"
  by (simp add: policy_tables_def)

section \<open>Sequences of rule writes\<close>

text \<open>Any number of single writes, each of a key that satisfies \<open>P\<close>; the slot stays as it is.\<close>

inductive rule_writes :: "(comm_rule_key \<Rightarrow> bool) \<Rightarrow> world \<Rightarrow> world \<Rightarrow> bool"
  for P :: "comm_rule_key \<Rightarrow> bool" where
  rule_writes_refl [simp, intro!]: "rule_writes P w w"
| rule_writes_none: "rule_writes P w w' \<Longrightarrow> policy_tables w'' = policy_tables w' \<Longrightarrow> rule_writes P w w''"
| rule_writes_step: "rule_writes P w w' \<Longrightarrow> P k \<Longrightarrow> k_active_policy w'' = k_active_policy w' \<Longrightarrow>
    mget (k_comm_rules w'') = (mget (k_comm_rules w'))(k := x) \<Longrightarrow> rule_writes P w w''"

lemma rule_writes_trans [trans]:
  assumes "rule_writes P w w'" "rule_writes P w' w''"
  shows "rule_writes P w w''"
  using assms(2,1) by induction (auto intro: rule_writes.intros)

lemma rule_writes_mono:
  assumes "rule_writes P w w'" "\<And>k. P k \<Longrightarrow> Q k"
  shows "rule_writes Q w w'"
  using assms by induction (auto intro: rule_writes.intros)

lemma rule_writes_slot: "rule_writes P w w' \<Longrightarrow> k_active_policy w' = k_active_policy w"
  by (induction rule: rule_writes.induct) (auto simp: policy_tables_def)

lemma rule_writes_other:
  "rule_writes P w w' \<Longrightarrow> \<not> P k \<Longrightarrow> mget (k_comm_rules w') k = mget (k_comm_rules w) k"
  by (induction rule: rule_writes.induct) (auto simp: policy_tables_def)

text \<open>Writes away from the active generation do not show in the view of an exec.\<close>

lemma rule_writes_view:
  assumes "rule_writes P w w'" "\<And>k. P k \<Longrightarrow> rk_Generation k \<noteq> ps_Generation (k_active_policy w)"
  shows "exec_view w' = exec_view w"
  using rule_writes_slot [OF assms(1)] rule_writes_other [OF assms(1)] assms(2)
  by (auto simp: exec_view_def fun_eq_iff)

lemma rule_writes_same: "policy_tables w' = policy_tables w \<Longrightarrow> rule_writes P w w'"
  by (rule rule_writes_none [OF rule_writes_refl])

lemma comm_rules_slot [simp]:
  "k_active_policy (snd (comm_rules_Put k v w)) = k_active_policy w"
  "k_active_policy (snd (comm_rules_Delete k w)) = k_active_policy w"
  by (simp_all add: comm_rules_Put_def comm_rules_Delete_def syscall_def split_beta Let_def)

lemma comm_rules_Delete_writes:
  assumes "P k" shows "rule_writes P w (snd (comm_rules_Delete k w))"
  using comms.del_look [of k w] assms
    rule_writes_step [OF rule_writes_refl, where k = k and w'' = "snd (comm_rules_Delete k w)"]
    rule_writes_same [of "snd (comm_rules_Delete k w)" w]
  by (auto simp: policy_tables_def)

lemma comm_rules_Put_writes:
  assumes "P k" shows "rule_writes P w (snd (comm_rules_Put k v w))"
  using comms.put_look [of k v w] assms
    rule_writes_step [OF rule_writes_refl, where k = k and w'' = "snd (comm_rules_Put k v w)"]
    rule_writes_same [of "snd (comm_rules_Put k v w)" w]
  by (auto simp: policy_tables_def)

section \<open>The deletion loop\<close>

lemma delete_rule_keys_frame [simp]:
  "settings (snd (delete_rule_keys entry keys m)) = settings m"
  "mirror (snd (delete_rule_keys entry keys m)) = mirror m"
  by (induction keys arbitrary: m) (simp_all add: split_beta Let_def split: option.splits)

lemmas delete_rule_keys_fields [simp] = delete_rule_keys_frame(1) [THEN settingsD]

lemma delete_rule_keys_remaining: "set (fst (delete_rule_keys entry keys m)) \<subseteq> set keys"
  by (induction keys arbitrary: m) (auto simp: split_beta Let_def split: option.splits)

lemma delete_rule_keys_writes:
  "(\<And>k. k \<in> set keys \<Longrightarrow> P k) \<Longrightarrow> rule_writes P (wld m) (wld (snd (delete_rule_keys entry keys m)))"
proof (induction keys arbitrary: m)
  case (Cons key keys)
  let ?m = "snd (in_world (comm_rules_Delete key) m)"
  have 1: "rule_writes P (wld m) (wld ?m)" using Cons.prems by (simp add: comm_rules_Delete_writes)
  have 2: "rule_writes P (wld ?m) (wld (snd (delete_rule_keys entry keys ?m)))"
    "rule_writes P (wld ?m) (wld (snd (delete_rule_keys entry keys (logf e ?m))))" for e
    using Cons.IH [of ?m] Cons.IH [of "logf e ?m"] Cons.prems by simp_all
  then show ?case using 1 by (auto simp: split_beta Let_def intro: rule_writes_trans split: option.splits)
qed simp

lemma delete_rule_keys_le:
  "ruletab (snd (delete_rule_keys entry keys m)) k \<in> {None, ruletab m k}"
proof (induction keys arbitrary: m)
  case (Cons key keys)
  let ?m = "snd (in_world (comm_rules_Delete key) m)"
  have "ruletab ?m k \<in> {None, ruletab m k}"
    using comms.del_look [of key "wld m"] by auto
  then have "ruletab (snd (delete_rule_keys entry keys m')) k \<in> {None, ruletab m k}"
    if "wld m' = wld ?m" for m' :: "'a marker"
    using Cons.IH [of m'] that by auto
  then show ?case by (simp add: split_beta Let_def split: option.splits)
qed simp

lemma delete_rule_keys_gone:
  "k \<in> set keys \<Longrightarrow> k \<notin> set (fst (delete_rule_keys entry keys m)) \<Longrightarrow>
   ruletab (snd (delete_rule_keys entry keys m)) k = None"
proof (induction keys arbitrary: m)
  case (Cons key keys)
  let ?m = "snd (in_world (comm_rules_Delete key) m)"
  show ?case
  proof (cases "fst (comm_rules_Delete key (wld m)) \<in> {None, Some ErrKeyNotExist}")
    case True
    then have step: "delete_rule_keys entry (key # keys) m = delete_rule_keys entry keys ?m"
      by (auto simp: split_beta Let_def)
    have "ruletab ?m key = None" using comms.del_gone [OF True] by simp
    then show ?thesis
      using Cons.IH [of ?m] Cons.prems delete_rule_keys_le [of entry keys ?m key]
      unfolding step by (cases "k = key") auto
  next
    case False
    then show ?thesis using Cons by (auto simp: split_beta Let_def split: option.splits)
  qed
qed simp

lemma no_faults_log [simp]: "no_faults (wld (logf e m)) = no_faults (wld m)"
  by simp

lemma comm_rules_no_faults:
  assumes "no_faults w"
  shows "no_faults (snd (comm_rules_Delete k w))" "no_faults (snd (comm_rules_Put k v w))"
    "no_faults (snd (active_policy_Put s w))"
    "fst (comm_rules_Delete k w) \<in> {None, Some ErrKeyNotExist}"
    "fst (comm_rules_Put k v w) = None" "fst (active_policy_Put s w) = None"
  using assms by (auto simp: comm_rules_Delete_def comm_rules_Put_def active_policy_Put_def
      syscall_def no_faults_def split_beta Let_def)

lemma delete_rule_keys_all:
  "no_faults (wld m) \<Longrightarrow> fst (delete_rule_keys entry keys m) = [] \<and>
     no_faults (wld (snd (delete_rule_keys entry keys m)))"
proof (induction keys arbitrary: m)
  case (Cons key keys)
  then show ?case
    using comm_rules_no_faults(1,4) [OF Cons.prems, of key]
    by (auto simp: split_beta Let_def)
qed simp

section \<open>The invariant of the rule tables\<close>

text \<open>
  Every entry of the kernel's rule table belongs to a generation the daemon has reserved and
  is tracked in \<open>installedCommRules\<close> (or among the keys \<open>pending\<close> of the transaction in
  progress), so that a later cleanup can delete it; the rules of the active generation are
  there completely, and no other key carries that generation.
\<close>

definition rules_base :: "'c marker \<Rightarrow> bool" where
  "rules_base m \<longleftrightarrow>
     commRules m \<and> activePolicy m \<and> wfmap (installedCommRules m) \<and>
     0 < generation m \<and> generation m \<le> policyGeneration m \<and>
     (\<forall>k v. ruletab m k = Some v \<longrightarrow>
        0 < rk_Generation k \<and> rk_Generation k \<le> policyGeneration m) \<and>
     (\<forall>g ks. mget (installedCommRules m) g = Some ks \<longrightarrow>
        0 < g \<and> g \<le> policyGeneration m \<and> (\<forall>k \<in> set ks. rk_Generation k = g))"

definition tracked :: "comm_rule_key list \<Rightarrow> 'c marker \<Rightarrow> bool" where
  "tracked pending m \<longleftrightarrow>
     (\<forall>k v. ruletab m k = Some v \<longrightarrow> k \<in> set pending \<or>
        (\<exists>ks. mget (installedCommRules m) (rk_Generation k) = Some ks \<and> k \<in> set ks))"

definition complete_generation :: "u64 \<Rightarrow> exact_comm_rule list \<Rightarrow> 'c marker \<Rightarrow> bool" where
  "complete_generation g rules m \<longleftrightarrow>
     (\<forall>k. rk_Generation k = g \<longrightarrow> ruletab m k = mget (rule_entries g rules) k)"

definition active_complete :: "'c marker \<Rightarrow> bool" where
  "active_complete m \<longleftrightarrow>
     normal_policy (kernelPolicy m) \<and>
     (slot m = \<lparr>ps_Generation = generation m, ps_Mode = kp_Mode (kernelPolicy m)\<rparr> \<or>
      slot m = \<lparr>ps_Generation = 0, ps_Mode = 0\<rparr> \<and> kp_Mode (kernelPolicy m) = KernelPolicyUserspaceOnly) \<and>
     complete_generation (generation m) (kp_CommRules (kernelPolicy m)) m"

definition rules_inv :: "'c marker \<Rightarrow> bool" where
  "rules_inv m \<longleftrightarrow> rules_base m \<and> tracked [] m \<and> active_complete m"

text \<open>The settings but the bookkeeping of the installed rules.\<close>

definition core ::
    "'c marker \<Rightarrow> bool \<times> bool \<times> bool \<times> 'c check_func \<times> u64 \<times> u64 \<times> kernel_policy \<times>
       'c callbacks \<times> u64 \<times> 64 word" where
  "core m = (processes m, commRules m, activePolicy m, check m, generation m,
     policyGeneration m, kernelPolicy m, callbacks m, eventCounter m, tombTTL m)"

lemma coreD:
  "core m' = core m \<Longrightarrow>
   processes m' = processes m \<and> commRules m' = commRules m \<and> activePolicy m' = activePolicy m \<and>
   check m' = check m \<and> generation m' = generation m \<and>
   policyGeneration m' = policyGeneration m \<and> kernelPolicy m' = kernelPolicy m \<and>
   callbacks m' = callbacks m \<and> eventCounter m' = eventCounter m \<and> tombTTL m' = tombTTL m"
  by (simp add: core_def)

lemma settings_core: "settings m' = settings m \<Longrightarrow> core m' = core m"
  by (drule settingsD) (simp add: core_def)

lemma core_installed [simp]: "core (m\<lparr>installedCommRules := i\<rparr>) = core m"
  by (simp add: core_def)

lemma rules_cong:
  assumes "settings m' = settings m" "policy_tables (wld m') = policy_tables (wld m)"
  shows "rules_base m' = rules_base m" "tracked pending m' = tracked pending m"
    "active_complete m' = active_complete m" "complete_generation g rules m' = complete_generation g rules m"
  using settingsD [OF assms(1)] policy_tablesD [OF assms(2)]
  by (simp_all add: rules_base_def tracked_def active_complete_def complete_generation_def)

text \<open>Writes to other generations leave the active one complete.\<close>

lemma complete_writes:
  assumes "complete_generation g rules m" "rule_writes P (wld m) (wld m')"
    "\<And>k. P k \<Longrightarrow> rk_Generation k \<noteq> g"
  shows "complete_generation g rules m'"
  using assms(1,3) rule_writes_other [OF assms(2)] unfolding complete_generation_def by metis

lemma active_complete_writes:
  assumes "active_complete m" "rule_writes P (wld m) (wld m')" "core m' = core m"
    "\<And>k. P k \<Longrightarrow> rk_Generation k \<noteq> generation m"
  shows "active_complete m'"
  using assms(1) complete_writes [OF _ assms(2,4)] rule_writes_slot [OF assms(2)] coreD [OF assms(3)]
  by (simp add: active_complete_def)

section \<open>Deleting the keys of a generation\<close>

text \<open>Keys that could not be deleted stay tracked.\<close>

definition forget_keys ::
    "(comm_rule_key \<Rightarrow> map_error \<Rightarrow> log_entry) \<Rightarrow> u64 \<Rightarrow> comm_rule_key list \<Rightarrow> 'c marker \<Rightarrow> 'c marker" where
  "forget_keys entry g keys m =
     (let (remaining, m) = delete_rule_keys entry keys m
      in m\<lparr>installedCommRules :=
           (if remaining = [] then mdel g (installedCommRules m)
            else mput g remaining (installedCommRules m))\<rparr>)"

lemma cleanup_forget: "cleanup_generation g keys m = forget_keys (LogDeleteInactive g) g keys m"
  by (simp add: cleanup_generation_def forget_keys_def)

lemma rollback_forget:
  assumes "commRules m" "mget (installedCommRules m) g = None"
  shows "(let (remaining, m) = deleteCommRuleKeys keys m in rememberUndeletedCommRules g remaining m) =
    forget_keys LogRollbackRule g keys m"
proof -
  have "mdel g (installedCommRules m) = installedCommRules m"
    using assms(2) by (auto simp: AList.delete_eq filter_id_conv map_of_eq_None_iff image_iff)
  then show ?thesis
    using assms(1)
    by (simp add: deleteCommRuleKeys_def rememberUndeletedCommRules_def forget_keys_def split_beta Let_def)
qed

lemma forget_keys_spec:
  assumes base: "rules_base m" and keys: "\<And>k. k \<in> set keys \<Longrightarrow> rk_Generation k = g"
    and g: "0 < g" "g \<le> policyGeneration m"
    and tr: "\<And>k v. ruletab m k = Some v \<Longrightarrow> k \<in> set pending \<or>
      (if rk_Generation k = g then k \<in> set keys
       else \<exists>ks. mget (installedCommRules m) (rk_Generation k) = Some ks \<and> k \<in> set ks)"
  shows "rules_base (forget_keys entry g keys m)" "tracked pending (forget_keys entry g keys m)"
    "core (forget_keys entry g keys m) = core m" "mirror (forget_keys entry g keys m) = mirror m"
    "rule_writes (\<lambda>k. rk_Generation k = g) (wld m) (wld (forget_keys entry g keys m))"
proof -
  let ?r = "fst (delete_rule_keys entry keys m)" and ?m = "snd (delete_rule_keys entry keys m)"
  have sub: "set ?r \<subseteq> set keys" by (rule delete_rule_keys_remaining)
  have le: "ruletab ?m k = Some v \<Longrightarrow> ruletab m k = Some v" for k v
    using delete_rule_keys_le [of entry keys m k] by auto
  have gone: "k \<in> set keys \<Longrightarrow> ruletab ?m k = Some v \<Longrightarrow> k \<in> set ?r" for k v
    using delete_rule_keys_gone [of k keys entry m] by auto
  show "core (forget_keys entry g keys m) = core m" "mirror (forget_keys entry g keys m) = mirror m"
    by (simp_all add: forget_keys_def split_beta Let_def settings_core [OF delete_rule_keys_frame(1)])
  show "rule_writes (\<lambda>k. rk_Generation k = g) (wld m) (wld (forget_keys entry g keys m))"
    using delete_rule_keys_writes [of keys "\<lambda>k. rk_Generation k = g" m entry] keys
    by (simp add: forget_keys_def split_beta Let_def)
  show "rules_base (forget_keys entry g keys m)"
    unfolding rules_base_def
  proof (intro conjI allI impI)
    fix k v assume "ruletab (forget_keys entry g keys m) k = Some v"
    then have "ruletab m k = Some v" using le by (simp add: forget_keys_def split_beta Let_def)
    then show "0 < rk_Generation k" "rk_Generation k \<le> policyGeneration (forget_keys entry g keys m)"
      using base by (auto simp: rules_base_def forget_keys_def split_beta Let_def)
  next
    fix g' ks assume "mget (installedCommRules (forget_keys entry g keys m)) g' = Some ks"
    then have "g' = g \<and> set ks \<subseteq> set keys \<or> mget (installedCommRules m) g' = Some ks"
      using sub by (auto simp: forget_keys_def split_beta Let_def split: if_splits)
    then show "0 < g'" "g' \<le> policyGeneration (forget_keys entry g keys m)"
      "\<forall>k \<in> set ks. rk_Generation k = g'"
      using base g keys by (auto simp: rules_base_def forget_keys_def split_beta Let_def)
  qed (use base in \<open>simp_all add: rules_base_def forget_keys_def split_beta Let_def\<close>)
  show "tracked pending (forget_keys entry g keys m)"
    unfolding tracked_def
  proof (intro allI impI)
    fix k v assume "ruletab (forget_keys entry g keys m) k = Some v"
    then have k: "ruletab ?m k = Some v" by (simp add: forget_keys_def split_beta Let_def)
    from tr [OF le [OF k]] show "k \<in> set pending \<or>
        (\<exists>ks. mget (installedCommRules (forget_keys entry g keys m)) (rk_Generation k) = Some ks \<and>
           k \<in> set ks)"
      using gone [OF _ k] by (auto simp: forget_keys_def split_beta Let_def split: if_splits)
  qed
qed

lemma forget_generation:
  assumes "rules_base m" "tracked pending m" "mget (installedCommRules m) g = Some keys"
  shows "rules_base (forget_keys entry g keys m)" "tracked pending (forget_keys entry g keys m)"
    "core (forget_keys entry g keys m) = core m" "mirror (forget_keys entry g keys m) = mirror m"
    "rule_writes (\<lambda>k. rk_Generation k = g) (wld m) (wld (forget_keys entry g keys m))"
proof -
  have g: "0 < g" "g \<le> policyGeneration m" "\<And>k. k \<in> set keys \<Longrightarrow> rk_Generation k = g"
    using assms(1,3) by (auto simp: rules_base_def)
  have tr: "k \<in> set pending \<or>
      (if rk_Generation k = g then k \<in> set keys
       else \<exists>ks. mget (installedCommRules m) (rk_Generation k) = Some ks \<and> k \<in> set ks)"
    if "ruletab m k = Some v" for k v
    using assms(2,3) that by (auto simp: tracked_def)
  show "rules_base (forget_keys entry g keys m)" "tracked pending (forget_keys entry g keys m)"
    "core (forget_keys entry g keys m) = core m" "mirror (forget_keys entry g keys m) = mirror m"
    "rule_writes (\<lambda>k. rk_Generation k = g) (wld m) (wld (forget_keys entry g keys m))"
    by (rule forget_keys_spec [OF assms(1) g(3,1,2) tr]; assumption)+
qed

lemma forget_keys_installed:
  "g' \<noteq> g \<Longrightarrow> mget (installedCommRules (forget_keys entry g keys m)) g' = mget (installedCommRules m) g'"
  by (simp add: forget_keys_def split_beta Let_def)

lemma cleanup_loop_spec:
  assumes "rules_base m" "tracked pending m" "distinct (map fst installed)"
    and "\<And>g ks. (g, ks) \<in> set installed \<Longrightarrow> mget (installedCommRules m) g = Some ks"
  shows "rules_base (cleanup_loop a installed m) \<and> tracked pending (cleanup_loop a installed m) \<and>
    core (cleanup_loop a installed m) = core m \<and> mirror (cleanup_loop a installed m) = mirror m \<and>
    rule_writes (\<lambda>k. rk_Generation k \<noteq> a \<and> 0 < rk_Generation k) (wld m)
      (wld (cleanup_loop a installed m))"
  using assms
proof (induction installed arbitrary: m rule: gomap_induct)
  case (Cons g keys installed)
  show ?case
  proof (cases "g = a")
    case True
    then show ?thesis using Cons.IH [OF Cons.prems(1,2)] Cons.prems(3,4) by simp
  next
    case False
    let ?m = "cleanup_generation g keys m"
    have g: "mget (installedCommRules m) g = Some keys" using Cons.prems(4) by simp
    note step = forget_generation [OF Cons.prems(1,2) g, of "LogDeleteInactive g",
        folded cleanup_forget]
    have "0 < g" using g Cons.prems(1) by (auto simp: rules_base_def)
    then have w: "rule_writes (\<lambda>k. rk_Generation k \<noteq> a \<and> 0 < rk_Generation k) (wld m) (wld ?m)"
      using False by (intro rule_writes_mono [OF step(5)]) auto
    have rest: "mget (installedCommRules ?m) g' = Some ks" if "(g', ks) \<in> set installed" for g' ks
    proof -
      have "g' \<noteq> g" using that Cons.prems(3) by force
      then show ?thesis using Cons.prems(4) [of g' ks] that
        by (simp add: cleanup_forget forget_keys_installed)
    qed
    show ?thesis
      using Cons.IH [OF step(1,2) _ rest] False Cons.prems(3) step(3,4) rule_writes_trans [OF w] by simp
  qed
qed simp

lemma cleanup_spec:
  assumes "rules_base m" "tracked pending m"
  shows "rules_base (cleanupInactiveCommRulesLocked a m)" 
    "tracked pending (cleanupInactiveCommRulesLocked a m)"
    "core (cleanupInactiveCommRulesLocked a m) = core m"
    "mirror (cleanupInactiveCommRulesLocked a m) = mirror m"
    "rule_writes (\<lambda>k. rk_Generation k \<noteq> a \<and> 0 < rk_Generation k) (wld m)
      (wld (cleanupInactiveCommRulesLocked a m))"
proof -
  have wf: "wfmap (installedCommRules m)" "commRules m" using assms(1) by (simp_all add: rules_base_def)
  note spec = cleanup_loop_spec [OF assms, of "installedCommRules m" a]
  then show "rules_base (cleanupInactiveCommRulesLocked a m)" 
    "tracked pending (cleanupInactiveCommRulesLocked a m)"
    "core (cleanupInactiveCommRulesLocked a m) = core m"
    "mirror (cleanupInactiveCommRulesLocked a m) = mirror m"
    "rule_writes (\<lambda>k. rk_Generation k \<noteq> a \<and> 0 < rk_Generation k) (wld m)
      (wld (cleanupInactiveCommRulesLocked a m))"
    using wf by (simp_all add: cleanupInactiveCommRulesLocked_def wfmap_get_iff wfmap_def)
qed

section \<open>Writing a generation\<close>

lemma rk_Generation_rule_key [simp]: "rk_Generation (rule_key g r) = g"
  by (simp add: rule_key_def)

lemma tracked_pending:
  assumes "tracked pending m" "mget (installedCommRules m) g = None"
    "\<And>k. k \<in> set pending \<Longrightarrow> rk_Generation k = g" "ruletab m k = Some v"
  shows "if rk_Generation k = g then k \<in> set pending
    else \<exists>ks. mget (installedCommRules m) (rk_Generation k) = Some ks \<and> k \<in> set ks"
  using assms by (fastforce simp: tracked_def)

text \<open>Undoing a partly written generation.\<close>

lemma rollback_spec:
  assumes base: "rules_base m" and g: "0 < g" "g \<le> policyGeneration m"
    and none: "mget (installedCommRules m) g = None"
    and keys: "\<And>k. k \<in> set keys \<Longrightarrow> rk_Generation k = g" and tr: "tracked keys m"
  defines "m' \<equiv> let (remaining, m) = deleteCommRuleKeys keys m in rememberUndeletedCommRules g remaining m"
  shows "rules_base m'" "tracked [] m'" "core m' = core m" "mirror m' = mirror m"
    "rule_writes (\<lambda>k. rk_Generation k = g) (wld m) (wld m')"
proof -
  have m': "m' = forget_keys LogRollbackRule g keys m"
    using base none rollback_forget unfolding m'_def by (auto simp: rules_base_def)
  have tr': "k \<in> set [] \<or>
      (if rk_Generation k = g then k \<in> set keys
       else \<exists>ks. mget (installedCommRules m) (rk_Generation k) = Some ks \<and> k \<in> set ks)"
    if "ruletab m k = Some v" for k v
    using tracked_pending [OF tr none keys that] by blast
  note spec = forget_keys_spec [OF base keys g tr', where entry = LogRollbackRule, folded m']
  show "rules_base m'" "tracked [] m'" "core m' = core m" "mirror m' = mirror m"
    "rule_writes (\<lambda>k. rk_Generation k = g) (wld m) (wld m')"
    by (rule spec; assumption)+
qed

lemma mget_rule_entries_snoc:
  "rule_key g r \<notin> set (map (rule_key g) rules) \<Longrightarrow>
   mget (rule_entries g (rules @ [r])) = (mget (rule_entries g rules))(rule_key g r \<mapsto> rule_value r)"
proof -
  assume "rule_key g r \<notin> set (map (rule_key g) rules)"
  then have "mget (rule_entries g rules) (rule_key g r) = None"
    by (auto simp: rule_entries_def map_of_eq_None_iff)
  then show ?thesis
    by (auto simp: rule_entries_def map_add_def fun_eq_iff split: option.splits)
qed

lemma populate_put:
  assumes base: "rules_base m" and g: "0 < g" "g \<le> policyGeneration m"
    and tr: "tracked (map (rule_key g) done) m" and cg: "complete_generation g done m"
    and new: "rule_key g r \<notin> set (map (rule_key g) done)"
    and ok: "fst (comm_rules_Put (rule_key g r) (rule_value r) (wld m)) = None"
  defines "m' \<equiv> snd (in_world (comm_rules_Put (rule_key g r) (rule_value r)) m)"
  shows "rules_base m'" "tracked (map (rule_key g) (done @ [r])) m'" "complete_generation g (done @ [r]) m'"
proof -
  have tab: "ruletab m' = (ruletab m)(rule_key g r \<mapsto> rule_value r)"
    using comms.put_ok [of "rule_key g r" "rule_value r" "wld m"] ok by (simp add: m'_def prod_eq_iff)
  have st: "settings m' = settings m" by (simp add: m'_def)
  show "rules_base m'"
    using base g settingsD [OF st] by (auto simp: rules_base_def tab split: if_splits)
  show "tracked (map (rule_key g) (done @ [r])) m'"
    using tr settingsD [OF st] unfolding tracked_def tab by (auto split: if_splits)
  show "complete_generation g (done @ [r]) m'"
    using cg by (auto simp: complete_generation_def tab mget_rule_entries_snoc [OF new])
qed

lemma rule_value_fields: "\<lparr>rv_Priority = cr_Priority r, rv_Mark = cr_Mark r\<rparr> = rule_value r"
  by (simp add: rule_value_def)

lemma populate_rules_spec:
  assumes "rules_base m" "0 < g" "g \<le> policyGeneration m" "mget (installedCommRules m) g = None"
    and "distinct (map cr_Comm (done @ rules))" "\<forall>r \<in> set (done @ rules). validateExactComm (cr_Comm r) = None"
    and "tracked (map (rule_key g) done) m" "complete_generation g done m"
    and "populate_rules g rules (map (rule_key g) done) m = (res, m')"
  shows "rules_base m' \<and> core m' = core m \<and> mirror m' = mirror m \<and>
    rule_writes (\<lambda>k. rk_Generation k = g) (wld m) (wld m') \<and>
    (case res of
       Inl e \<Rightarrow> tracked [] m'
     | Inr keys \<Rightarrow> settings m' = settings m \<and> tracked keys m' \<and>
         (\<forall>k \<in> set keys. rk_Generation k = g) \<and> complete_generation g (done @ rules) m')"
  using assms
proof (induction rules arbitrary: "done" m)
  case (Cons r rules)
  let ?put = "comm_rules_Put (rule_key g r) (rule_value r)"
  let ?m = "snd (in_world ?put m)"
  have key: "makeCommRuleKey g (cr_Comm r) = Inr (rule_key g r)"
    using Cons.prems(6) by (simp add: makeCommRuleKey_ok rule_key_def)
  have cr: "commRules m" using Cons.prems(1) by (simp add: rules_base_def)
  have new: "rule_key g r \<notin> set (map (rule_key g) done)"
    using distinct_rule_keys [OF Cons.prems(5,6), of g] by auto
  have w: "rule_writes (\<lambda>k. rk_Generation k = g) (wld m) (wld ?m)"
    by (simp add: comm_rules_Put_writes)
  show ?case
  proof (cases "fst (?put (wld m))")
    case None
    note step = populate_put [OF Cons.prems(1,2,3,7,8) new None]
    have run: "populate_rules g rules (map (rule_key g) (done @ [r])) ?m = (res, m')"
      using Cons.prems(9) None key cr by (simp add: rule_value_fields split_beta Let_def)
    have "core ?m = core m" "settings ?m = settings m" "mirror ?m = mirror m"
      by (simp_all add: settings_core [OF in_world_frame(1)])
    then show ?thesis
      using Cons.IH [OF step(1) Cons.prems(2) _ _ _ _ step(2,3) run] Cons.prems(3-6)
        rule_writes_trans [OF w] settingsD [OF in_world_frame(1)]
      by (simp split: sum.splits)
  next
    case (Some e)
    have tabs: "policy_tables (wld ?m) = policy_tables (wld m)"
      using comms.put_err [of "rule_key g r" "rule_value r" "wld m"] Some
      by (simp add: policy_tables_def prod_eq_iff)
    have st: "settings ?m = settings m" by simp
    let ?keys = "map (rule_key g) done"
    note cong = rules_cong [OF st tabs]
    have res: "res = Inl (ErrPopulate (cr_Comm r) e)"
      and m': "m' = (let (remaining, m) = deleteCommRuleKeys ?keys ?m in rememberUndeletedCommRules g remaining m)"
      using Cons.prems(9) Some key cr by (simp_all add: rule_value_fields split_beta Let_def)
    have "rules_base ?m" "tracked ?keys ?m" using Cons.prems(1,7) cong by simp_all
    note spec = rollback_spec [OF this(1) Cons.prems(2) _ _ _ this(2), folded m']
    have ks: "\<And>k. k \<in> set ?keys \<Longrightarrow> rk_Generation k = g" by auto
    have pg: "g \<le> policyGeneration ?m" "mget (installedCommRules ?m) g = None"
      using Cons.prems(3,4) settingsD [OF st] by simp_all
    show ?thesis
      using spec [OF pg ks] rule_writes_trans [OF w] settings_core [OF st] res by simp
  qed
qed auto

section \<open>The transaction\<close>

lemma nextPolicyGeneration_Some:
  "nextPolicyGeneration g = Some g' \<Longrightarrow> g < g'"
proof -
  assume some: "nextPolicyGeneration g = Some g'"
  then have "g \<noteq> - 1" by (auto simp: nextPolicyGeneration_def)
  then have "1 + g \<noteq> 0" by (simp add: add_eq_0_iff)
  then have "unat (1 + g) = Suc (unat g)" by (rule unatSuc)
  then show "g < g'"
    using some by (auto simp: nextPolicyGeneration_def word_less_nat_alt add.commute split: if_splits)
qed

lemma reserve_generation:
  assumes inv: "rules_inv m" and new: "policyGeneration m < g"
  defines "m' \<equiv> m\<lparr>policyGeneration := g\<rparr>"
  shows "rules_inv m'" "0 < g" "g \<noteq> generation m" "mget (installedCommRules m') g = None"
    "complete_generation g [] m'"
proof -
  have base: "rules_base m" and tr: "tracked [] m" and ac: "active_complete m"
    using inv by (simp_all add: rules_inv_def)
  have le: "x \<le> policyGeneration m \<Longrightarrow> x < g" for x using new by (rule order.strict_trans1 [rotated])
  have "rules_base m'"
    using base le unfolding rules_base_def m'_def by (auto intro: order.strict_implies_order)
  moreover have "tracked [] m'" using tr by (simp add: tracked_def m'_def)
  moreover have "active_complete m'"
    using ac by (simp add: active_complete_def complete_generation_def m'_def)
  ultimately show "rules_inv m'" by (simp add: rules_inv_def)
  show "0 < g" using new by (metis not_less_iff_gr_or_eq word_not_simps(1) word_greater_zero_iff)
  show "g \<noteq> generation m" using base le by (auto simp: rules_base_def)
  show "mget (installedCommRules m') g = None"
  proof (rule ccontr)
    assume "mget (installedCommRules m') g \<noteq> None"
    then obtain ks where "mget (installedCommRules m) g = Some ks" by (auto simp: m'_def)
    then show False using base le [of g] by (auto simp: rules_base_def)
  qed
  have "ruletab m k = None" if "rk_Generation k = g" for k
  proof (rule ccontr)
    assume "ruletab m k \<noteq> None"
    then show False using base le that by (auto simp: rules_base_def)
  qed
  then show "complete_generation g [] m'"
    by (simp add: complete_generation_def rule_entries_def m'_def)
qed

text \<open>A failed activation leaves the old policy in place.\<close>

lemma activate_fails:
  assumes run: "activate_policy policy chk g keys m = (Some e, m')"
    and base: "rules_base m" and g: "0 < g" "g \<le> policyGeneration m"
    and none: "mget (installedCommRules m) g = None"
    and keys: "\<And>k. k \<in> set keys \<Longrightarrow> rk_Generation k = g" and tr: "tracked keys m"
  shows "rules_base m'" "tracked [] m'" "core m' = core m" "mirror m' = mirror m"
    "rule_writes (\<lambda>k. rk_Generation k = g) (wld m) (wld m')"
proof -
  let ?put = "active_policy_Put \<lparr>ps_Generation = g, ps_Mode = kp_Mode policy\<rparr>"
  let ?m = "snd (in_world ?put m)"
  have ap: "activePolicy m" using base by (simp add: rules_base_def)
  have err: "fst (?put (wld m)) \<noteq> None"
    using run ap by (auto simp: activate_policy_def in_world_def split_beta Let_def split: option.splits)
  then have tabs: "policy_tables (wld ?m) = policy_tables (wld m)"
    by (auto simp: active_policy_Put_def syscall_def policy_tables_def split_beta Let_def split: if_splits)
  have undo: "(snd (in_world ?put (m\<lparr>check := chk, generation := g, kernelPolicy := policy\<rparr>)))
      \<lparr>check := check m, generation := generation m, kernelPolicy := kernelPolicy m\<rparr> = ?m"
    by (simp add: in_world_def split_beta Let_def)
  then have m': "m' = (let (remaining, m) = deleteCommRuleKeys keys ?m
      in rememberUndeletedCommRules g remaining m)"
    using run ap err by (auto simp: activate_policy_def undo split_beta Let_def split: option.splits)
  have st: "settings ?m = settings m" by simp
  note cong = rules_cong [OF st tabs]
  have 1: "rules_base ?m" "tracked keys ?m" using base tr cong by simp_all
  have 2: "g \<le> policyGeneration ?m" "mget (installedCommRules ?m) g = None"
    using g none settingsD [OF st] by simp_all
  note spec = rollback_spec [OF 1(1) g(1) 2 keys 1(2), folded m']
  show "rules_base m'" "tracked [] m'" by (rule spec; assumption)+
  show "core m' = core m" using spec(3) settings_core [OF st] by simp
  show "mirror m' = mirror m" using spec(4) by simp
  show "rule_writes (\<lambda>k. rk_Generation k = g) (wld m) (wld m')"
    using rule_writes_trans [OF rule_writes_same [OF tabs] spec(5)] by simp
qed

lemma activate_succeeds:
  assumes run: "activate_policy policy chk g keys m = (None, m')" and base: "rules_base m"
  shows "m' = m\<lparr>check := chk, generation := g, kernelPolicy := policy, wld := wld m'\<rparr>"
    and "active_policy_Put \<lparr>ps_Generation = g, ps_Mode = kp_Mode policy\<rparr> (wld m) = (None, wld m')"
proof -
  let ?put = "active_policy_Put \<lparr>ps_Generation = g, ps_Mode = kp_Mode policy\<rparr>"
  have ap: "activePolicy m" using base by (simp add: rules_base_def)
  then have ok: "fst (?put (wld m)) = None"
    using run by (auto simp: activate_policy_def in_world_def split_beta Let_def split: option.splits)
  then show "m' = m\<lparr>check := chk, generation := g, kernelPolicy := policy, wld := wld m'\<rparr>"
    "?put (wld m) = (None, wld m')"
    using run ap by (auto simp: activate_policy_def in_world_def prod_eq_iff split_beta Let_def)
qed

text \<open>From a complete new generation to the end of the transaction.\<close>

lemma active_policy_Put_ok:
  "active_policy_Put s w = (None, w') \<Longrightarrow>
   k_active_policy w' = s \<and> k_comm_rules w' = k_comm_rules w \<and> k_processes w' = k_processes w"
  by (auto simp: active_policy_Put_def syscall_def split: if_splits)

lemma finish_switch_spec:
  fixes policy :: kernel_policy
  assumes base: "rules_base m" and tr: "tracked keys m" and ac: "active_complete m"
    and keys: "\<And>k. k \<in> set keys \<Longrightarrow> rk_Generation k = g" and g: "g = generation m"
    and none: "mget (installedCommRules m) g = None"
  defines "m' \<equiv> finish_switch policy g keys m"
  shows "rules_inv m'" "core m' = core m"
    "rule_writes (\<lambda>k. rk_Generation k \<noteq> g \<and> 0 < rk_Generation k) (wld m) (wld m')"
proof -
  let ?m1 = "m\<lparr>installedCommRules := mput g keys (installedCommRules m)\<rparr>"
  let ?t = "traverseProcessTreeLocked ?m1"
  let ?m2 = "case fst ?t of None \<Rightarrow> snd ?t | Some e \<Rightarrow> logf (LogTraversalAfterSwitch e) (snd ?t)"
  let ?m3 = "cleanupInactiveCommRulesLocked g ?m2"
  have m': "m' = logf (LogPolicyActive (kp_Mode policy) g (length (kp_CommRules policy))) ?m3"
    by (simp add: m'_def finish_switch_def split_beta Let_def)
  have base1: "rules_base ?m1" using base g keys by (auto simp: rules_base_def)
  have tr1: "tracked [] ?m1" using tr keys none by (fastforce simp: tracked_def)
  have ac1: "active_complete ?m1" using ac by (simp add: active_complete_def complete_generation_def)
  have st: "settings ?m2 = settings ?m1" "policy_tables (wld ?m2) = policy_tables (wld ?m1)"
    by (simp_all split: option.splits)
  note cong = rules_cong [OF st]
  have inv2: "rules_base ?m2" "tracked [] ?m2" "active_complete ?m2" using base1 tr1 ac1 cong by simp_all
  note cl = cleanup_spec [OF inv2(1,2), of g]
  have gen: "generation ?m2 = g" using settingsD [OF st(1)] g by simp
  have "active_complete ?m3" by (rule active_complete_writes [OF inv2(3) cl(5,3)]) (simp add: gen)
  moreover have "settings m' = settings ?m3" "policy_tables (wld m') = policy_tables (wld ?m3)"
    by (simp_all add: m')
  note rules_cong [OF this]
  ultimately show "rules_inv m'" using cl(1,2) by (simp add: rules_inv_def)
  show "core m' = core m" using cl(3) settings_core [OF st(1)] by (simp add: m' settings_core [OF logf_frame(1)])
  have "rule_writes (\<lambda>k. rk_Generation k \<noteq> g \<and> 0 < rk_Generation k) (wld ?m1) (wld ?m3)"
    by (rule rule_writes_trans [OF rule_writes_same [OF st(2)] cl(5)])
  then show "rule_writes (\<lambda>k. rk_Generation k \<noteq> g \<and> 0 < rk_Generation k) (wld m) (wld m')"
    by (simp add: m')
qed

text \<open>The two outcomes of a transaction.\<close>

definition switch_refused :: "'c marker \<Rightarrow> u64 \<Rightarrow> 'c marker \<Rightarrow> bool" where
  "switch_refused m g m' \<longleftrightarrow>
     g = generation m \<and> generation m' = generation m \<and> check m' = check m \<and>
     kernelPolicy m' = kernelPolicy m \<and> mirror m' = mirror m \<and>
     policyGeneration m \<le> policyGeneration m' \<and>
     rule_writes (\<lambda>k. rk_Generation k \<noteq> generation m \<and> 0 < rk_Generation k) (wld m) (wld m')"

definition switch_done ::
    "kernel_policy \<Rightarrow> 'c check_func \<Rightarrow> 'c marker \<Rightarrow> u64 \<Rightarrow> 'c marker \<Rightarrow> bool" where
  "switch_done policy chk m g m' \<longleftrightarrow>
     policyGeneration m < g \<and> generation m' = g \<and> policyGeneration m' = g \<and>
     check m' = chk \<and> kernelPolicy m' = policy \<and>
     (\<exists>w w'. rule_writes (\<lambda>k. rk_Generation k \<noteq> generation m \<and> 0 < rk_Generation k) (wld m) w \<and>
        (\<forall>k. rk_Generation k = g \<longrightarrow>
           mget (k_comm_rules w) k = mget (rule_entries g (kp_CommRules policy)) k) \<and>
        active_policy_Put \<lparr>ps_Generation = g, ps_Mode = kp_Mode policy\<rparr> w = (None, w') \<and>
        rule_writes (\<lambda>k. rk_Generation k \<noteq> g \<and> 0 < rk_Generation k) w' (wld m'))"

lemma rules_inv_still:
  "rules_inv m \<Longrightarrow> still (snd (f (wld m))) = still (wld m) \<Longrightarrow> rules_inv (snd (in_world f m))"
  using rules_cong [of "snd (in_world f m)" m] still_policy_tables [of "snd (f (wld m))" "wld m"]
  by (simp add: rules_inv_def)

lemma rules_inv_cleanup:
  assumes "rules_inv m"
  shows "rules_inv (cleanupInactiveCommRulesLocked (generation m) m)"
proof -
  have "rules_base m" "tracked [] m" "active_complete m" using assms by (simp_all add: rules_inv_def)
  note cl = cleanup_spec [OF this(1,2), of "generation m"]
  have "active_complete (cleanupInactiveCommRulesLocked (generation m) m)"
    by (rule active_complete_writes [OF \<open>active_complete m\<close> cl(5,3)]) simp
  with cl(1,2) show ?thesis by (simp add: rules_inv_def)
qed

text \<open>The transaction from the moment its generation is reserved.\<close>

lemma commit_spec:
  assumes inv: "rules_inv m" and np: "normal_policy policy"
    and g: "policyGeneration m = g" "0 < g" "g \<noteq> generation m" "mget (installedCommRules m) g = None"
    and cg: "complete_generation g [] m"
    and pop: "populate_rules g (kp_CommRules policy) [] m = (res, m1)"
  shows "res = Inl e \<Longrightarrow> rules_inv m1 \<and> core m1 = core m \<and> mirror m1 = mirror m \<and>
      rule_writes (\<lambda>k. rk_Generation k = g) (wld m) (wld m1)"
    and "res = Inr keys \<Longrightarrow> activate_policy policy chk g keys m1 = (Some e', m2) \<Longrightarrow>
      rules_inv m2 \<and> core m2 = core m \<and> mirror m2 = mirror m \<and>
      rule_writes (\<lambda>k. rk_Generation k = g) (wld m) (wld m2)"
    and "res = Inr keys \<Longrightarrow> activate_policy policy chk g keys m1 = (None, m2) \<Longrightarrow>
      m' = finish_switch policy g keys m2 \<Longrightarrow>
      rules_inv m' \<and> generation m' = g \<and> policyGeneration m' = g \<and> check m' = chk \<and>
      kernelPolicy m' = policy \<and> rule_writes (\<lambda>k. rk_Generation k = g) (wld m) (wld m1) \<and>
      complete_generation g (kp_CommRules policy) m1 \<and>
      active_policy_Put \<lparr>ps_Generation = g, ps_Mode = kp_Mode policy\<rparr> (wld m1) = (None, wld m2) \<and>
      rule_writes (\<lambda>k. rk_Generation k \<noteq> g \<and> 0 < rk_Generation k) (wld m2) (wld m')"
proof -
  have base: "rules_base m" and tr: "tracked [] m" and ac: "active_complete m"
    using inv by (simp_all add: rules_inv_def)
  have np': "distinct (map cr_Comm ([] @ kp_CommRules policy))"
    "\<forall>r \<in> set ([] @ kp_CommRules policy). validateExactComm (cr_Comm r) = None"
    using np by (simp_all add: normal_policy_def)
  have le: "g \<le> policyGeneration m" using g(1) by simp
  note spec = populate_rules_spec [OF base g(2) le g(4) np' _ cg, simplified list.map, OF tr pop]
  have ac1: "active_complete m1"
    by (rule active_complete_writes [OF ac, of "\<lambda>k. rk_Generation k = g"]) (use spec g(3) in simp_all)
  show "rules_inv m1 \<and> core m1 = core m \<and> mirror m1 = mirror m \<and>
      rule_writes (\<lambda>k. rk_Generation k = g) (wld m) (wld m1)" if "res = Inl e"
    using spec ac1 that by (simp add: rules_inv_def)
  {
    assume res: "res = Inr keys"
    have st: "settings m1 = settings m" and w1: "rule_writes (\<lambda>k. rk_Generation k = g) (wld m) (wld m1)"
      and b1: "rules_base m1" and t1: "tracked keys m1" and mm: "mirror m1 = mirror m"
      and ks: "\<And>k. k \<in> set keys \<Longrightarrow> rk_Generation k = g"
      and c1: "complete_generation g (kp_CommRules policy) m1"
      using spec res by auto
    note f1 = settingsD [OF st]
    have le1: "g \<le> policyGeneration m1" "mget (installedCommRules m1) g = None"
      using le g(4) f1 by simp_all
    {
      assume act: "activate_policy policy chk g keys m1 = (Some e', m2)"
      note fails = activate_fails [OF act b1 g(2) le1(1) le1(2) ks t1]
      have "active_complete m2"
        by (rule active_complete_writes [OF ac1 fails(5,3)]) (use g(3) f1 in simp_all)
      then show "rules_inv m2 \<and> core m2 = core m \<and> mirror m2 = mirror m \<and>
          rule_writes (\<lambda>k. rk_Generation k = g) (wld m) (wld m2)"
        using fails(1-4) settings_core [OF st] mm rule_writes_trans [OF w1 fails(5)]
        by (simp add: rules_inv_def)
    next
      assume act: "activate_policy policy chk g keys m1 = (None, m2)"
        and m': "m' = finish_switch policy g keys m2"
      note ok = activate_succeeds [OF act b1] and put = active_policy_Put_ok [OF activate_succeeds(2) [OF act b1]]
      have f2: "generation m2 = g" "kernelPolicy m2 = policy" "check m2 = chk" "commRules m2 = commRules m1"
        "activePolicy m2 = activePolicy m1" "installedCommRules m2 = installedCommRules m1"
        "policyGeneration m2 = g"
        using f1 g(1) by (subst ok(1), simp)+
      have i2: "rules_base m2" "tracked keys m2"
        using b1 t1 put g(2) f1 g(1) by (simp_all add: rules_base_def tracked_def f2)
      have a2: "active_complete m2"
        using put c1 np by (simp add: active_complete_def complete_generation_def f2)
      have n2: "mget (installedCommRules m2) g = None" using le1(2) by (simp add: f2)
      note fin = finish_switch_spec [OF i2 a2 ks f2(1) [symmetric] n2, of policy, folded m']
      show "rules_inv m' \<and> generation m' = g \<and> policyGeneration m' = g \<and> check m' = chk \<and>
          kernelPolicy m' = policy \<and> rule_writes (\<lambda>k. rk_Generation k = g) (wld m) (wld m1) \<and>
          complete_generation g (kp_CommRules policy) m1 \<and>
          active_policy_Put \<lparr>ps_Generation = g, ps_Mode = kp_Mode policy\<rparr> (wld m1) = (None, wld m2) \<and>
          rule_writes (\<lambda>k. rk_Generation k \<noteq> g \<and> 0 < rk_Generation k) (wld m2) (wld m')"
        using fin ok(2) w1 c1 coreD [OF fin(2)] by (simp add: f2)
    }
  }
qed

lemma setKernelPolicyLocked_spec:
  assumes inv: "rules_inv m" and np: "normal_policy policy"
    and run: "setKernelPolicyLocked policy chk m = ((g, err), m')"
  shows "rules_inv m'" (is ?inv)
    and "case err of Some e \<Rightarrow> switch_refused m g m' | None \<Rightarrow> switch_done policy chk m g m'" (is ?out)
proof -
  let ?m1 = "snd (in_world listProcesses m)"
  let ?m2 = "cleanupInactiveCommRulesLocked (generation m) ?m1"
  let ?away = "\<lambda>k. rk_Generation k \<noteq> generation m \<and> 0 < rk_Generation k"
  have inv1: "rules_inv ?m1" by (rule rules_inv_still [OF inv]) simp
  have gen1: "generation ?m1 = generation m" by simp
  have inv2: "rules_inv ?m2" using rules_inv_cleanup [OF inv1] by (simp add: gen1)
  have w1: "rule_writes P (wld m) (wld ?m1)" for P
    by (rule rule_writes_same) (simp add: still_policy_tables [OF listProcesses_still])
  have cl: "core ?m2 = core m" "mirror ?m2 = mirror m" "rule_writes ?away (wld m) (wld ?m2)"
    using cleanup_spec [of ?m1 "[]" "generation m"] inv1 rule_writes_trans [OF w1]
    by (simp_all add: rules_inv_def settings_core [OF in_world_frame(1)])
  note c2 = coreD [OF cl(1)]
  have refused: "rules_inv m'' \<Longrightarrow> core m'' = core (?m2\<lparr>policyGeneration := policyGeneration m''\<rparr>) \<Longrightarrow>
      mirror m'' = mirror m \<Longrightarrow> policyGeneration m \<le> policyGeneration m'' \<Longrightarrow>
      rule_writes ?away (wld ?m2) (wld m'') \<Longrightarrow> switch_refused m (generation m) m''"
    for m'' :: "'a marker"
    using c2 coreD [of m'' "?m2\<lparr>policyGeneration := policyGeneration m''\<rparr>"] rule_writes_trans [OF cl(3)]
    by (simp add: switch_refused_def)
  have "?inv \<and> ?out"
  proof (cases "fst (listProcesses (wld m))")
    case (Inl e)
    then have "g = generation m" "err = Some (ErrListBeforeSwitch e)" "m' = ?m1"
      using run by (auto simp: setKernelPolicyLocked_def split_beta Let_def)
    then show ?thesis using inv1 w1 by (simp add: switch_refused_def)
  next
    case (Inr procs)
    have gm: "generation m \<le> policyGeneration m" using inv by (simp add: rules_inv_def rules_base_def)
    then have cursor: "maxU64 (policyGeneration ?m2) (generation ?m2) = policyGeneration m"
      using c2 by (auto simp: maxU64_def)
    show ?thesis
    proof (cases "nextPolicyGeneration (policyGeneration m)")
      case None
      then have "g = generation m" "err = Some ErrGenerationExhausted" "m' = ?m2"
        using run Inr cursor c2 by (auto simp: setKernelPolicyLocked_def split_beta Let_def)
      then show ?thesis using inv2 c2 cl by (simp add: switch_refused_def)
    next
      case (Some n)
      let ?m3 = "?m2\<lparr>policyGeneration := n\<rparr>"
      have lt: "policyGeneration ?m2 < n" using nextPolicyGeneration_Some [OF Some] c2 by simp
      note res = reserve_generation [OF inv2 lt]
      obtain r m4 where pop: "populate_rules n (kp_CommRules policy) [] ?m3 = (r, m4)" by fastforce
      have gne: "n \<noteq> generation ?m3" using res(3) by simp
      have pg: "policyGeneration ?m3 = n" by simp
      note commit = commit_spec [OF res(1) np pg res(2) gne res(4,5) pop]
      have w3: "rule_writes ?away (wld ?m2) w" if "rule_writes (\<lambda>k. rk_Generation k = n) (wld ?m3) w" for w
        using rule_writes_mono [OF that, of ?away] res(2,3) c2 by simp
      show ?thesis
      proof (cases r)
        case (Inl e)
        then have eq: "g = generation m4" "err = Some e" "m' = m4"
          using run Inr \<open>fst (listProcesses (wld m)) = Inr procs\<close> Some cursor c2 pop
          by (auto simp: setKernelPolicyLocked_def split_beta Let_def)
        have s: "rules_inv m4 \<and> core m4 = core ?m3 \<and> mirror m4 = mirror ?m3 \<and>
            rule_writes (\<lambda>k. rk_Generation k = n) (wld ?m3) (wld m4)"
          using commit(1) Inl by simp
        then have "policyGeneration m4 = n" "generation m4 = generation m"
          using coreD [of m4 ?m3] c2 by simp_all
        then show ?thesis
          using refused [of m4] s eq lt c2 cl w3 by simp
      next
        case (Inr keys)
        obtain e m5 where act: "activate_policy policy chk n keys m4 = (e, m5)" by fastforce
        show ?thesis
        proof (cases e)
          case (Some e')
          then have eq: "g = generation m5" "err = Some e'" "m' = m5"
            using run Inr \<open>fst (listProcesses (wld m)) = Inr procs\<close>
              \<open>nextPolicyGeneration (policyGeneration m) = Some n\<close> cursor c2 pop act
            by (auto simp: setKernelPolicyLocked_def split_beta Let_def)
          have s: "rules_inv m5 \<and> core m5 = core ?m3 \<and> mirror m5 = mirror ?m3 \<and>
              rule_writes (\<lambda>k. rk_Generation k = n) (wld ?m3) (wld m5)"
            using commit(2) Inr act Some by simp
          then have "policyGeneration m5 = n" "generation m5 = generation m"
            using coreD [of m5 ?m3] c2 by simp_all
          then show ?thesis using refused [of m5] s eq lt c2 cl w3 by simp
        next
          case None
          let ?f = "finish_switch policy n keys m5"
          have eq: "g = n" "err = None" "m' = ?f"
            using run Inr \<open>fst (listProcesses (wld m)) = Inr procs\<close>
              \<open>nextPolicyGeneration (policyGeneration m) = Some n\<close> cursor c2 pop act None
            by (auto simp: setKernelPolicyLocked_def split_beta Let_def)
          have s: "rules_inv ?f \<and> generation ?f = n \<and> policyGeneration ?f = n \<and> check ?f = chk \<and>
              kernelPolicy ?f = policy \<and> rule_writes (\<lambda>k. rk_Generation k = n) (wld ?m3) (wld m4) \<and>
              complete_generation n (kp_CommRules policy) m4 \<and>
              active_policy_Put \<lparr>ps_Generation = n, ps_Mode = kp_Mode policy\<rparr> (wld m4) = (None, wld m5) \<and>
              rule_writes (\<lambda>k. rk_Generation k \<noteq> n \<and> 0 < rk_Generation k) (wld m5) (wld ?f)"
            using act by (intro commit(3) [OF Inr _ refl]) (simp add: None)
          have w4: "rule_writes ?away (wld m) (wld m4)"
            by (rule rule_writes_trans [OF cl(3) w3]) (use s in simp)
          have "policyGeneration m < n" using lt c2 by simp
          then have "switch_done policy chk m n ?f"
            unfolding switch_done_def
            by (intro conjI exI [of _ "wld m4"] exI [of _ "wld m5"])
              (use s w4 in \<open>simp_all add: complete_generation_def\<close>)
          then show ?thesis using s eq by simp
        qed
      qed
    qed
  qed
  then show ?inv ?out by simp_all
qed

section \<open>Transactions without faults\<close>

lemma maps_ok_comm_rules [simp]:
  assumes "maps_ok m"
  shows "maps_ok (snd (in_world (comm_rules_Delete k) m))" "maps_ok (snd (in_world (comm_rules_Put k v) m))"
    "maps_ok (snd (in_world (active_policy_Put s) m))"
proof -
  have nf: "no_faults (wld m)" using assms by (simp add: maps_ok_def)
  have "k_processes (snd (comm_rules_Delete k w)) = k_processes w"
    "k_processes (snd (comm_rules_Put k v w)) = k_processes w"
    "k_processes (snd (active_policy_Put s w)) = k_processes w" for w
    by (simp_all add: comm_rules_Delete_def comm_rules_Put_def active_policy_Put_def syscall_def
        split_beta Let_def)
  then show "maps_ok (snd (in_world (comm_rules_Delete k) m))" "maps_ok (snd (in_world (comm_rules_Put k v) m))"
    "maps_ok (snd (in_world (active_policy_Put s) m))"
    using comm_rules_no_faults [OF nf] nf by (auto intro!: maps_okI [OF assms])
qed

lemma maps_ok_settings [simp]:
  "maps_ok (m\<lparr>installedCommRules := i\<rparr>) = maps_ok m"
  "maps_ok (m\<lparr>policyGeneration := g\<rparr>) = maps_ok m"
  "maps_ok (m\<lparr>check := chk, generation := g, kernelPolicy := policy\<rparr>) = maps_ok m"
  by (simp_all add: maps_ok_def synced_def)

lemma maps_ok_faultless: "maps_ok m \<Longrightarrow> no_faults (wld m)"
  by (simp add: maps_ok_def)

lemma maps_ok_delete_rule_keys [simp]: "maps_ok m \<Longrightarrow> maps_ok (snd (delete_rule_keys entry keys m))"
  by (induction keys arbitrary: m) (simp_all add: split_beta Let_def split: option.splits)

lemma maps_ok_cleanup [simp]: "maps_ok m \<Longrightarrow> maps_ok (cleanupInactiveCommRulesLocked a m)"
proof -
  have "maps_ok m \<Longrightarrow> maps_ok (cleanup_loop a installed m)" for installed and m :: "'a marker"
    by (induction installed arbitrary: m rule: gomap_induct)
      (simp_all add: cleanup_generation_def split_beta Let_def)
  then show "maps_ok m \<Longrightarrow> maps_ok (cleanupInactiveCommRulesLocked a m)"
    by (simp add: cleanupInactiveCommRulesLocked_def)
qed

text \<open>Nothing but the active generation is left.\<close>

lemma cleanup_loop_all:
  assumes "maps_ok m" "\<And>g. mget (installedCommRules m) g \<noteq> None \<Longrightarrow> g \<noteq> a \<Longrightarrow> g \<in> fst ` set installed"
  shows "g \<noteq> a \<Longrightarrow> mget (installedCommRules (cleanup_loop a installed m)) g = None"
  using assms
proof (induction installed arbitrary: m rule: gomap_induct)
  case (Cons g' keys installed)
  let ?m = "if g' = a then m else cleanup_generation g' keys m"
  have "fst (delete_rule_keys (LogDeleteInactive g') keys m) = []"
    using delete_rule_keys_all [OF maps_ok_faultless [OF Cons.prems(2)]] by blast
  then have i: "installedCommRules ?m = (if g' = a then installedCommRules m else mdel g' (installedCommRules m))"
    by (simp add: cleanup_generation_def split_beta Let_def)
  have "maps_ok ?m" using Cons.prems(2) by (simp add: cleanup_generation_def split_beta Let_def)
  moreover have "g \<in> fst ` set installed"
    if "mget (installedCommRules ?m) g \<noteq> None" "g \<noteq> a" for g
    using Cons.prems(3) [of g] that by (auto simp: i split: if_splits)
  ultimately show ?case using Cons.IH [OF Cons.prems(1), of ?m] by simp
qed fastforce

lemma cleanup_all:
  assumes ok: "maps_ok m" and ne: "g \<noteq> a"
  shows "mget (installedCommRules (cleanupInactiveCommRulesLocked a m)) g = None"
proof (cases "commRules m")
  case True
  have "g' \<in> fst ` set (installedCommRules m)" if "mget (installedCommRules m) g' \<noteq> None" for g'
    using that by (metis mget_Some_key not_None_eq)
  then show ?thesis
    using True cleanup_loop_all [OF ok _ ne] by (simp add: cleanupInactiveCommRulesLocked_def)
next
  case False
  then show ?thesis using ne by (auto simp: cleanupInactiveCommRulesLocked_def map_of_eq_None_iff)
qed

lemma populate_succeeds:
  assumes "maps_ok m" "\<forall>r \<in> set rules. validateExactComm (cr_Comm r) = None"
  shows "\<exists>keys'. fst (populate_rules g rules keys m) = Inr keys' \<and> maps_ok (snd (populate_rules g rules keys m))"
  using assms
proof (induction rules arbitrary: keys m)
  case (Cons r rules)
  then show ?case
    using comm_rules_no_faults(5) [OF maps_ok_faultless [OF Cons.prems(1)]]
    by (simp add: makeCommRuleKey_ok split_beta Let_def)
qed simp

lemma maps_ok_finish [simp]: "maps_ok m \<Longrightarrow> maps_ok (finish_switch policy g keys m)"
  by (simp add: finish_switch_def split_beta Let_def split: option.splits)

lemma finish_installed:
  assumes "maps_ok m" "g' \<noteq> g"
  shows "mget (installedCommRules (finish_switch policy g keys m)) g' = None"
  using assms by (simp add: finish_switch_def split_beta Let_def cleanup_all split: option.splits)

lemma maps_ok_activate:
  assumes "maps_ok m"
  shows "fst (activate_policy policy chk g keys m) = None"
    "maps_ok (snd (activate_policy policy chk g keys m))"
  using assms comm_rules_no_faults(6) [OF maps_ok_faultless [OF assms]]
  by (simp_all add: activate_policy_def split_beta Let_def)

lemma faultless_switch:
  assumes ok: "maps_ok m" and np: "normal_policy policy" and ls: "fst (listProcesses (wld m)) = Inr procs"
    and nxt: "nextPolicyGeneration (maxU64 (policyGeneration m) (generation m)) = Some g"
    and inv: "rules_inv m"
  shows "\<exists>m'. setKernelPolicyLocked policy chk m = ((g, None), m') \<and> maps_ok m' \<and>
    (\<forall>g'. g' \<noteq> g \<longrightarrow> mget (installedCommRules m') g' = None)"
proof -
  let ?m1 = "snd (in_world listProcesses m)"
  let ?m2 = "cleanupInactiveCommRulesLocked (generation m) ?m1"
  let ?m3 = "?m2\<lparr>policyGeneration := g\<rparr>"
  have inv1: "rules_inv ?m1" by (rule rules_inv_still [OF inv]) simp
  have "core ?m2 = core m"
    using cleanup_spec(3) [of ?m1 "[]" "generation m"] inv1
    by (simp add: rules_inv_def settings_core [OF in_world_frame(1)])
  then have cursor: "maxU64 (policyGeneration ?m2) (generation ?m2) = maxU64 (policyGeneration m) (generation m)"
    by (auto dest: coreD)
  have ok3: "maps_ok ?m3" using ok by (simp add: maps_ok_in_world)
  obtain keys m4 where pop: "populate_rules g (kp_CommRules policy) [] ?m3 = (Inr keys, m4)" "maps_ok m4"
    using populate_succeeds [OF ok3, of "kp_CommRules policy" g "[]"] np
    by (auto simp: normal_policy_def prod_eq_iff)
  obtain m5 where act: "activate_policy policy chk g keys m4 = (None, m5)" "maps_ok m5"
    using maps_ok_activate [OF pop(2)] by (metis prod.collapse)
  have "setKernelPolicyLocked policy chk m = ((g, None), finish_switch policy g keys m5)"
    using ls cursor nxt pop(1) act(1) by (simp add: setKernelPolicyLocked_def split_beta Let_def)
  then show ?thesis using act(2) by (simp add: finish_installed)
qed

end
