(* ===== verification/Multirule.thy ===== *)
theory Multirule
  imports Marker
begin

text \<open>
  The rule tracker (\<^verbatim>\<open>multirule/multirule.go\<close>): registered rules, the ids every observed
  process carries, and their inheritance from the latest known parent. The search for a free
  id may not end (when every id is taken), so it is a partial function; the propagation of a
  new rule to descendants is a depth-first search with a visited set.
\<close>

section \<open>State\<close>

type_synonym rule = "process_info \<Rightarrow> bool"

record process_entry =
  en_info :: process_info
  en_ids :: "u64 set"

type_synonym entry_map = "(process_key, process_entry) gomap"

record tracker =
  nextID :: u64
  tr_rules :: "(u64, rule) gomap"
  tr_processes :: entry_map
  latestPID :: "(u32, process_key) gomap"

definition New :: tracker where
  "New = \<lparr>nextID = 1, tr_rules = [], tr_processes = [], latestPID = []\<rparr>"

section \<open>Operations\<close>

definition advanceID :: "u64 \<Rightarrow> u64" where
  "advanceID n = (if n + 1 = 0 then 1 else n + 1)"

partial_function (option) freeID :: "(u64, rule) gomap \<Rightarrow> u64 \<Rightarrow> u64 \<Rightarrow> (u64 \<times> u64) option" where
  "freeID rules rid next =
     (if mget rules rid = None then Some (rid, next) else freeID rules next (advanceID next))"

type_synonym key_table = "(process_key, process_key list) gomap"

definition keys_of :: "key_table \<Rightarrow> process_key \<Rightarrow> process_key list" where
  "keys_of tab key = (case mget tab key of None \<Rightarrow> [] | Some keys \<Rightarrow> keys)"

fun children_loop :: "(u32, process_key) gomap \<Rightarrow> entry_map \<Rightarrow> key_table \<Rightarrow> key_table" where
  "children_loop latest [] tab = tab"
| "children_loop latest ((key, entry) # procs) tab =
     children_loop latest procs
       (case mget latest (pi_PPID (en_info entry)) of
          None \<Rightarrow> tab
        | Some parentKey \<Rightarrow> mput parentKey (keys_of tab parentKey @ [key]) tab)"

definition childrenByParentLocked :: "tracker \<Rightarrow> key_table" where
  "childrenByParentLocked t = children_loop (latestPID t) (tr_processes t) []"

definition tag :: "u64 \<Rightarrow> process_key \<Rightarrow> entry_map \<Rightarrow> entry_map" where
  "tag rid key procs =
     (case mget procs key of
        None \<Rightarrow> procs
      | Some entry \<Rightarrow> mput key (entry\<lparr>en_ids := insert rid (en_ids entry)\<rparr>) procs)"

text \<open>The stack is a list with its top first.\<close>

function propagate_loop ::
    "u64 \<Rightarrow> key_table \<Rightarrow> process_key set \<Rightarrow> process_key list \<Rightarrow> entry_map \<Rightarrow> entry_map" where
  "propagate_loop rid children seen [] procs = procs"
| "propagate_loop rid children seen (key # stack) procs =
     (if key \<in> seen then propagate_loop rid children seen stack procs
      else
        (let present = filter (\<lambda>child. mget procs child \<noteq> None) (keys_of children key)
         in propagate_loop rid children (insert key seen) (rev present @ stack)
              (fold (tag rid) (keys_of children key) procs)))"
  by pat_completeness auto

lemma keys_of_unknown: "key \<notin> fst ` set tab \<Longrightarrow> keys_of tab key = []"
  by (auto simp: keys_of_def dest: mget_Some_key split: option.splits)

termination propagate_loop
proof (relation "measures [\<lambda>(rid, children, seen, stack, procs). card (fst ` set children - seen),
    \<lambda>(rid, children, seen, stack, procs). length stack]", simp_all, goal_cases)
  case (1 children seen key stack procs)
  show ?case
  proof (cases "key \<in> fst ` set children")
    case True
    then have "fst ` set children - insert key seen \<subset> fst ` set children - seen" using 1 by auto
    then have "card (fst ` set children - insert key seen) < card (fst ` set children - seen)"
      by (simp add: psubset_card_mono)
    then show ?thesis by simp
  next
    case False
    then have "fst ` set children - insert key seen = fst ` set children - seen" by auto
    with False show ?thesis by (simp add: keys_of_unknown)
  qed
qed

definition propagateRuleToDescendantsLocked ::
    "u64 \<Rightarrow> process_key list \<Rightarrow> key_table \<Rightarrow> entry_map \<Rightarrow> entry_map" where
  "propagateRuleToDescendantsLocked rid roots children procs =
     propagate_loop rid children {} (rev roots) procs"

definition direct_matches :: "rule \<Rightarrow> entry_map \<Rightarrow> process_key list" where
  "direct_matches rule procs = map fst (filter (\<lambda>(key, entry). rule (en_info entry)) procs)"

definition tag_direct :: "u64 \<Rightarrow> rule \<Rightarrow> entry_map \<Rightarrow> entry_map" where
  "tag_direct rid rule procs =
     map (\<lambda>(key, entry). (key,
       if rule (en_info entry) then entry\<lparr>en_ids := insert rid (en_ids entry)\<rparr> else entry)) procs"

definition RegisterRule :: "rule option \<Rightarrow> tracker \<Rightarrow> (u64 \<times> tracker) option" where
  "RegisterRule rule t =
     (let rule = (case rule of None \<Rightarrow> (\<lambda>info. False) | Some r \<Rightarrow> r)
      in case freeID (tr_rules t) (nextID t) (advanceID (nextID t)) of
           None \<Rightarrow> None
         | Some (rid, next) \<Rightarrow>
             Some (rid, t\<lparr>nextID := next, tr_rules := mput rid rule (tr_rules t),
               tr_processes := propagateRuleToDescendantsLocked rid
                 (direct_matches rule (tr_processes t)) (childrenByParentLocked t)
                 (tag_direct rid rule (tr_processes t))\<rparr>))"

definition UnregisterRule :: "u64 \<Rightarrow> tracker \<Rightarrow> bool \<times> tracker" where
  "UnregisterRule ruleID t =
     (if mget (tr_rules t) ruleID = None then (False, t)
      else (True, t\<lparr>tr_rules := mdel ruleID (tr_rules t),
        tr_processes := map (\<lambda>(key, entry). (key, entry\<lparr>en_ids := en_ids entry - {ruleID}\<rparr>))
          (tr_processes t)\<rparr>))"

definition parent_ids :: "u32 \<Rightarrow> tracker \<Rightarrow> u64 set" where
  "parent_ids ppid t =
     (case mget (latestPID t) ppid of
        None \<Rightarrow> {}
      | Some parentKey \<Rightarrow>
          (case mget (tr_processes t) parentKey of None \<Rightarrow> {} | Some entry \<Rightarrow> en_ids entry))"

definition matching_ids :: "process_info \<Rightarrow> (u64, rule) gomap \<Rightarrow> u64 set" where
  "matching_ids info rules = set (map fst (filter (\<lambda>(rid, rule). rule info) rules))"

definition ApplyProcess :: "process_info \<Rightarrow> tracker \<Rightarrow> tracker" where
  "ApplyProcess info t =
     (let ids = parent_ids (pi_PPID info) t \<union> matching_ids info (tr_rules t)
      in t\<lparr>tr_processes := mput (pi_Key info) \<lparr>en_info = info, en_ids = ids\<rparr> (tr_processes t),
           latestPID := mput (Tgid (pi_Key info)) (pi_Key info) (latestPID t)\<rparr>)"

definition CheckCallback :: "process_info \<Rightarrow> tracker \<Rightarrow> (i8 \<times> u64 \<times> bool) \<times> tracker" where
  "CheckCallback info t = ((0, 0, False), ApplyProcess info t)"

definition ApplyProcessEvent :: "process_event \<Rightarrow> tracker \<Rightarrow> tracker" where
  "ApplyProcessEvent event t =
     (if pe_Type event \<noteq> ''exit'' then
        (if pi_Key (pe_Process event) \<noteq> zero_key then ApplyProcess (pe_Process event) t else t)
      else
        t\<lparr>tr_processes := mdel (pe_Key event) (tr_processes t),
          latestPID :=
            (if mget (latestPID t) (Tgid (pe_Key event)) = Some (pe_Key event)
             then mdel (Tgid (pe_Key event)) (latestPID t) else latestPID t)\<rparr>)"

definition sortedIDs :: "u64 set \<Rightarrow> u64 list" where
  "sortedIDs ids = sorted_list_of_set ids"

definition RuleIDs :: "process_key \<Rightarrow> tracker \<Rightarrow> u64 list" where
  "RuleIDs key t =
     (case mget (tr_processes t) key of None \<Rightarrow> [] | Some entry \<Rightarrow> sortedIDs (en_ids entry))"

definition RuleIDsByPID :: "u32 \<Rightarrow> tracker \<Rightarrow> u64 list" where
  "RuleIDsByPID pid t =
     (case mget (latestPID t) pid of None \<Rightarrow> [] | Some key \<Rightarrow> RuleIDs key t)"

definition Matches :: "process_key \<Rightarrow> u64 \<Rightarrow> tracker \<Rightarrow> bool" where
  "Matches key ruleID t =
     (case mget (tr_processes t) key of None \<Rightarrow> False | Some entry \<Rightarrow> ruleID \<in> en_ids entry)"

definition MatchesPID :: "u32 \<Rightarrow> u64 \<Rightarrow> tracker \<Rightarrow> bool" where
  "MatchesPID pid ruleID t =
     (case mget (latestPID t) pid of None \<Rightarrow> False | Some key \<Rightarrow> Matches key ruleID t)"

definition Snapshot :: "tracker \<Rightarrow> (process_key, u64 list) gomap" where
  "Snapshot t = map (\<lambda>(key, entry). (key, sortedIDs (en_ids entry))) (tr_processes t)"

section \<open>The invariant\<close>

definition entries_ok :: "tracker \<Rightarrow> bool" where
  "entries_ok t \<longleftrightarrow>
     (\<forall>key entry. mget (tr_processes t) key = Some entry \<longrightarrow>
        pi_Key (en_info entry) = key \<and> en_ids entry \<subseteq> fst ` set (tr_rules t))"

definition latest_ok :: "tracker \<Rightarrow> bool" where
  "latest_ok t \<longleftrightarrow>
     (\<forall>pid key. mget (latestPID t) pid = Some key \<longrightarrow>
        Tgid key = pid \<and> mget (tr_processes t) key \<noteq> None)"

definition tracker_ok :: "tracker \<Rightarrow> bool" where
  "tracker_ok t \<longleftrightarrow>
     nextID t \<noteq> 0 \<and> wfmap (tr_rules t) \<and> mget (tr_rules t) 0 = None \<and>
     wfmap (tr_processes t) \<and> wfmap (latestPID t) \<and> entries_ok t \<and> latest_ok t"

lemma tracker_ok_New: "tracker_ok New"
  by (simp add: tracker_ok_def entries_ok_def latest_ok_def New_def)

lemma advanceID_nonzero [simp]: "advanceID n \<noteq> 0"
  by (simp add: advanceID_def)

lemma mkeys_mput: "fst ` set (mput k v m) = insert k (fst ` set m)"
  by (simp add: dom_map_of_conv_image_fst [symmetric])

lemma parent_ids_subset: "entries_ok t \<Longrightarrow> parent_ids ppid t \<subseteq> fst ` set (tr_rules t)"
  by (simp add: parent_ids_def entries_ok_def split: option.splits)

lemma matching_ids_subset: "matching_ids info rules \<subseteq> fst ` set rules"
  by (auto simp: matching_ids_def)

lemma tracker_ok_ApplyProcess:
  assumes ok: "tracker_ok t"
  shows "tracker_ok (ApplyProcess info t)"
proof -
  have "entries_ok (ApplyProcess info t)"
    using ok parent_ids_subset [of t "pi_PPID info"] matching_ids_subset [of info "tr_rules t"]
    by (simp add: tracker_ok_def entries_ok_def ApplyProcess_def Let_def)
  moreover have "latest_ok (ApplyProcess info t)"
    unfolding latest_ok_def
  proof (intro allI impI)
    fix pid k assume "mget (latestPID (ApplyProcess info t)) pid = Some k"
    then have "pid = Tgid (pi_Key info) \<and> k = pi_Key info \<or> mget (latestPID t) pid = Some k"
      by (simp add: ApplyProcess_def Let_def split: if_splits)
    then show "Tgid k = pid \<and> mget (tr_processes (ApplyProcess info t)) k \<noteq> None"
      using ok by (auto simp: tracker_ok_def latest_ok_def ApplyProcess_def Let_def)
  qed
  ultimately show ?thesis using ok by (simp add: tracker_ok_def ApplyProcess_def Let_def)
qed

lemma latest_ok_exit:
  assumes ok: "latest_ok t" and ex: "pe_Type event = ''exit''"
  shows "latest_ok (ApplyProcessEvent event t)"
  unfolding latest_ok_def
proof (intro allI impI)
  fix pid k assume k: "mget (latestPID (ApplyProcessEvent event t)) pid = Some k"
  then have k': "mget (latestPID t) pid = Some k"
    using ex by (simp add: ApplyProcessEvent_def split: if_splits)
  then have lat: "Tgid k = pid" "mget (tr_processes t) k \<noteq> None"
    using ok by (auto simp: latest_ok_def)
  have "k \<noteq> pe_Key event"
    using k k' lat(1) ex by (auto simp: ApplyProcessEvent_def)
  then show "Tgid k = pid \<and> mget (tr_processes (ApplyProcessEvent event t)) k \<noteq> None"
    using lat ex by (simp add: ApplyProcessEvent_def)
qed

lemma tracker_ok_ApplyProcessEvent:
  assumes ok: "tracker_ok t"
  shows "tracker_ok (ApplyProcessEvent event t)"
proof (cases "pe_Type event = ''exit''")
  case True
  then have "entries_ok (ApplyProcessEvent event t)"
    using ok by (simp add: tracker_ok_def entries_ok_def ApplyProcessEvent_def)
  with True show ?thesis
    using ok latest_ok_exit [OF _ True, of t] by (simp add: tracker_ok_def ApplyProcessEvent_def)
next
  case False
  then show ?thesis using ok by (simp add: ApplyProcessEvent_def tracker_ok_ApplyProcess)
qed

section \<open>The search for a free id\<close>

text \<open>How many steps away from \<open>x\<close> the search is.\<close>

definition id_distance :: "u64 \<Rightarrow> u64 \<Rightarrow> nat" where
  "id_distance x n = (if n \<le> x then unat x - unat n else 2 ^ 64 - unat n + unat x)"

lemma id_distance_advance:
  assumes "x \<noteq> 0" "n \<noteq> x" "n \<noteq> 0"
  shows "id_distance x (advanceID n) < id_distance x n"
proof (cases "n = - 1")
  case True
  have "unat x < 2 ^ 64" using unsigned_less [of x] by simp
  moreover have "unat x \<noteq> 0" using assms(1) by (simp add: unat_eq_zero)
  moreover have "\<not> n \<le> x" using True assms(2) by (metis word_order.extremum_unique)
  moreover have "1 \<le> x" using assms(1) by (metis word_le_less_eq word_gt_0 word_not_simps(1) word_less_1 not_le)
  moreover have "unat n = 2 ^ 64 - 1" using True by (simp add: unsigned_minus_1_eq_mask mask_eq_exp_minus_1)
  ultimately show ?thesis using True by (simp add: id_distance_def advanceID_def)
next
  case False
  then have "1 + n \<noteq> 0" by (simp add: add_eq_0_iff)
  then have suc: "unat (n + 1) = Suc (unat n)" "n + 1 \<noteq> 0" using unatSuc [of n] by (simp_all add: add.commute)
  have "unat n < 2 ^ 64" using unsigned_less [of n] by simp
  moreover have "unat n \<noteq> unat x" using assms(2) by (simp add: word_unat_eq_iff)
  ultimately show ?thesis using suc by (auto simp: id_distance_def advanceID_def word_le_nat_alt)
qed

lemma freeID_found:
  assumes "x \<noteq> 0" "mget rules x = None" "n \<noteq> 0"
  shows "\<exists>rid. freeID rules n (advanceID n) = Some (rid, advanceID rid) \<and> rid \<noteq> 0 \<and>
    mget rules rid = None"
  using assms(3)
proof (induction "id_distance x n" arbitrary: n rule: less_induct)
  case less
  show ?case
  proof (cases "mget rules n = None")
    case True
    then show ?thesis using less.prems by (simp add: freeID.simps)
  next
    case False
    then have "n \<noteq> x" using assms(2) by auto
    moreover have "freeID rules n (advanceID n) = freeID rules (advanceID n) (advanceID (advanceID n))"
      using False by (subst freeID.simps) auto
    ultimately show ?thesis
      using less.hyps [OF id_distance_advance [OF assms(1) _ less.prems] advanceID_nonzero] by simp
  qed
qed

lemma freeID_free: "freeID rules n m = Some y \<Longrightarrow> mget rules (fst y) = None"
  by (erule freeID.raw_induct [where P = "\<lambda>rules n m y. mget rules (fst y) = None", rotated])
    (auto split: if_splits)

lemma free_id_exists:
  fixes rules :: "(u64, rule) gomap"
  assumes "length rules < 2 ^ 64 - 1"
  shows "\<exists>x. x \<noteq> 0 \<and> mget rules x = None"
proof (rule ccontr)
  assume "\<not> ?thesis"
  then have "UNIV - {0} \<subseteq> fst ` set rules" by (metis Diff_iff UNIV_I insertI1 mget_Some_key not_None_eq subsetI)
  then have "card (UNIV - {0 :: u64}) \<le> card (fst ` set rules)" by (intro card_mono) auto
  also have "\<dots> \<le> length rules" using card_image_le [of "set rules" fst] card_length [of rules] by simp
  finally show False using assms by (simp add: card_word)
qed

section \<open>Propagation to descendants\<close>

definition tagged :: "u64 \<Rightarrow> process_key set \<Rightarrow> entry_map \<Rightarrow> entry_map \<Rightarrow> bool" where
  "tagged rid T procs0 procs \<longleftrightarrow>
     (\<forall>k. mget procs k = map_option
        (\<lambda>e. if k \<in> T then e\<lparr>en_ids := insert rid (en_ids e)\<rparr> else e) (mget procs0 k))"

lemma tagged_refl: "tagged rid {} procs procs"
  by (simp add: tagged_def option.map_ident)

lemma tagged_tag: "tagged rid T p0 p \<Longrightarrow> tagged rid (insert key T) p0 (tag rid key p)"
  unfolding tagged_def
proof (intro allI)
  fix k assume "\<forall>k. mget p k = map_option
    (\<lambda>e. if k \<in> T then e\<lparr>en_ids := insert rid (en_ids e)\<rparr> else e) (mget p0 k)"
  note all = this [rule_format]
  show "mget (tag rid key p) k = map_option
    (\<lambda>e. if k \<in> insert key T then e\<lparr>en_ids := insert rid (en_ids e)\<rparr> else e) (mget p0 k)"
    using all [of k] all [of key] by (cases "mget p0 key"; cases "k = key") (simp_all add: tag_def)
qed

lemma tagged_fold: "tagged rid T p0 p \<Longrightarrow> tagged rid (T \<union> set keys) p0 (fold (tag rid) keys p)"
proof (induction keys arbitrary: T p)
  case (Cons key keys)
  from Cons.IH [OF tagged_tag [OF Cons.prems, of key]] show ?case by simp
qed simp

lemma tagged_None: "tagged rid T p0 p \<Longrightarrow> mget p k = None \<longleftrightarrow> mget p0 k = None"
  by (simp add: tagged_def)

text \<open>The search started from \<open>roots\<close>; only keys the tracker knows are followed.\<close>

inductive_set reached :: "key_table \<Rightarrow> entry_map \<Rightarrow> process_key list \<Rightarrow> process_key set"
  for children :: key_table and procs0 :: entry_map and roots :: "process_key list" where
  reached_root: "k \<in> set roots \<Longrightarrow> k \<in> reached children procs0 roots"
| reached_child: "k \<in> reached children procs0 roots \<Longrightarrow> c \<in> set (keys_of children k) \<Longrightarrow>
    mget procs0 c \<noteq> None \<Longrightarrow> c \<in> reached children procs0 roots"

definition below :: "key_table \<Rightarrow> process_key set \<Rightarrow> process_key set" where
  "below children R = {c. \<exists>k \<in> R. c \<in> set (keys_of children k)}"

lemma propagate_loop_spec:
  assumes "tagged rid T p0 procs"
    and "\<And>k c. k \<in> seen \<Longrightarrow> c \<in> set (keys_of children k) \<Longrightarrow>
      c \<in> T \<and> (mget p0 c \<noteq> None \<longrightarrow> c \<in> seen \<union> set stack)"
    and "T \<subseteq> below children R" "seen \<union> set stack \<subseteq> R"
    and "\<And>k c. k \<in> R \<Longrightarrow> c \<in> set (keys_of children k) \<Longrightarrow> mget p0 c \<noteq> None \<Longrightarrow> c \<in> R"
  shows "\<exists>T' seen'. tagged rid T' p0 (propagate_loop rid children seen stack procs) \<and>
    seen \<union> set stack \<subseteq> seen' \<and> seen' \<subseteq> R \<and> T' \<subseteq> below children R \<and>
    (\<forall>k \<in> seen'. \<forall>c \<in> set (keys_of children k). c \<in> T' \<and> (mget p0 c \<noteq> None \<longrightarrow> c \<in> seen'))"
  using assms
proof (induction rid children seen stack procs arbitrary: T rule: propagate_loop.induct)
  case (1 rid children seen procs)
  then show ?case by (intro exI [of _ T] exI [of _ seen]) auto
next
  case (2 rid children seen key stack procs)
  show ?case
  proof (cases "key \<in> seen")
    case True
    have "\<exists>T' seen'. tagged rid T' p0 (propagate_loop rid children seen stack procs) \<and>
      seen \<union> set stack \<subseteq> seen' \<and> seen' \<subseteq> R \<and> T' \<subseteq> below children R \<and>
      (\<forall>k \<in> seen'. \<forall>c \<in> set (keys_of children k). c \<in> T' \<and> (mget p0 c \<noteq> None \<longrightarrow> c \<in> seen'))"
      by (rule "2.IH"(1) [OF True "2.prems"(1) _ "2.prems"(3) _ "2.prems"(5)])
        (use "2.prems"(2,4) True in auto)
    with True show ?thesis by auto
  next
    case False
    let ?present = "filter (\<lambda>child. mget procs child \<noteq> None) (keys_of children key)"
    let ?T = "T \<union> set (keys_of children key)"
    have "\<exists>T' seen'. tagged rid T' p0 (propagate_loop rid children (insert key seen) (rev ?present @ stack)
          (fold (tag rid) (keys_of children key) procs)) \<and>
      insert key seen \<union> set (rev ?present @ stack) \<subseteq> seen' \<and> seen' \<subseteq> R \<and> T' \<subseteq> below children R \<and>
      (\<forall>k \<in> seen'. \<forall>c \<in> set (keys_of children k). c \<in> T' \<and> (mget p0 c \<noteq> None \<longrightarrow> c \<in> seen'))"
    proof (rule "2.IH"(2) [OF False refl tagged_fold [OF "2.prems"(1)] _ _ _ "2.prems"(5)])
      show "?T \<subseteq> below children R" using "2.prems"(3,4) by (auto simp: below_def)
      show "insert key seen \<union> set (rev ?present @ stack) \<subseteq> R"
        using "2.prems"(4,5) tagged_None [OF "2.prems"(1)] by auto
      show "c \<in> ?T \<and> (mget p0 c \<noteq> None \<longrightarrow> c \<in> insert key seen \<union> set (rev ?present @ stack))"
        if "k \<in> insert key seen" "c \<in> set (keys_of children k)" for k c
        using that "2.prems"(2) [of k c] tagged_None [OF "2.prems"(1), of c] by auto
    qed
    with False show ?thesis by (auto simp: Let_def)
  qed
qed

lemma propagate_tagged:
  "tagged rid (below children (reached children procs roots)) procs
     (propagateRuleToDescendantsLocked rid roots children procs)"
proof -
  let ?R = "reached children procs roots"
  have "\<exists>T' seen'. tagged rid T' procs (propagate_loop rid children {} (rev roots) procs) \<and>
    {} \<union> set (rev roots) \<subseteq> seen' \<and> seen' \<subseteq> ?R \<and> T' \<subseteq> below children ?R \<and>
    (\<forall>k \<in> seen'. \<forall>c \<in> set (keys_of children k). c \<in> T' \<and> (mget procs c \<noteq> None \<longrightarrow> c \<in> seen'))"
    by (rule propagate_loop_spec [OF tagged_refl]) (auto intro: reached.intros)
  then obtain T' seen' where T': "tagged rid T' procs (propagate_loop rid children {} (rev roots) procs)"
    and roots: "set roots \<subseteq> seen'" and sub: "T' \<subseteq> below children ?R"
    and closed: "\<And>k c. k \<in> seen' \<Longrightarrow> c \<in> set (keys_of children k) \<Longrightarrow> c \<in> T' \<and> (mget procs c \<noteq> None \<longrightarrow> c \<in> seen')"
    by auto
  have "?R \<subseteq> seen'"
  proof
    fix k assume "k \<in> ?R" then show "k \<in> seen'"
      by induction (use roots closed in auto)
  qed
  then have "below children ?R \<subseteq> T'" using closed by (auto simp: below_def)
  with sub have "T' = below children ?R" by simp
  with T' show ?thesis by (simp add: propagateRuleToDescendantsLocked_def)
qed

section \<open>What registering a rule does\<close>

lemma keys_of_mput [simp]: "keys_of (mput k ks tab) pk = (if pk = k then ks else keys_of tab pk)"
  by (simp add: keys_of_def)

lemma set_children_loop:
  "set (keys_of (children_loop latest procs tab) pk) =
     set (keys_of tab pk) \<union>
     {k. \<exists>e. (k, e) \<in> set procs \<and> mget latest (pi_PPID (en_info e)) = Some pk}"
proof (induction procs arbitrary: tab rule: gomap_induct)
  case (Cons key e procs)
  show ?case
    by (cases "mget latest (pi_PPID (en_info e))") (auto simp: Cons.IH)
qed simp

lemma children_iff:
  "wfmap (tr_processes t) \<Longrightarrow>
   k \<in> set (keys_of (childrenByParentLocked t) pk) \<longleftrightarrow>
     (\<exists>e. mget (tr_processes t) k = Some e \<and> mget (latestPID t) (pi_PPID (en_info e)) = Some pk)"
  by (simp add: childrenByParentLocked_def set_children_loop wfmap_get_iff) (simp add: keys_of_def)

lemma direct_matches_iff:
  "wfmap procs \<Longrightarrow> k \<in> set (direct_matches rule procs) \<longleftrightarrow>
     (\<exists>e. mget procs k = Some e \<and> rule (en_info e))"
  by (force simp: direct_matches_def wfmap_get_iff)

lemma mget_tag_direct:
  "mget (tag_direct rid rule procs) k = map_option
     (\<lambda>e. if rule (en_info e) then e\<lparr>en_ids := insert rid (en_ids e)\<rparr> else e) (mget procs k)"
  by (induction procs rule: gomap_induct) (simp_all add: tag_direct_def)

lemma direct_tagged:
  "wfmap procs \<Longrightarrow> tagged rid (set (direct_matches rule procs)) procs (tag_direct rid rule procs)"
  unfolding tagged_def
proof
  fix k assume "wfmap procs"
  then show "mget (tag_direct rid rule procs) k = map_option
      (\<lambda>e. if k \<in> set (direct_matches rule procs) then e\<lparr>en_ids := insert rid (en_ids e)\<rparr> else e)
      (mget procs k)"
    by (cases "mget procs k") (simp_all add: mget_tag_direct direct_matches_iff)
qed

lemma tagged_trans:
  "tagged rid T p0 p1 \<Longrightarrow> tagged rid T' p1 p2 \<Longrightarrow> tagged rid (T \<union> T') p0 p2"
  by (auto simp: tagged_def option.map_comp intro!: option.map_cong)

text \<open>
  The processes a rule holds for: those it matches and, through the latest known parents,
  all their tracked descendants.
\<close>

inductive holds :: "rule \<Rightarrow> tracker \<Rightarrow> process_key \<Rightarrow> bool" for rule :: rule and t :: tracker where
  holds_direct: "mget (tr_processes t) k = Some e \<Longrightarrow> rule (en_info e) \<Longrightarrow> holds rule t k"
| holds_child: "mget (tr_processes t) k = Some e \<Longrightarrow>
    mget (latestPID t) (pi_PPID (en_info e)) = Some pk \<Longrightarrow> holds rule t pk \<Longrightarrow> holds rule t k"

lemma reached_holds:
  assumes wf: "wfmap (tr_processes t)"
  shows "k \<in> reached (childrenByParentLocked t) (tag_direct rid rule (tr_processes t))
      (direct_matches rule (tr_processes t)) \<longleftrightarrow> holds rule t k"
proof
  assume "k \<in> reached (childrenByParentLocked t) (tag_direct rid rule (tr_processes t))
      (direct_matches rule (tr_processes t))"
  then show "holds rule t k"
  proof induction
    case (reached_root k)
    then show ?case using wf by (auto simp: direct_matches_iff intro: holds_direct)
  next
    case (reached_child k c)
    then obtain e where "mget (tr_processes t) c = Some e"
        "mget (latestPID t) (pi_PPID (en_info e)) = Some k"
      using wf by (auto simp: children_iff)
    then show ?case using reached_child.IH by (rule holds_child)
  qed
next
  assume "holds rule t k"
  then show "k \<in> reached (childrenByParentLocked t) (tag_direct rid rule (tr_processes t))
      (direct_matches rule (tr_processes t))"
  proof induction
    case (holds_direct k e)
    then show ?case using wf by (auto simp: direct_matches_iff intro: reached_root)
  next
    case (holds_child k e pk)
    then have "k \<in> set (keys_of (childrenByParentLocked t) pk)"
      using wf by (auto simp: children_iff)
    moreover have "mget (tag_direct rid rule (tr_processes t)) k \<noteq> None"
      using holds_child.hyps(1) by (simp add: mget_tag_direct)
    ultimately show ?case by (rule reached_child [OF holds_child.IH])
  qed
qed

lemma register_tags:
  assumes wf: "wfmap (tr_processes t)"
  shows "tagged rid {k. holds rule t k} (tr_processes t)
    (propagateRuleToDescendantsLocked rid (direct_matches rule (tr_processes t))
       (childrenByParentLocked t) (tag_direct rid rule (tr_processes t)))"
proof -
  let ?R = "reached (childrenByParentLocked t) (tag_direct rid rule (tr_processes t))
      (direct_matches rule (tr_processes t))"
  have R: "?R = {k. holds rule t k}" using reached_holds [OF wf] by blast
  have "set (direct_matches rule (tr_processes t)) \<union> below (childrenByParentLocked t) ?R =
      {k. holds rule t k}" (is "?T = _")
  proof
    show "?T \<subseteq> {k. holds rule t k}"
      using wf by (auto simp: R below_def children_iff direct_matches_iff intro: holds.intros)
    show "{k. holds rule t k} \<subseteq> ?T"
      using wf by (auto simp: R below_def children_iff direct_matches_iff elim: holds.cases)
  qed
  with tagged_trans [OF direct_tagged [OF wf, of rid rule] propagate_tagged
      [of rid "childrenByParentLocked t" "tag_direct rid rule (tr_processes t)"
        "direct_matches rule (tr_processes t)"]]
  show ?thesis by simp
qed

lemma RegisterRule_result:
  assumes ok: "tracker_ok t" and run: "RegisterRule (Some rule) t = Some (rid, t')"
  shows "mget (tr_rules t) rid = None" "mget (tr_rules t') = (mget (tr_rules t))(rid \<mapsto> rule)"
    and "tagged rid {k. holds rule t k} (tr_processes t) (tr_processes t')"
    and "latestPID t' = latestPID t"
proof -
  obtain nxt where free: "freeID (tr_rules t) (nextID t) (advanceID (nextID t)) = Some (rid, nxt)"
    and t': "t' = t\<lparr>nextID := nxt, tr_rules := mput rid rule (tr_rules t),
      tr_processes := propagateRuleToDescendantsLocked rid (direct_matches rule (tr_processes t))
        (childrenByParentLocked t) (tag_direct rid rule (tr_processes t))\<rparr>"
    using run by (auto simp: RegisterRule_def split: option.splits prod.splits)
  show "mget (tr_rules t) rid = None" using freeID_free [OF free] by simp
  show "mget (tr_rules t') = (mget (tr_rules t))(rid \<mapsto> rule)" "latestPID t' = latestPID t"
    by (simp_all add: t')
  show "tagged rid {k. holds rule t k} (tr_processes t) (tr_processes t')"
    using register_tags [of t rid rule] ok by (simp add: t' tracker_ok_def)
qed

lemma RegisterRule_returns:
  assumes "tracker_ok t" "length (tr_rules t) < 2 ^ 64 - 1"
  shows "\<exists>rid t'. RegisterRule rule t = Some (rid, t') \<and> rid \<noteq> 0"
proof -
  obtain x where "x \<noteq> 0" "mget (tr_rules t) x = None" using free_id_exists [OF assms(2)] by blast
  from freeID_found [OF this, of "nextID t"] assms(1) obtain rid where
    "freeID (tr_rules t) (nextID t) (advanceID (nextID t)) = Some (rid, advanceID rid)" "rid \<noteq> 0"
    by (auto simp: tracker_ok_def)
  then show ?thesis by (simp add: RegisterRule_def Let_def)
qed

lemma Matches_iff: "Matches k r t \<longleftrightarrow> (\<exists>e. mget (tr_processes t) k = Some e \<and> r \<in> en_ids e)"
  by (simp add: Matches_def split: option.splits)

text \<open>The new id is carried exactly where its rule holds; every other id stays as it was.\<close>

lemma Matches_tagged:
  assumes "tagged rid T (tr_processes t) (tr_processes t')"
  shows "Matches k r t' \<longleftrightarrow> Matches k r t \<or> r = rid \<and> k \<in> T \<and> mget (tr_processes t) k \<noteq> None"
  using assms by (cases "mget (tr_processes t) k") (auto simp: Matches_iff tagged_def)

lemma holds_known: "holds rule t k \<Longrightarrow> mget (tr_processes t) k \<noteq> None"
  by (auto elim: holds.cases)

lemma Matches_rule:
  assumes ok: "tracker_ok t" and m: "Matches k r t"
  shows "mget (tr_rules t) r \<noteq> None"
proof -
  obtain e where "mget (tr_processes t) k = Some e" "r \<in> en_ids e"
    using m by (auto simp: Matches_iff)
  then have "r \<in> fst ` set (tr_rules t)" using ok by (auto simp: tracker_ok_def entries_ok_def)
  then show ?thesis by (simp add: map_of_eq_None_iff)
qed

lemma RegisterRule_Matches:
  assumes ok: "tracker_ok t" and run: "RegisterRule (Some rule) t = Some (rid, t')"
  shows "Matches k rid t' \<longleftrightarrow> holds rule t k" "r \<noteq> rid \<Longrightarrow> Matches k r t' \<longleftrightarrow> Matches k r t"
  using Matches_tagged [OF RegisterRule_result(3) [OF ok run], of k] Matches_rule [OF ok, of k rid]
    RegisterRule_result(1) [OF ok run] holds_known [of rule t k]
  by auto

lemma mget_map_entries:
  "mget (map (\<lambda>(key, entry). (key, f entry)) procs) k = map_option f (mget procs k)"
  by (induction procs rule: gomap_induct) simp_all

lemma UnregisterRule_Matches:
  "Matches k r (snd (UnregisterRule rid t)) \<longleftrightarrow>
     Matches k r t \<and> (r = rid \<longrightarrow> mget (tr_rules t) rid = None)"
  by (auto simp: UnregisterRule_def Matches_iff mget_map_entries)

lemma RuleIDs_Matches:
  assumes ok: "tracker_ok t"
  shows "set (RuleIDs key t) = {r. Matches key r t}" "sorted (RuleIDs key t)" "distinct (RuleIDs key t)"
proof -
  have "finite (en_ids e)" if "mget (tr_processes t) key = Some e" for e
    using that ok finite_subset [of "en_ids e" "fst ` set (tr_rules t)"]
    by (simp add: tracker_ok_def entries_ok_def)
  then show "set (RuleIDs key t) = {r. Matches key r t}" "sorted (RuleIDs key t)" "distinct (RuleIDs key t)"
    by (cases "mget (tr_processes t) key"; simp add: RuleIDs_def Matches_iff sortedIDs_def)+
qed

lemma matching_ids_iff: "r \<in> matching_ids info rules \<longleftrightarrow> (\<exists>rule. (r, rule) \<in> set rules \<and> rule info)"
  by (force simp: matching_ids_def)

lemma parent_ids_iff:
  "r \<in> parent_ids ppid t \<longleftrightarrow> (\<exists>pk. mget (latestPID t) ppid = Some pk \<and> Matches pk r t)"
  by (simp add: parent_ids_def Matches_def split: option.splits)

lemma ApplyProcess_Matches:
  "Matches (pi_Key info) r (ApplyProcess info t) \<longleftrightarrow>
     (\<exists>rule. (r, rule) \<in> set (tr_rules t) \<and> rule info) \<or>
     (\<exists>pk. mget (latestPID t) (pi_PPID info) = Some pk \<and> Matches pk r t)"
  "k \<noteq> pi_Key info \<Longrightarrow> Matches k r (ApplyProcess info t) \<longleftrightarrow> Matches k r t"
proof -
  have "Matches (pi_Key info) r (ApplyProcess info t) \<longleftrightarrow>
      r \<in> parent_ids (pi_PPID info) t \<or> r \<in> matching_ids info (tr_rules t)"
    by (simp add: Matches_def ApplyProcess_def Let_def)
  then show "Matches (pi_Key info) r (ApplyProcess info t) \<longleftrightarrow>
     (\<exists>rule. (r, rule) \<in> set (tr_rules t) \<and> rule info) \<or>
     (\<exists>pk. mget (latestPID t) (pi_PPID info) = Some pk \<and> Matches pk r t)"
    unfolding parent_ids_iff matching_ids_iff by blast
  show "k \<noteq> pi_Key info \<Longrightarrow> Matches k r (ApplyProcess info t) \<longleftrightarrow> Matches k r t"
    by (simp add: Matches_def ApplyProcess_def Let_def)
qed

text \<open>Both operations on rules keep the invariant.\<close>

lemma freeID_nonzero:
  assumes "freeID rules n m = Some y" "n \<noteq> 0" "m \<noteq> 0"
  shows "fst y \<noteq> 0 \<and> snd y \<noteq> 0"
proof -
  have "n \<noteq> 0 \<longrightarrow> m \<noteq> 0 \<longrightarrow> fst y \<noteq> 0 \<and> snd y \<noteq> 0"
    using assms(1)
    by (rule freeID.raw_induct [where P = "\<lambda>rules n m y. n \<noteq> 0 \<longrightarrow> m \<noteq> 0 \<longrightarrow> fst y \<noteq> 0 \<and> snd y \<noteq> 0",
          rotated]) (auto split: if_splits)
  with assms(2,3) show ?thesis by simp
qed

lemma tagged_ids:
  assumes "tagged rid T procs procs'" "mget procs' k = Some e'"
  shows "\<exists>e. mget procs k = Some e \<and> en_info e' = en_info e \<and> en_ids e' \<subseteq> insert rid (en_ids e)"
  using assms unfolding tagged_def by (cases "mget procs k") (auto split: if_splits)

lemma wfmap_propagate: "wfmap procs \<Longrightarrow> wfmap (propagate_loop rid children seen stack procs)"
proof (induction rid children seen stack procs rule: propagate_loop.induct)
  case (2 rid children seen key stack procs)
  have "wfmap p \<Longrightarrow> wfmap (fold (tag rid) keys p)" for keys p
    by (induction keys arbitrary: p) (simp_all add: tag_def split: option.splits)
  with 2 show ?case by (simp add: Let_def)
qed simp

lemma wfmap_map_entries: "wfmap (map (\<lambda>(key, entry). (key, f entry)) procs) = wfmap procs"
  by (simp add: wfmap_def comp_def case_prod_beta)

lemma tracker_ok_RegisterRule:
  assumes ok: "tracker_ok t" and run: "RegisterRule (Some rule) t = Some (rid, t')"
  shows "tracker_ok t'"
proof -
  obtain nxt where free: "freeID (tr_rules t) (nextID t) (advanceID (nextID t)) = Some (rid, nxt)"
    and t': "t' = t\<lparr>nextID := nxt, tr_rules := mput rid rule (tr_rules t),
      tr_processes := propagateRuleToDescendantsLocked rid (direct_matches rule (tr_processes t))
        (childrenByParentLocked t) (tag_direct rid rule (tr_processes t))\<rparr>"
    using run by (auto simp: RegisterRule_def split: option.splits prod.splits)
  have nz: "rid \<noteq> 0" "nxt \<noteq> 0"
    using freeID_nonzero [OF free] ok by (simp_all add: tracker_ok_def)
  have tg: "tagged rid {k. holds rule t k} (tr_processes t) (tr_processes t')"
    by (rule RegisterRule_result(3) [OF ok run])
  have keys: "fst ` set (tr_rules t') = insert rid (fst ` set (tr_rules t))"
    by (simp add: t' mkeys_mput)
  have "entries_ok t'"
    unfolding entries_ok_def keys
  proof (intro allI impI)
    fix k e' assume "mget (tr_processes t') k = Some e'"
    from tagged_ids [OF tg this] ok show "pi_Key (en_info e') = k \<and>
        en_ids e' \<subseteq> insert rid (fst ` set (tr_rules t))"
      by (auto simp: tracker_ok_def entries_ok_def)
  qed
  moreover have "latest_ok t'"
    using ok tagged_None [OF tg] RegisterRule_result(4) [OF ok run] by (simp add: tracker_ok_def latest_ok_def)
  moreover have "wfmap (tr_processes t')"
    using ok by (simp add: t' tracker_ok_def propagateRuleToDescendantsLocked_def wfmap_propagate
        tag_direct_def wfmap_map_entries)
  ultimately show ?thesis using ok nz by (simp add: tracker_ok_def t')
qed

lemma tracker_ok_UnregisterRule: "tracker_ok t \<Longrightarrow> tracker_ok (snd (UnregisterRule rid t))"
proof -
  assume ok: "tracker_ok t"
  have "entries_ok (snd (UnregisterRule rid t))"
    using ok unfolding tracker_ok_def entries_ok_def
    by (auto simp: UnregisterRule_def mget_map_entries set_mdel) fastforce
  moreover have "latest_ok (snd (UnregisterRule rid t))"
    using ok by (simp add: tracker_ok_def latest_ok_def UnregisterRule_def mget_map_entries)
  ultimately show ?thesis
    using ok by (simp add: tracker_ok_def UnregisterRule_def wfmap_map_entries)
qed

section \<open>Reachable trackers\<close>

inductive tracker_reachable :: "tracker \<Rightarrow> bool" where
  tracker_new: "tracker_reachable New"
| tracker_apply: "tracker_reachable t \<Longrightarrow> tracker_reachable (ApplyProcess info t)"
| tracker_event: "tracker_reachable t \<Longrightarrow> tracker_reachable (ApplyProcessEvent event t)"
| tracker_register: "tracker_reachable t \<Longrightarrow> RegisterRule rule t = Some (rid, t') \<Longrightarrow> tracker_reachable t'"
| tracker_unregister: "tracker_reachable t \<Longrightarrow> tracker_reachable (snd (UnregisterRule rid t))"

lemma RegisterRule_None: "RegisterRule None t = RegisterRule (Some (\<lambda>info. False)) t"
  by (simp add: RegisterRule_def)

lemma tracker_reachable_ok: "tracker_reachable t \<Longrightarrow> tracker_ok t"
proof (induction rule: tracker_reachable.induct)
  case (tracker_register t rule rid t')
  then obtain r where "RegisterRule (Some r) t = Some (rid, t')"
    by (cases rule) (auto simp: RegisterRule_None)
  then show ?case by (rule tracker_ok_RegisterRule [OF tracker_register.IH])
qed (simp_all add: tracker_ok_New tracker_ok_ApplyProcess tracker_ok_ApplyProcessEvent
    tracker_ok_UnregisterRule)

end
