(* ===== verification/Daemon.thy ===== *)
theory Daemon
  imports PolicySwitch Multirule
begin

text \<open>
  The daemon as a state machine: what \<^verbatim>\<open>NewDaemon\<close> starts from, one step for every operation
  that runs under the marker's lock (the event loop and the public methods of \<^verbatim>\<open>Daemon\<close>), and
  the invariant every reachable state satisfies. The steps are the operations of the other
  theories, in any order. This is the daemon by itself: the BPF programs that write the process
  map beside it are in the system of \<^verbatim>\<open>Interleaving\<close>, whose steps are these and theirs.
\<close>

section \<open>Start, shutdown and the remaining public operations\<close>

definition DefaultTombCollectionEvents :: u64 where "DefaultTombCollectionEvents = 1024"

text \<open>\<^verbatim>\<open>time.Minute\<close> in nanoseconds.\<close>

definition DefaultTombTTL :: "64 word" where "DefaultTombTTL = 60000000000"

text \<open>The marker and the number of events between collections that \<^verbatim>\<open>NewDaemon\<close> sets up.\<close>

definition NewDaemon :: "'c callbacks \<Rightarrow> u64 \<Rightarrow> 64 word \<Rightarrow> world \<Rightarrow> 'c \<Rightarrow> u64 \<times> 'c marker" where
  "NewDaemon cbs tcev tttl w c =
     (let chk = (case cb_Check cbs of None \<Rightarrow> no_check | Some f \<Rightarrow> f);
          tombCollectionEvents = (if tcev \<noteq> 0 then tcev else DefaultTombCollectionEvents);
          ttl = (if tttl \<noteq> 0 then tttl else DefaultTombTTL)
      in (tombCollectionEvents,
          \<lparr>processes = True, commRules = True, activePolicy = True, mirror = [], check = chk,
           generation = 1, policyGeneration = 1,
           kernelPolicy = \<lparr>kp_Mode = KernelPolicyUserspaceOnly, kp_CommRules = []\<rparr>,
           callbacks = cbs, eventCounter = 0, installedCommRules = [], tombTTL = ttl,
           wld = w, env = c\<rparr>))"

text \<open>The replay \<^verbatim>\<open>Stop\<close> makes after the event loop has ended: every entry, without its mark.\<close>

definition stop_replay :: "'c marker \<Rightarrow> 'c marker" where
  "stop_replay m = replayProcessUpdates (\<lambda>_ value. Some (value\<lparr>HasMark := False\<rparr>)) m"

definition CombineChecks ::
    "(process_info \<Rightarrow> 'c \<Rightarrow> (i8 \<times> u64 \<times> bool) \<times> 'c) \<Rightarrow>
     (process_info \<Rightarrow> 'c \<Rightarrow> (i8 \<times> u64 \<times> bool) \<times> 'c) \<Rightarrow>
     process_info \<Rightarrow> 'c \<Rightarrow> (i8 \<times> u64 \<times> bool) \<times> 'c" where
  "CombineChecks left right info c =
     (let ((leftPriority, leftMark, leftOK), c) = left info c;
          ((rightPriority, rightMark, rightOK), c) = right info c
      in (if leftOK \<and> rightOK then
            (if i8_less leftPriority rightPriority then (rightPriority, rightMark, True)
             else (leftPriority, leftMark, True))
          else if rightOK then (rightPriority, rightMark, True)
          else if leftOK then (leftPriority, leftMark, True)
          else (0, 0, False), c))"

section \<open>Steps\<close>

inductive daemon_step :: "u64 \<Rightarrow> 'c marker \<Rightarrow> 'c marker \<Rightarrow> bool" for tcev :: u64 where
  step_event: "Generation (ev_Value event) \<le> generation m \<Longrightarrow>
    daemon_step tcev m (process_record tcev event m)"
| step_log: "daemon_step tcev m (logf entry m)"
| step_traverse: "daemon_step tcev m (snd (traverseProcessTreeLocked m))"
| step_policy: "daemon_step tcev m (snd (setKernelPolicy policy chk m))"
| step_checker: "daemon_step tcev m (snd (setChecker chk' m))"
| step_bump: "daemon_step tcev m (snd (bumpGeneration m))"
| step_mark: "daemon_step tcev m (setProcessMark key priority mark m)"
| step_hooks: "daemon_step tcev m (updateHooks cbs m)"
| step_stop: "daemon_step tcev m (stop_replay m)"

definition daemon_inv :: "'c marker \<Rightarrow> bool" where
  "daemon_inv m \<longleftrightarrow>
     maps_ok m \<and> wfmap (mirror m) \<and> rules_inv m \<and> gens_le (generation m) (mirror m)"

section \<open>The policy tables through events and collections\<close>

lemma fork_tables [simp]:
  "policy_tables (wld (snd (fork_known event m))) = policy_tables (wld m)"
  "policy_tables (wld (snd (fork_demote event known m))) = policy_tables (wld m)"
  "policy_tables (wld (snd (fork_decide event info known m))) = policy_tables (wld m)"
  by (simp_all add: fork_known_def fork_demote_def fork_decide_def split_beta Let_def
      split: option.splits)

lemma exec_tables [simp]:
  "policy_tables (wld (snd (exec_known event m))) = policy_tables (wld m)"
  "policy_tables (wld (snd (exec_decide event info known m))) = policy_tables (wld m)"
  by (simp_all add: exec_known_def exec_decide_def split_beta Let_def split: option.splits)

lemma handler_tables [simp]:
  "policy_tables (wld (handleFork event info m)) = policy_tables (wld m)"
  "policy_tables (wld (handleExit event info m)) = policy_tables (wld m)"
  "policy_tables (wld (handleExec event info m)) = policy_tables (wld m)"
  "policy_tables (wld (handleUnknown event info m)) = policy_tables (wld m)"
proof -
  have report: "policy_tables (wld (case r of None \<Rightarrow> m' | Some v \<Rightarrow>
      if \<not> HasMark v then m' else onProcessEvent (f v) m')) = policy_tables (wld m')"
    for r f and m' :: "'a marker" by (simp split: option.split)
  show "policy_tables (wld (handleFork event info m)) = policy_tables (wld m)"
    by (simp add: handleFork_def split_beta Let_def report)
  show "policy_tables (wld (handleExec event info m)) = policy_tables (wld m)"
    by (simp add: handleExec_def split_beta Let_def report)
  show "policy_tables (wld (handleExit event info m)) = policy_tables (wld m)"
    unfolding handleExit_def Let_def split_beta
    by (simp only: if_distrib [of wld] if_distrib [of policy_tables] onProcessEvent_frame
        upsert_tables wld_in_world clock_tables if_cancel)
  show "policy_tables (wld (handleUnknown event info m)) = policy_tables (wld m)"
    by (simp add: handleUnknown_def)
qed

lemma handleEvent_tables [simp]: "policy_tables (wld (handleEvent event m)) = policy_tables (wld m)"
  by (simp add: handleEvent_def split_beta Let_def still_policy_tables [OF procInfoFromEvent_still])

lemma find_dead_tables [simp]:
  "policy_tables (wld (snd (find_dead mm m))) = policy_tables (wld m)"
  by (induction mm arbitrary: m rule: gomap_induct)
    (simp_all add: split_beta Let_def still_policy_tables [OF procMatchesKey_still])

lemma tombstone_all_tables [simp]:
  "policy_tables (wld (tombstone_all now dead m)) = policy_tables (wld m)"
  by (induction dead arbitrary: m) (simp_all add: Let_def)

lemma regularCleanup_tables [simp]:
  "policy_tables (wld (snd (regularCleanupLocked m))) = policy_tables (wld m)"
  by (simp add: regularCleanupLocked_def tombstoneDeadProcessesLocked_def split_beta Let_def)

lemma process_map_tables [simp]:
  "policy_tables (snd (processes_Delete k w)) = policy_tables w"
  "policy_tables (snd (processes_BatchDelete keys w)) = policy_tables w"
  by (simp_all add: processes_Delete_def processes_BatchDelete_def syscall_def policy_tables_def
      split_beta Let_def)

lemma fallback_tables [simp]:
  "policy_tables (wld (snd (fallback_delete keys m))) = policy_tables (wld m)"
  by (induction keys arbitrary: m) (simp_all add: split_beta Let_def split: option.splits)

lemma collect_tables [simp]:
  "policy_tables (wld (snd (collectTombstones m))) = policy_tables (wld m)"
  by (simp add: collectTombstones_def delete_expired_def split_beta Let_def)

lemma rules_inv_cong:
  "settings m' = settings m \<Longrightarrow> policy_tables (wld m') = policy_tables (wld m) \<Longrightarrow>
   rules_inv m' = rules_inv m"
  using rules_cong [of m' m] by (simp add: rules_inv_def)

section \<open>The invariant is kept\<close>

lemma maps_ok_populate [simp]: "maps_ok m \<Longrightarrow> maps_ok (snd (populate_rules g rules keys m))"
  by (induction rules arbitrary: keys m)
    (simp_all add: deleteCommRuleKeys_def rememberUndeletedCommRules_def split_beta Let_def
      split: sum.splits option.splits)

lemma maps_ok_setKernelPolicyLocked:
  assumes "maps_ok m"
  shows "maps_ok (snd (setKernelPolicyLocked policy chk m))"
proof -
  have "maps_ok (snd (in_world listProcesses m))" by (rule maps_ok_in_world [OF assms]) simp
  then show ?thesis
    by (auto simp: setKernelPolicyLocked_def maps_ok_activate split_beta Let_def
        split: sum.splits option.splits)
qed

lemma rules_inv_eventCounter [simp]: "rules_inv (m\<lparr>eventCounter := c\<rparr>) = rules_inv m"
  by (simp add: rules_inv_def rules_base_def tracked_def active_complete_def complete_generation_def)

lemma gens_le_delete: "gens_le g mm \<Longrightarrow> gens_le g (fold mdel keys mm)"
  by (simp add: gens_le_def)

lemma gens_le_handleEvent:
  assumes "gens_le (generation m) (mirror m)" "Generation (ev_Value event) \<le> generation m"
  shows "gens_le (generation m) (mirror (handleEvent event m))"
proof (rule upserts_gens_le [OF handleEvent_upserts assms(1)])
  fix k v assume "event_entry event m k v"
  then show "Generation v \<le> generation m"
    using assms by (auto simp: event_entry_def fresh_def gens_le_def)
qed

lemma gens_le_traverse:
  assumes ok: "maps_ok m" and g: "gens_le (generation m) (mirror m)"
  shows "gens_le (generation m) (mirror (snd (traverseProcessTreeLocked m)))"
proof (rule upserts_gens_le [OF traverseProcessTreeLocked_upserts g])
  fix k v assume "(k, v) \<in> set (k_processes (wld m)) \<or> fresh (generation m) k v"
  then have "mget (mirror m) k = Some v \<or> Generation v = generation m"
    using ok by (auto simp: maps_ok_def synced_def fresh_def wfmap_get_iff [symmetric])
  then show "Generation v \<le> generation m" using g by (auto simp: gens_le_def)
qed

lemma gens_le_regularCleanup:
  assumes ok: "maps_ok m" and wf: "wfmap (mirror m)" and g: "gens_le (generation m) (mirror m)"
  shows "gens_le (generation m) (mirror (snd (regularCleanupLocked m)))"
proof -
  let ?m = "tombstoneDeadProcessesLocked m"
  have 1: "gens_le (generation m) (mirror ?m)"
    by (rule upserts_gens_le [OF tombstoneDead_upserts [OF wf] g])
      (use g in \<open>auto simp: buries_def gens_le_def\<close>)
  have "gens_le (generation m) (mirror (snd (traverseProcessTreeLocked (logf LogExpiredGeneration ?m))))"
    using gens_le_traverse [of "logf LogExpiredGeneration ?m"] 1 ok by simp
  with 1 show ?thesis by (simp add: regularCleanupLocked_def Let_def)
qed

lemma gens_le_collect:
  assumes ok: "maps_ok m" and wf: "wfmap (mirror m)" and g: "gens_le (generation m) (mirror m)"
  shows "gens_le (generation m) (mirror (snd (collectTombstones m)))"
proof -
  obtain m' where m': "collectTombstones m = regularCleanupLocked m'" "maps_ok m'"
    "settings m' = settings m"
    "mirror m' = fold mdel (expired_keys (fst (nowBootNS (wld m)) - tombTTL m) (mirror m)) (mirror m)"
    by (rule collectTombstones_ok [OF ok wf])
  have "generation m' = generation m" using settingsD [OF m'(3)] by simp
  then show ?thesis
    using gens_le_regularCleanup [OF m'(2)] wf g by (simp add: m'(1,4) gens_le_delete)
qed

lemma daemon_inv_process_record:
  assumes inv: "daemon_inv m" and ev: "Generation (ev_Value event) \<le> generation m"
  shows "daemon_inv (process_record tcev event m)"
proof -
  let ?m = "handleEvent event m"
  have ok: "maps_ok ?m" "wfmap (mirror ?m)" "rules_inv ?m" "gens_le (generation m) (mirror ?m)"
    using inv ev by (simp_all add: daemon_inv_def maps_ok_handleEvent wfmap_handleEvent
        gens_le_handleEvent rules_inv_cong [of ?m m])
  then have ok': "maps_ok (?m\<lparr>eventCounter := c\<rparr>)" for c
    by (simp add: maps_ok_def synced_def)
  note col = maps_ok_collect [OF ok'] wfmap_collect [of "?m\<lparr>eventCounter := 0\<rparr>"]
    gens_le_collect [OF ok', of 0]
    rules_inv_cong [of "snd (collectTombstones (?m\<lparr>eventCounter := 0\<rparr>))" "?m\<lparr>eventCounter := 0\<rparr>"]
  have log: "daemon_inv (logf e m') = daemon_inv m'" if "maps_ok m'" for e and m' :: "'a marker"
    using that by (simp add: daemon_inv_def rules_inv_cong [of "logf e m'" m'])
  show ?thesis
    using ok ok' col log [of "snd (collectTombstones (?m\<lparr>eventCounter := 0\<rparr>))"]
    by (auto simp: process_record_def daemon_inv_def split_beta Let_def split: option.splits)
qed

section \<open>The traversal of a policy switch\<close>

lemma static_syscalls [simp]:
  "static_fs fs w \<Longrightarrow> static_fs fs (snd (comm_rules_Put k v w))"
  "static_fs fs w \<Longrightarrow> static_fs fs (snd (comm_rules_Delete k w))"
  "static_fs fs w \<Longrightarrow> static_fs fs (snd (active_policy_Put s w))"
  "static_fs fs w \<Longrightarrow> static_fs fs (snd (processes_Iterate w))"
  by (simp_all add: static_fs_def comm_rules_Put_def comm_rules_Delete_def active_policy_Put_def
      processes_Iterate_def syscall_def split_beta Let_def)

lemma static_delete_rule_keys [simp]:
  "static_fs fs (wld m) \<Longrightarrow> static_fs fs (wld (snd (delete_rule_keys entry keys m)))"
  by (induction keys arbitrary: m) (simp_all add: split_beta Let_def split: option.split)

lemma static_cleanup [simp]:
  "static_fs fs (wld m) \<Longrightarrow> static_fs fs (wld (cleanupInactiveCommRulesLocked a m))"
proof -
  have "static_fs fs (wld m) \<Longrightarrow> static_fs fs (wld (cleanup_loop a installed m))"
    for installed and m :: "'a marker"
    by (induction installed arbitrary: m rule: gomap_induct)
      (simp_all add: cleanup_generation_def split_beta Let_def)
  then show "static_fs fs (wld m) \<Longrightarrow> static_fs fs (wld (cleanupInactiveCommRulesLocked a m))"
    by (simp add: cleanupInactiveCommRulesLocked_def)
qed

lemma rule_ops_static [simp]:
  "static_fs fs (wld m) \<Longrightarrow> static_fs fs (wld (snd (populate_rules g rules keys m)))"
  "static_fs fs (wld m) \<Longrightarrow> static_fs fs (wld (snd (activate_policy policy chk g keys m)))"
  by (induction rules arbitrary: keys m)
    (simp_all add: deleteCommRuleKeys_def rememberUndeletedCommRules_def activate_policy_def
      split_beta Let_def split: sum.split option.split)

lemma rule_ops_mirror [simp]:
  "mirror (cleanup_loop a installed m) = mirror m"
  "mirror (cleanupInactiveCommRulesLocked a m) = mirror m"
  "mirror (snd (populate_rules g rules keys m)) = mirror m"
  "mirror (snd (activate_policy policy chk g keys m)) = mirror m"
proof -
  show loop: "mirror (cleanup_loop a installed m) = mirror m" for installed and m :: "'a marker"
    by (induction installed arbitrary: m rule: gomap_induct)
      (simp_all add: cleanup_generation_def split_beta Let_def)
  then show "mirror (cleanupInactiveCommRulesLocked a m) = mirror m"
    by (simp add: cleanupInactiveCommRulesLocked_def)
  show "mirror (snd (populate_rules g rules keys m)) = mirror m"
    by (induction rules arbitrary: keys m)
      (simp_all add: deleteCommRuleKeys_def rememberUndeletedCommRules_def
        split_beta Let_def split: sum.split option.split)
  show "mirror (snd (activate_policy policy chk g keys m)) = mirror m"
    by (simp add: deleteCommRuleKeys_def rememberUndeletedCommRules_def activate_policy_def
        split_beta Let_def split: option.split)
qed

lemma finish_mirror:
  "mirror (finish_switch policy g keys m) =
     mirror (snd (traverseProcessTreeLocked (m\<lparr>installedCommRules := mput g keys (installedCommRules m)\<rparr>)))"
  by (simp add: finish_switch_def split_beta Let_def split: option.split)

lemma listProcesses_static [simp]: "static_fs fs w \<Longrightarrow> static_fs fs (snd (listProcesses w))"
proof -
  have "static_fs fs w \<Longrightarrow> static_fs fs (snd (listProcesses_loop entries w))" for entries w
    by (induction entries arbitrary: w rule: gomap_induct)
      (simp_all add: split_beta Let_def split: sum.split)
  then show "static_fs fs w \<Longrightarrow> static_fs fs (snd (listProcesses w))"
    by (simp add: listProcesses_def split_beta Let_def split: option.split)
qed

lemma activate_fields:
  "activate_policy policy chk g keys m = (None, m') \<Longrightarrow> generation m' = g \<and> check m' = chk"
  by (auto simp: activate_policy_def split_beta Let_def split: if_splits option.splits)

text \<open>A successful switch ends with a traversal of the old mirror at the new generation.\<close>

lemma switch_traversal:
  assumes ok: "maps_ok m" and run: "setKernelPolicyLocked policy chk m = ((g, None), m')"
  obtains x where "maps_ok x" "mirror x = mirror m" "generation x = g" "check x = chk"
    "mirror m' = mirror (snd (traverseProcessTreeLocked x))"
    "\<And>fs. static_fs fs (wld m) \<Longrightarrow> static_fs fs (wld x)"
proof -
  let ?m1 = "snd (in_world listProcesses m)"
  let ?m2 = "cleanupInactiveCommRulesLocked (generation m) ?m1"
  have ok2: "maps_ok ?m2" using ok by (simp add: maps_ok_in_world)
  obtain keys m4 m5 where pop: "populate_rules g (kp_CommRules policy) [] (?m2\<lparr>policyGeneration := g\<rparr>) = (Inr keys, m4)"
    and act: "activate_policy policy chk g keys m4 = (None, m5)" and m': "m' = finish_switch policy g keys m5"
    using run by (auto simp: setKernelPolicyLocked_def split_beta Let_def prod_eq_iff
        split: sum.splits option.splits)
  let ?x = "m5\<lparr>installedCommRules := mput g keys (installedCommRules m5)\<rparr>"
  have ok4: "maps_ok m4" "mirror m4 = mirror m"
    using maps_ok_populate [of "?m2\<lparr>policyGeneration := g\<rparr>" g "kp_CommRules policy" "[]"] ok2 pop
      rule_ops_mirror(3) [of g "kp_CommRules policy" "[]" "?m2\<lparr>policyGeneration := g\<rparr>"] by simp_all
  then have ok5: "maps_ok m5" "mirror m5 = mirror m"
    using maps_ok_activate(2) [OF ok4(1), of policy chk g keys] act
      rule_ops_mirror(4) [of policy chk g keys m4] by simp_all
  show thesis
  proof (rule that [of ?x])
    show "maps_ok ?x" "mirror ?x = mirror m" "generation ?x = g" "check ?x = chk"
      using ok5 activate_fields [OF act] by simp_all
    show "mirror m' = mirror (snd (traverseProcessTreeLocked ?x))" by (simp add: m' finish_mirror)
    show "static_fs fs (wld m) \<Longrightarrow> static_fs fs (wld ?x)" for fs
      using rule_ops_static(1) [of fs "?m2\<lparr>policyGeneration := g\<rparr>" g "kp_CommRules policy" "[]"] pop
        rule_ops_static(2) [of fs m4 policy chk g keys] act by simp
  qed
qed

lemma traverse_wfmap: "wfmap (mirror m) \<Longrightarrow> wfmap (mirror (snd (traverseProcessTreeLocked m)))"
  by (rule upserts_wfmap [OF traverseProcessTreeLocked_upserts])

lemma gens_le_mono: "gens_le g mm \<Longrightarrow> g \<le> g' \<Longrightarrow> gens_le g' mm"
  unfolding gens_le_def by (meson order_trans)

lemma daemon_inv_switch:
  assumes inv: "daemon_inv m" and np: "normal_policy policy"
  shows "daemon_inv (snd (setKernelPolicyLocked policy chk m))"
proof -
  obtain g err m' where run: "setKernelPolicyLocked policy chk m = ((g, err), m')"
    by (metis prod.collapse)
  have ok: "maps_ok m" and ri: "rules_inv m" and wf: "wfmap (mirror m)"
    and gl: "gens_le (generation m) (mirror m)" using inv by (simp_all add: daemon_inv_def)
  note spec = setKernelPolicyLocked_spec [OF ri np run]
  have ok': "maps_ok m'" using maps_ok_setKernelPolicyLocked [OF ok, of policy chk] run by simp
  have "wfmap (mirror m') \<and> gens_le (generation m') (mirror m')"
  proof (cases err)
    case None
    obtain x where x: "maps_ok x" "mirror x = mirror m" "generation x = g" "check x = chk"
      "mirror m' = mirror (snd (traverseProcessTreeLocked x))"
      by (rule switch_traversal [OF ok run [unfolded None]]) blast
    have g: "policyGeneration m < g" "generation m' = g" using spec(2) None by (simp_all add: switch_done_def)
    have "generation m \<le> policyGeneration m" using ri by (simp add: rules_inv_def rules_base_def)
    also have "policyGeneration m < g" by (rule g)
    finally have "gens_le g (mirror x)" using gens_le_mono [OF gl] x(2) by simp
    then show ?thesis
      using gens_le_traverse [OF x(1)] traverse_wfmap [of x] wf x g(2) by simp
  next
    case (Some e)
    then show ?thesis using spec(2) wf gl by (simp add: switch_refused_def)
  qed
  then show ?thesis using ok' spec(1) run by (simp add: daemon_inv_def)
qed

lemma daemon_inv_policy:
  assumes "daemon_inv m"
  shows "daemon_inv (snd (setKernelPolicy policy chk m))"
proof (cases "validateAndNormalizeKernelPolicy policy")
  case (Inl e)
  then show ?thesis using assms by (simp add: setKernelPolicy_def)
next
  case (Inr p)
  then show ?thesis
    using daemon_inv_switch [OF assms normalize_normal(1) [OF Inr]] by (simp add: setKernelPolicy_def)
qed

section \<open>Reachable states\<close>

lemma replay_frame [simp]:
  "settings (replayProcessUpdates f m) = settings m" "mirror (replayProcessUpdates f m) = mirror m"
  "wld (replayProcessUpdates f m) = wld m"
  by (simp_all add: replayProcessUpdates_def split: option.split)

lemma daemon_inv_same:
  assumes "daemon_inv m" "mirror m' = mirror m" "wld m' = wld m" "processes m' = processes m"
    "generation m' = generation m" "rules_inv m' = rules_inv m"
  shows "daemon_inv m'"
  using assms by (simp add: daemon_inv_def maps_ok_def synced_def)

lemma daemon_inv_mark:
  assumes "daemon_inv m"
  shows "daemon_inv (setProcessMark key priority mark m)"
proof -
  let ?v = "fst (newProcessValue priority mark True m)"
  let ?m' = "setProcessMark key priority mark m"
  have mm: "mirror ?m' = mirror_upsert key ?v (mirror m)" "settings ?m' = settings m"
    "policy_tables (wld ?m') = policy_tables (wld m)"
    by (simp_all add: setProcessMark_def split_beta Let_def)
  have "gens_le (generation m) (mirror ?m')"
    unfolding mm(1) using assms
    by (intro upserts_gens_le [OF upserts_one [of "\<lambda>k v. k = key \<and> v = ?v"]]) (auto simp: daemon_inv_def)
  moreover have "generation ?m' = generation m" using settingsD [OF mm(2)] by simp
  moreover have "maps_ok ?m'"
    using assms by (simp add: setProcessMark_def split_beta Let_def daemon_inv_def)
  ultimately show ?thesis
    using assms rules_inv_cong [OF mm(2,3)] by (simp add: daemon_inv_def mm(1))
qed

lemma rules_inv_callbacks [simp]: "rules_inv (m\<lparr>callbacks := cbs\<rparr>) = rules_inv m"
  by (simp add: rules_inv_def rules_base_def tracked_def active_complete_def complete_generation_def)

theorem daemon_step_inv:
  assumes "daemon_step tcev m m'" "daemon_inv m"
  shows "daemon_inv m'"
  using assms
proof cases
  case (step_event event)
  then show ?thesis using daemon_inv_process_record assms(2) by blast
next
  case (step_log entry)
  then show ?thesis
    unfolding step_log
    by (intro daemon_inv_same [OF assms(2)] rules_inv_cong) simp_all
next
  case step_traverse
  have "maps_ok m" "wfmap (mirror m)" "gens_le (generation m) (mirror m)" "rules_inv m"
    using assms(2) by (simp_all add: daemon_inv_def)
  then show ?thesis
    using step_traverse gens_le_traverse [of m] traverse_wfmap [of m]
      rules_inv_cong [of "snd (traverseProcessTreeLocked m)" m]
    by (simp add: daemon_inv_def)
next
  case (step_policy policy chk)
  then show ?thesis using daemon_inv_policy [OF assms(2)] by simp
next
  case (step_checker chk)
  then show ?thesis using daemon_inv_policy [OF assms(2)] by (simp add: setChecker_def)
next
  case step_bump
  have "normal_policy (kernelPolicy m)"
    using assms(2) by (simp add: daemon_inv_def rules_inv_def active_complete_def)
  then show ?thesis using step_bump daemon_inv_switch [OF assms(2)] by (simp add: bumpGeneration_def)
next
  case (step_mark key priority mark)
  then show ?thesis using daemon_inv_mark [OF assms(2)] by simp
next
  case (step_hooks cbs)
  let ?c = "(callbacks m)\<lparr>cb_ProcessEvent := cb_ProcessEvent cbs,
    cb_ProcessUpdate := cb_ProcessUpdate cbs, cb_Logf := cb_Logf cbs\<rparr>"
  have "daemon_inv (m\<lparr>callbacks := ?c\<rparr>)" by (rule daemon_inv_same [OF assms(2)]) simp_all
  then have "daemon_inv (replayProcessUpdates f (m\<lparr>callbacks := ?c\<rparr>))" for f
    using settingsD [OF replay_frame(1) [of f "m\<lparr>callbacks := ?c\<rparr>"]]
      rules_inv_cong [OF replay_frame(1), of f "m\<lparr>callbacks := ?c\<rparr>"]
    by (elim daemon_inv_same) simp_all
  then show ?thesis by (simp add: step_hooks updateHooks_def)
next
  case step_stop
  have "settings m' = settings m" "mirror m' = mirror m" "wld m' = wld m"
    by (simp_all add: step_stop stop_replay_def)
  then show ?thesis
    using rules_inv_cong [of m' m] settingsD [of m' m] by (intro daemon_inv_same [OF assms(2)]) simp_all
qed

text \<open>The freshly created maps: empty tables, a zero slot.\<close>

definition fresh_tables :: "world \<Rightarrow> bool" where
  "fresh_tables w \<longleftrightarrow>
     k_processes w = [] \<and> k_comm_rules w = [] \<and>
     k_active_policy w = \<lparr>ps_Generation = 0, ps_Mode = 0\<rparr>"

definition fresh_world :: "world \<Rightarrow> bool" where
  "fresh_world w \<longleftrightarrow> fresh_tables w \<and> no_faults w"

lemma NewDaemon_rules_inv: "fresh_tables w \<Longrightarrow> rules_inv (snd (NewDaemon cbs tcev tttl w c))"
  by (simp add: fresh_tables_def NewDaemon_def Let_def rules_inv_def rules_base_def tracked_def
      active_complete_def complete_generation_def rule_entries_def normal_policy_def)

lemma NewDaemon_inv: "fresh_world w \<Longrightarrow> daemon_inv (snd (NewDaemon cbs tcev tttl w c))"
  using NewDaemon_rules_inv [of w cbs tcev tttl c]
  by (simp add: fresh_world_def fresh_tables_def daemon_inv_def NewDaemon_def Let_def maps_ok_def
      synced_def gens_le_def)

inductive daemon_steps :: "u64 \<Rightarrow> 'c marker \<Rightarrow> 'c marker \<Rightarrow> bool" for tcev :: u64 where
  steps_refl: "daemon_steps tcev m m"
| steps_step: "daemon_steps tcev m m' \<Longrightarrow> daemon_step tcev m' m'' \<Longrightarrow> daemon_steps tcev m m''"

lemma daemon_steps_inv: "daemon_steps tcev m m' \<Longrightarrow> daemon_inv m \<Longrightarrow> daemon_inv m'"
  by (induction rule: daemon_steps.induct) (auto intro: daemon_step_inv)

section \<open>The rule tables whatever fails\<close>

text \<open>
  The part of the invariant about the policy tables needs no system call to succeed: it holds
  in every reachable state, also when map operations fail at any point.
\<close>

lemma rules_inv_process_record: "rules_inv m \<Longrightarrow> rules_inv (process_record tcev event m)"
proof -
  assume "rules_inv m"
  then have ok: "rules_inv (handleEvent event m)" by (simp add: rules_inv_cong [of "handleEvent event m" m])
  have col: "rules_inv (snd (collectTombstones m')) = rules_inv m'" for m' :: "'a marker"
    by (rule rules_inv_cong) simp_all
  have log: "rules_inv (logf e m') = rules_inv m'" for e and m' :: "'a marker"
    by (rule rules_inv_cong) simp_all
  show ?thesis
    using ok col log by (auto simp: process_record_def split_beta Let_def split: option.splits)
qed

lemma rules_inv_policy: "rules_inv m \<Longrightarrow> rules_inv (snd (setKernelPolicy policy chk m))"
proof (cases "validateAndNormalizeKernelPolicy policy")
  case (Inr p)
  assume "rules_inv m"
  then have "rules_inv (snd (setKernelPolicyLocked p f m))" for f
    by (rule setKernelPolicyLocked_spec(1) [OF _ normalize_normal(1) [OF Inr], of m f
          "fst (fst (setKernelPolicyLocked p f m))" "snd (fst (setKernelPolicyLocked p f m))"]) simp
  then show ?thesis by (simp add: setKernelPolicy_def Inr)
qed (simp add: setKernelPolicy_def)

lemma daemon_step_rules:
  assumes "daemon_step tcev m m'" "rules_inv m"
  shows "rules_inv m'"
  using assms
proof cases
  case (step_event event)
  then show ?thesis using rules_inv_process_record assms(2) by blast
next
  case (step_policy policy chk)
  then show ?thesis using rules_inv_policy [OF assms(2)] by simp
next
  case (step_checker chk)
  then show ?thesis using rules_inv_policy [OF assms(2)] by (simp add: setChecker_def)
next
  case step_bump
  have "normal_policy (kernelPolicy m)"
    using assms(2) by (simp add: rules_inv_def active_complete_def)
  then show ?thesis
    using setKernelPolicyLocked_spec(1) [OF assms(2), of "kernelPolicy m" "check m"]
    unfolding step_bump bumpGeneration_def by (metis prod.collapse)
next
  case (step_hooks cbs)
  let ?c = "(callbacks m)\<lparr>cb_ProcessEvent := cb_ProcessEvent cbs,
    cb_ProcessUpdate := cb_ProcessUpdate cbs, cb_Logf := cb_Logf cbs\<rparr>"
  have "rules_inv (replayProcessUpdates f (m\<lparr>callbacks := ?c\<rparr>)) = rules_inv (m\<lparr>callbacks := ?c\<rparr>)" for f
    by (rule rules_inv_cong) simp_all
  with assms(2) show ?thesis by (simp add: step_hooks updateHooks_def)
next
  case (step_mark key priority mark)
  have "rules_inv (setProcessMark key priority mark m) = rules_inv m"
    by (rule rules_inv_cong) (simp_all add: setProcessMark_def split_beta Let_def)
  with assms(2) show ?thesis by (simp add: step_mark)
next
  case step_log
  then show ?thesis using assms(2) rules_inv_cong [of m' m] by simp
next
  case step_traverse
  then show ?thesis using assms(2) rules_inv_cong [of m' m] by simp
next
  case step_stop
  then show ?thesis using assms(2) rules_inv_cong [of m' m] by (simp add: stop_replay_def)
qed

lemma daemon_steps_rules: "daemon_steps tcev m m' \<Longrightarrow> rules_inv m \<Longrightarrow> rules_inv m'"
  by (induction rule: daemon_steps.induct) (auto intro: daemon_step_rules)

text \<open>
  What the exec program sees of the policy is not disturbed by writes to other generations.
\<close>

lemma away_view:
  assumes "rules_inv m" "rule_writes (\<lambda>k. rk_Generation k \<noteq> generation m \<and> 0 < rk_Generation k) (wld m) w"
  shows "exec_view w = exec_view (wld m)"
  using assms(1) by (intro rule_writes_view [OF assms(2)]) (auto simp: rules_inv_def active_complete_def)

lemma setKernelPolicy_outcome:
  assumes inv: "rules_inv m" and run: "setKernelPolicy policy chk m = ((g, err), m')"
  shows "case err of
      Some e \<Rightarrow> exec_view (wld m') = exec_view (wld m) \<and> g = generation m \<and>
        generation m' = generation m \<and> kernelPolicy m' = kernelPolicy m \<and>
        check m' = check m \<and> mirror m' = mirror m
    | None \<Rightarrow> \<exists>policy' w w'. validateAndNormalizeKernelPolicy policy = Inr policy' \<and>
        rule_writes (\<lambda>k. rk_Generation k \<noteq> generation m) (wld m) w \<and>
        exec_view w = exec_view (wld m) \<and>
        active_policy_Put \<lparr>ps_Generation = g, ps_Mode = kp_Mode policy'\<rparr> w = (None, w') \<and>
        exec_view w' = (\<lparr>ps_Generation = g, ps_Mode = kp_Mode policy'\<rparr>,
          mget (rule_entries g (kp_CommRules policy'))) \<and>
        rule_writes (\<lambda>k. rk_Generation k \<noteq> g) w' (wld m') \<and>
        exec_view (wld m') = exec_view w'"
proof (cases "validateAndNormalizeKernelPolicy policy")
  case (Inl e)
  then show ?thesis using run by (auto simp: setKernelPolicy_def currentGeneration_def)
next
  case (Inr p)
  obtain f where run': "setKernelPolicyLocked p f m = ((g, err), m')"
    using run Inr by (auto simp: setKernelPolicy_def)
  note out = setKernelPolicyLocked_spec(2) [OF inv normalize_normal(1) [OF Inr] run']
  show ?thesis
  proof (cases err)
    case (Some e)
    then have ref: "switch_refused m g m'" using out by simp
    then have "exec_view (wld m') = exec_view (wld m)"
      by (intro away_view [OF inv]) (simp add: switch_refused_def)
    with ref Some show ?thesis by (simp add: switch_refused_def)
  next
    case None
    with out obtain w w' where
      w: "rule_writes (\<lambda>k. rk_Generation k \<noteq> generation m \<and> 0 < rk_Generation k) (wld m) w"
      and tab: "\<And>k. rk_Generation k = g \<Longrightarrow> mget (k_comm_rules w) k = mget (rule_entries g (kp_CommRules p)) k"
      and put: "active_policy_Put \<lparr>ps_Generation = g, ps_Mode = kp_Mode p\<rparr> w = (None, w')"
      and w': "rule_writes (\<lambda>k. rk_Generation k \<noteq> g \<and> 0 < rk_Generation k) w' (wld m')"
      by (auto simp: switch_done_def)
    have slot: "k_active_policy w' = \<lparr>ps_Generation = g, ps_Mode = kp_Mode p\<rparr>" "k_comm_rules w' = k_comm_rules w"
      using active_policy_Put_ok [OF put] by simp_all
    then have view: "exec_view w' = (\<lparr>ps_Generation = g, ps_Mode = kp_Mode p\<rparr>,
        mget (rule_entries g (kp_CommRules p)))"
      by (auto simp: exec_view_def fun_eq_iff tab rule_entries_other_generation)
    have "rule_writes (\<lambda>k. rk_Generation k \<noteq> generation m) (wld m) w"
      "rule_writes (\<lambda>k. rk_Generation k \<noteq> g) w' (wld m')"
      using rule_writes_mono [OF w] rule_writes_mono [OF w'] by simp_all
    moreover have "exec_view (wld m') = exec_view w'"
      using slot by (intro rule_writes_view [OF w']) simp
    ultimately show ?thesis
      using None Inr put view away_view [OF inv w] by auto
  qed
qed

text \<open>Nothing but an unreadable \<^verbatim>\<open>/proc\<close> or a failing system call refuses a valid policy.\<close>

lemma switch_succeeds:
  assumes inv: "daemon_inv m" and np: "normal_policy p"
    and ls: "fst (listProcesses (wld m)) = Inr procs" and room: "policyGeneration m \<noteq> - 1"
  defines "g \<equiv> policyGeneration m + 1"
  shows "\<exists>m'. setKernelPolicyLocked p chk m = ((g, None), m') \<and>
    mget (k_comm_rules (wld m')) = mget (rule_entries g (kp_CommRules p))"
proof -
  have ri: "rules_inv m" and ok: "maps_ok m" using inv by (simp_all add: daemon_inv_def)
  have "maxU64 (policyGeneration m) (generation m) = policyGeneration m"
    using ri by (auto simp: maxU64_def rules_inv_def rules_base_def)
  then have "nextPolicyGeneration (maxU64 (policyGeneration m) (generation m)) = Some g"
    using room by (simp add: nextPolicyGeneration_def g_def)
  from faultless_switch [OF ok np ls this ri, of chk] obtain m' where
    run: "setKernelPolicyLocked p chk m = ((g, None), m')"
    and only: "\<And>g'. g' \<noteq> g \<Longrightarrow> mget (installedCommRules m') g' = None" by blast
  note spec = setKernelPolicyLocked_spec [OF ri np run]
  then have g: "generation m' = g" "kernelPolicy m' = p" by (simp_all add: switch_done_def)
  have "ruletab m' k = mget (rule_entries g (kp_CommRules p)) k" for k
  proof (cases "rk_Generation k = g")
    case True
    then show ?thesis using spec(1) g by (simp add: rules_inv_def active_complete_def complete_generation_def)
  next
    case False
    have "ruletab m' k = None"
    proof (rule ccontr)
      assume "ruletab m' k \<noteq> None"
      then obtain ks where "mget (installedCommRules m') (rk_Generation k) = Some ks"
        using spec(1) by (auto simp: rules_inv_def tracked_def)
      then show False using only [OF False] by simp
    qed
    then show ?thesis using False by (simp add: rule_entries_other_generation)
  qed
  then show ?thesis using run by blast
qed

section \<open>Marks after a policy switch\<close>

text \<open>While \<^verbatim>\<open>/proc\<close> does not change, every listing gives the same processes.\<close>

lemma proc_reads_static [simp]:
  assumes "static_fs fs w"
  shows "fst (readProcText pid name w) =
      (case fs_file fs (proc_path pid name) of None \<Rightarrow> '''' | Some text \<Rightarrow> trimProcLine text)"
    and "fst (readProcCmdline pid w) =
      (case fs_file fs (proc_path pid ''cmdline'') of None \<Rightarrow> '''' | Some text \<Rightarrow> cmdline_text text)"
    and "fst (readProcExe pid w) =
      (case fs_link fs (proc_path pid ''exe'') of None \<Rightarrow> '''' | Some path \<Rightarrow> path)"
    and "static_fs fs (snd (readProcText pid name w))" "static_fs fs (snd (readProcCmdline pid w))"
  using assms
  by (simp_all add: readProcText_def readProcCmdline_def readProcExe_def split_beta Let_def
      split: option.split)

definition proc_of :: "procfs \<Rightarrow> u32 \<Rightarrow> proc_error + process_info" where
  "proc_of fs pid =
     (case fs_file fs (proc_path pid ''stat'') of
        None \<Rightarrow> Inl ErrRead
      | Some text \<Rightarrow>
          (case parseProcStat text of
             Inl e \<Rightarrow> Inl e
           | Inr (ppid, startTime) \<Rightarrow>
               Inr \<lparr>pi_Key = \<lparr>Tgid = pid, StartTime = startTime\<rparr>, pi_PPID = ppid,
                 pi_Comm = (case fs_file fs (proc_path pid ''comm'') of
                   None \<Rightarrow> '''' | Some text \<Rightarrow> trimProcLine text),
                 pi_Cmdline = (case fs_file fs (proc_path pid ''cmdline'') of
                   None \<Rightarrow> '''' | Some text \<Rightarrow> cmdline_text text),
                 pi_Exe = (case fs_link fs (proc_path pid ''exe'') of
                   None \<Rightarrow> '''' | Some path \<Rightarrow> path)\<rparr>))"

lemma readProcInfo_value: "static_fs fs w \<Longrightarrow> fst (readProcInfo pid w) = proc_of fs pid"
  by (simp add: readProcInfo_def proc_of_def look_fs_static [of fs] proc_reads_static [of fs]
      split_beta Let_def split: option.split sum.split)

fun procs_of :: "procfs \<Rightarrow> (string \<times> bool) list \<Rightarrow> process_info list" where
  "procs_of fs [] = []"
| "procs_of fs ((name, isDir) # entries) =
     (case (isDir, ParseUint 10 32 name) of
        (True, Inr pid) \<Rightarrow>
          (case proc_of fs (word_of_nat pid) of
             Inl _ \<Rightarrow> procs_of fs entries | Inr info \<Rightarrow> info # procs_of fs entries)
      | _ \<Rightarrow> procs_of fs entries)"

lemma listProcesses_loop_value: "static_fs fs w \<Longrightarrow> fst (listProcesses_loop entries w) = procs_of fs entries"
  by (induction entries arbitrary: w rule: gomap_induct)
    (simp_all add: readProcInfo_value [of fs] readProcInfo_static [of fs] split_beta Let_def
      split: sum.split)

text \<open>What a listing of an unchanging \<^verbatim>\<open>/proc\<close> gives.\<close>

definition listed :: "procfs \<Rightarrow> process_info list option" where
  "listed fs = map_option (procs_of fs) (fs_dir fs)"

lemma listProcesses_value:
  "static_fs fs w \<Longrightarrow> fst (listProcesses w) =
     (case listed fs of None \<Rightarrow> Inl ErrRead | Some procs \<Rightarrow> Inr procs)"
  by (simp add: listProcesses_def listed_def listProcesses_loop_value [of fs] split_beta Let_def
      split: option.split)

lemma refresh_static [simp]:
  "maps_ok m \<Longrightarrow> static_fs fs (wld m) \<Longrightarrow> static_fs fs (wld (snd (refreshMirrorFromKernelLocked m)))"
  and refresh_mirror: "maps_ok m \<Longrightarrow> mirror (snd (refreshMirrorFromKernelLocked m)) = mirror m"
proof -
  assume ok: "maps_ok m"
  have it: "fst (processes_Iterate (wld m)) = (k_processes (wld m), False)"
    using ok by (simp add: maps_ok_def no_faults_def processes_Iterate_def)
  have "\<forall>(k, v) \<in> set (k_processes (wld m)). mget (mirror m) k = Some v"
    using ok by (auto simp: maps_ok_def synced_def wfmap_get_iff [symmetric])
  note id = refresh_loop_id [OF this]
  show "mirror (snd (refreshMirrorFromKernelLocked m)) = mirror m"
    using it id by (simp add: refreshMirrorFromKernelLocked_def split_beta Let_def)
  show "static_fs fs (wld m) \<Longrightarrow> static_fs fs (wld (snd (refreshMirrorFromKernelLocked m)))"
    using it id by (simp add: refreshMirrorFromKernelLocked_def split_beta Let_def)
qed

lemma traverse_effective:
  assumes ok: "maps_ok m" and fs: "static_fs fs (wld m)" and ls: "listed fs = Some procs"
    and l: "listing procs" and root: "\<And>p. p \<in> set procs \<Longrightarrow> rooted procs p"
    and zero: "\<And>p. p \<in> set procs \<Longrightarrow> pid_of p \<noteq> 0" and d: "decides m d"
    and st: "\<And>p. p \<in> set procs \<Longrightarrow> stale (generation m) (mget (mirror m) (pi_Key p))"
    and p: "p \<in> set procs"
  shows "value_marks (generation m) (mget (mirror (snd (traverseProcessTreeLocked m))) (pi_Key p)) x \<longleftrightarrow>
    effective d procs p x"
proof -
  let ?r = "snd (refreshMirrorFromKernelLocked m)"
  let ?m = "snd (in_world listProcesses ?r)"
  have ls': "fst (listProcesses (wld ?r)) = Inr procs"
    using listProcesses_value [OF refresh_static [OF ok fs]] ls by simp
  have eq: "mirror (snd (traverseProcessTreeLocked m)) = mirror (snd (walk_all procs ?m))"
    using refresh_succeeds [OF ok] ls'
    by (simp add: traverseProcessTreeLocked_def traverseProcessesLocked_mirror split_beta)
  have m: "mirror ?m = mirror m" "generation ?m = generation m" by (simp_all add: refresh_mirror [OF ok])
  have "settings ?m = settings m" by simp
  then have d': "decides ?m d" using d decides_settings by blast
  show ?thesis
    using walk_all_effective [OF l root zero d' _ p, of x] st m by (simp add: eq)
qed

lemma switch_effective:
  assumes inv: "daemon_inv m" and run: "setKernelPolicy policy (Some chk) m = ((g, None), m')"
    and d: "\<And>info c. fst (chk info c) = d info"
    and fs: "static_fs fs (wld m)" and ls: "listed fs = Some procs"
    and l: "listing procs" and root: "\<And>p. p \<in> set procs \<Longrightarrow> rooted procs p"
    and zero: "\<And>p. p \<in> set procs \<Longrightarrow> pid_of p \<noteq> 0"
    and live: "\<And>p v. p \<in> set procs \<Longrightarrow> mget (mirror m) (pi_Key p) = Some v \<Longrightarrow> \<not> Tombstone v"
    and p: "p \<in> set procs"
  shows "value_marks g (mget (mirror m') (pi_Key p)) x \<longleftrightarrow> effective d procs p x"
proof -
  obtain policy' where norm: "validateAndNormalizeKernelPolicy policy = Inr policy'"
    and run': "setKernelPolicyLocked policy' chk m = ((g, None), m')"
    using run by (auto simp: setKernelPolicy_def split: sum.splits)
  have ok: "maps_ok m" and ri: "rules_inv m" and gl: "gens_le (generation m) (mirror m)"
    using inv by (simp_all add: daemon_inv_def)
  obtain y where y: "maps_ok y" "mirror y = mirror m" "generation y = g" "check y = chk"
    "mirror m' = mirror (snd (traverseProcessTreeLocked y))"
    "\<And>fs. static_fs fs (wld m) \<Longrightarrow> static_fs fs (wld y)"
    by (rule switch_traversal [OF ok run']) blast
  have "generation m \<le> policyGeneration m" using ri by (simp add: rules_inv_def rules_base_def)
  also have "policyGeneration m < g"
    using setKernelPolicyLocked_spec(2) [OF ri normalize_normal(1) [OF norm] run'] by (simp add: switch_done_def)
  finally have lt: "generation m < g" .
  have st: "stale (generation y) (mget (mirror y) (pi_Key q))" if "q \<in> set procs" for q
    using gl live [OF that] order.strict_trans1 [OF _ lt]
    by (auto simp: stale_def gens_le_def y(2,3) split: option.split)
  from traverse_effective [OF y(1) y(6) [OF fs] ls l root zero _ st p, of d x] d
  show ?thesis by (simp add: y(3,4,5) decides_def)
qed

end
