(* ===== verification/Bpf.thy ===== *)
theory Bpf
  imports Daemon
begin

text \<open>
  The tracepoint programs of \<^verbatim>\<open>mark.c\<close>. A program runs to its end on the BPF maps of the
  world; what the helpers answer is given: the boot clock, whether an update of \<^verbatim>\<open>processes\<close>
  finds room, and whether the ring has room for the event. The result is the event, if one was
  submitted, and the maps. The bytes of an event are in \<^verbatim>\<open>RingRecord\<close>.
\<close>

section \<open>Data\<close>

record traced_task =
  tt_pid :: u32
  tt_tgid :: u32
  tt_start_boottime :: u64
  tt_comm :: "i8 list"

definition KERNEL_POLICY_POSITIVE_ONLY :: u8 where "KERNEL_POLICY_POSITIVE_ONLY = 1"
definition KERNEL_POLICY_AUTHORITATIVE :: u8 where "KERNEL_POLICY_AUTHORITATIVE = 2"

definition process_key_from_task :: "traced_task \<Rightarrow> process_key" where
  "process_key_from_task t =
     \<lparr>Tgid = tt_tgid t, StartTime = tt_start_boottime t div NSEC_PER_USER_TICK\<rparr>"

text \<open>\<^verbatim>\<open>!v->tombstone && v->has_mark\<close>\<close>

abbreviation live_mark :: "process_value \<Rightarrow> bool" where
  "live_mark v \<equiv> \<not> Tombstone v \<and> HasMark v"

definition submit :: "bool \<Rightarrow> mark_event \<Rightarrow> world \<Rightarrow> mark_event option \<times> world" where
  "submit room event w = ((if room then Some event else None), w)"

section \<open>Fork\<close>

text \<open>
  What becomes of the child's entry. \<open>race\<close> is the value another writer may have inserted for
  the child between the lookup and the update, which does not overwrite (\<^verbatim>\<open>BPF_NOEXIST\<close>).
\<close>

definition bpf_inherit ::
    "process_key \<Rightarrow> process_key \<Rightarrow> u64 \<Rightarrow> process_value option \<Rightarrow> bool \<Rightarrow> world \<Rightarrow>
     (process_value \<times> bool) \<times> world" where
  "bpf_inherit key parent_key now race stored w =
     (case mget (k_processes w) key of
        Some existing \<Rightarrow> ((existing, live_mark existing), w)
      | None \<Rightarrow>
          (case mget (k_processes w) parent_key of
             None \<Rightarrow> ((zero_value, False), w)
           | Some parent_value \<Rightarrow>
               if \<not> live_mark parent_value then ((zero_value, False), w)
               else
                 (let value = parent_value\<lparr>Tombstone := False, Inheritance := False, Timestamp := now\<rparr>;
                      w = (case race of None \<Rightarrow> w
                           | Some other \<Rightarrow> w\<lparr>k_processes := mput key other (k_processes w)\<rparr>)
                  in if mget (k_processes w) key = None \<and> stored
                     then ((value, True), w\<lparr>k_processes := mput key value (k_processes w)\<rparr>)
                     else case mget (k_processes w) key of
                         Some existing \<Rightarrow> ((existing, live_mark existing), w)
                       | None \<Rightarrow> ((value, False), w))))"

definition handle_sched_process_fork ::
    "traced_task \<Rightarrow> traced_task \<Rightarrow> u64 \<Rightarrow> process_value option \<Rightarrow> bool \<Rightarrow> bool \<Rightarrow> world \<Rightarrow>
     mark_event option \<times> world" where
  "handle_sched_process_fork parent child now race stored room w =
     (if tt_pid child \<noteq> tt_tgid child then (None, w)
      else
        (let key = process_key_from_task child;
             parent_key = process_key_from_task parent;
             ((value, has_mark), w) = bpf_inherit key parent_key now race stored w
         in submit room
              \<lparr>ev_Type = 1, ev_Key = key, ev_ParentKey = parent_key, ev_Pid = tt_pid child,
               ev_Ppid = tt_tgid parent, ev_HasMark = has_mark, ev_Value = value,
               ev_Comm = tt_comm child\<rparr> w))"

section \<open>Exit\<close>

definition handle_sched_process_exit ::
    "traced_task \<Rightarrow> u64 \<Rightarrow> bool \<Rightarrow> bool \<Rightarrow> world \<Rightarrow> mark_event option \<times> world" where
  "handle_sched_process_exit t now stored room w =
     (if tt_pid t \<noteq> tt_tgid t then (None, w)
      else
        (let key = process_key_from_task t;
             ((value, has_mark), w) =
               (case mget (k_processes w) key of
                  None \<Rightarrow> ((zero_value, False), w)
                | Some existing \<Rightarrow>
                    (let value = existing\<lparr>Tombstone := True, Timestamp := now\<rparr>
                     in ((value, live_mark existing),
                         if stored then w\<lparr>k_processes := mput key value (k_processes w)\<rparr> else w)))
         in submit room
              \<lparr>ev_Type = 2, ev_Key = key, ev_ParentKey = zero_key, ev_Pid = tt_pid t, ev_Ppid = 0,
               ev_HasMark = has_mark, ev_Value = value, ev_Comm = tt_comm t\<rparr> w))"

section \<open>Exec\<close>

text \<open>The value the active policy proposes for the process, if it proposes one.\<close>

definition exec_candidate ::
    "i8 list \<Rightarrow> process_value option \<Rightarrow> u64 \<Rightarrow> world \<Rightarrow> process_value option" where
  "exec_candidate comm existing now w =
     (let policy = k_active_policy w
      in if ps_Generation policy \<noteq> 0 \<and>
            (ps_Mode policy = KERNEL_POLICY_POSITIVE_ONLY \<or> ps_Mode policy = KERNEL_POLICY_AUTHORITATIVE)
         then
           (let candidate = zero_value\<lparr>Generation := ps_Generation policy, Timestamp := now\<rparr>
            in case mget (k_comm_rules w) \<lparr>rk_Generation = ps_Generation policy, rk_Comm = comm\<rparr> of
                 Some rule \<Rightarrow>
                   Some (candidate\<lparr>Inheritance := True, HasMark := True,
                           Priority := rv_Priority rule, Mark := rv_Mark rule\<rparr>)
               | None \<Rightarrow>
                   if ps_Mode policy = KERNEL_POLICY_AUTHORITATIVE
                   then (case existing of
                           None \<Rightarrow> None
                         | Some old \<Rightarrow>
                             if Generation old = ps_Generation policy
                             then Some (candidate\<lparr>Inheritance := Inheritance old,
                                          Priority := Priority old, Mark := Mark old\<rparr>)
                             else Some candidate)
                   else None)
         else None)"

definition exec_store ::
    "process_key \<Rightarrow> i8 list \<Rightarrow> u64 \<Rightarrow> bool \<Rightarrow> world \<Rightarrow> process_value \<times> world" where
  "exec_store key comm now stored w =
     (let existing = mget (k_processes w) key;
          value = (case existing of None \<Rightarrow> zero_value | Some old \<Rightarrow> old)
      in case exec_candidate comm existing now w of
           None \<Rightarrow> (value, w)
         | Some candidate \<Rightarrow>
             if (case existing of None \<Rightarrow> True | Some old \<Rightarrow> next_process_value_wins old candidate) \<and> stored
             then (candidate, w\<lparr>k_processes := mput key candidate (k_processes w)\<rparr>)
             else (value, w))"

definition handle_sched_process_exec ::
    "traced_task \<Rightarrow> u64 \<Rightarrow> bool \<Rightarrow> bool \<Rightarrow> world \<Rightarrow> mark_event option \<times> world" where
  "handle_sched_process_exec t now stored room w =
     (if tt_pid t \<noteq> tt_tgid t then (None, w)
      else
        (let key = process_key_from_task t;
             (value, w) = exec_store key (tt_comm t) now stored w
         in submit room
              \<lparr>ev_Type = 3, ev_Key = key, ev_ParentKey = zero_key, ev_Pid = tt_pid t, ev_Ppid = 0,
               ev_HasMark = live_mark value, ev_Value = value, ev_Comm = tt_comm t\<rparr> w))"

end
