(* ===== verification/JointWrites.thy ===== *)
theory JointWrites
  imports Bpf
begin

text \<open>
  How the daemon writes the process map: no operation but the collector changes one copy of an
  entry (the mirror's or the kernel's) alone. The relation \<open>joint\<close> says so, and each operation
  has a lemma for it; the refresh at the start of a traversal makes both copies equal.
\<close>

section \<open>Joint writes\<close>

text \<open>
  While no map system call fails, the daemon never changes one copy of an entry alone: an
  entry of its operations is untouched in both, or is the same value in both.
\<close>

abbreviation kern :: "'c marker \<Rightarrow> process_key \<Rightarrow> process_value option" where
  "kern m \<equiv> mget (k_processes (wld m))"

definition live_maps :: "'c marker \<Rightarrow> bool" where
  "live_maps m \<longleftrightarrow> processes m \<and> no_faults (wld m) \<and> wfmap (k_processes (wld m))"

definition joint :: "(process_key \<Rightarrow> bool) \<Rightarrow> 'c marker \<Rightarrow> 'c marker \<Rightarrow> bool" where
  "joint K m m' \<longleftrightarrow>
     live_maps m' \<and>
     (\<forall>k. mget (mirror m') k = mget (mirror m) k \<and> kern m' k = kern m k \<or>
          K k \<and> mget (mirror m') k \<noteq> None \<and> kern m' k = mget (mirror m') k)"

lemma joint_refl [intro]: "live_maps m \<Longrightarrow> joint K m m"
  by (simp add: joint_def)

lemma joint_trans [trans]: "joint K m m' \<Longrightarrow> joint K m' m'' \<Longrightarrow> joint K m m''"
  unfolding joint_def by (smt (verit, best))

lemma joint_live: "joint K m m' \<Longrightarrow> live_maps m'"
  by (simp add: joint_def)

lemma joint_mono: "joint K m m' \<Longrightarrow> (\<And>k. K k \<Longrightarrow> L k) \<Longrightarrow> joint L m m'"
  unfolding joint_def by blast

text \<open>What touches neither map.\<close>

lemma joint_still:
  assumes "live_maps m" "settings m' = settings m" "mirror m' = mirror m"
    and "k_processes (wld m') = k_processes (wld m)" "no_faults (wld m') = no_faults (wld m)"
  shows "joint K m m'"
  using assms by (auto simp: joint_def live_maps_def dest: settingsD)

lemma joint_primitives:
  assumes "live_maps m"
  shows "joint K m (logf e m)" "joint K m (onProcessUpdate k v m)" "joint K m (onProcessEvent pe m)"
    "joint K m (snd (run_check info m))" "joint K m (snd (newProcessValue p mk ex m))"
    "joint K m (snd (newNoMarkProcessValue v m))" "joint K m (snd (inheritedValue v m))"
    "joint K m (snd (in_world nowBootNS m))"
  by (rule joint_still [OF assms];
      simp add: newProcessValue_def newNoMarkProcessValue_def inheritedValue_def split_beta Let_def)+

lemma joint_world:
  "live_maps m \<Longrightarrow> still (snd (f (wld m))) = still (wld m) \<Longrightarrow> joint K m (snd (in_world f m))"
  by (rule joint_still) (auto dest: stillD still_cong)

lemma syncKernel_writes:
  assumes "live_maps m"
  shows "live_maps (syncKernel k v m)" "kern (syncKernel k v m) = (kern m)(k \<mapsto> v)"
proof -
  have "\<not> os_fault (wld m) (os_calls (wld m))" "processes m" "no_faults (wld m)" "wfmap (k_processes (wld m))"
    using assms by (simp_all add: live_maps_def no_faults_def)
  then show "live_maps (syncKernel k v m)" "kern (syncKernel k v m) = (kern m)(k \<mapsto> v)"
    by (simp_all add: syncKernel_def live_maps_def processes_Put_def syscall_def in_world_def split_beta Let_def
        no_faults_step wfmap_mput)
qed

lemma joint_sync:
  "live_maps m \<Longrightarrow> mget (mirror m) k = Some v \<Longrightarrow> joint (\<lambda>k'. k' = k) m (syncKernel k v m)"
  using syncKernel_writes [of m k v] by (simp add: joint_def)

lemma joint_upsertWithLog:
  assumes "live_maps m"
  shows "joint (\<lambda>k'. k' = k) m (upsertProcessWithLog k v b m)"
proof -
  have store: "joint (\<lambda>k'. k' = k) m
      (let m = m\<lparr>mirror := mput k n (mirror m)\<rparr>; m = syncKernel k n m
       in if b then onProcessUpdate k n m else m)" for n
    using syncKernel_writes [of "m\<lparr>mirror := mput k n (mirror m)\<rparr>" k n] assms
    by (simp add: joint_def Let_def live_maps_def)
  then show ?thesis
    using assms by (auto simp: upsertProcessWithLog_def Let_def split: option.split)
qed

lemma joint_upsert: "live_maps m \<Longrightarrow> joint (\<lambda>k'. k' = k) m (upsertProcess k v m)"
  by (simp add: upsertProcess_def joint_upsertWithLog)

text \<open>An upsert after a step that touches neither map.\<close>

lemma joint_then_upsert:
  "joint (\<lambda>k'. k' = k) m m' \<Longrightarrow> joint (\<lambda>k'. k' = k) m (upsertProcess k v m')"
  by (rule joint_trans [OF _ joint_upsert [OF joint_live]])


section \<open>The daemon's operations write jointly\<close>

abbreviation own :: "mark_event \<Rightarrow> process_key \<Rightarrow> bool" where
  "own event \<equiv> \<lambda>k. k = ev_Key event"

lemma joint_fork_known: "live_maps m \<Longrightarrow> joint (own event) m (snd (fork_known event m))"
  by (auto simp: fork_known_def joint_upsert joint_sync split: option.split)

lemma joint_fork_demote: "live_maps m \<Longrightarrow> joint (own event) m (snd (fork_demote event known m))"
  by (auto simp: fork_demote_def split_beta Let_def joint_then_upsert joint_primitives split: option.split)

lemma joint_fork_decide: "live_maps m \<Longrightarrow> joint (own event) m (snd (fork_decide event info known m))"
proof -
  assume m: "live_maps m"
  let ?m = "snd (run_check info m)"
  have r: "joint (own event) m ?m" using m by (rule joint_primitives)
  note m' = joint_live [OF r]
  have "joint (own event) ?m (snd (fork_demote event known ?m))" using m' by (rule joint_fork_demote)
  then show ?thesis
    using r m' by (auto simp: fork_decide_def split_beta Let_def joint_then_upsert joint_primitives
        split: option.split intro: joint_trans)
qed

lemma joint_exec_known: "live_maps m \<Longrightarrow> joint (own event) m (snd (exec_known event m))"
proof -
  assume m: "live_maps m"
  let ?m = "if ev_Value event \<noteq> zero_value then upsertProcessWithLog (ev_Key event) (ev_Value event) False m else m"
  have u: "joint (own event) m ?m" using m by (auto simp: joint_upsertWithLog)
  then show ?thesis
    using joint_sync [OF joint_live [OF u], of "ev_Key event"]
    by (auto simp: exec_known_def Let_def split: option.split intro: joint_trans)
qed

lemma joint_exec_decide: "live_maps m \<Longrightarrow> joint (own event) m (snd (exec_decide event info known m))"
proof -
  assume m: "live_maps m"
  have r: "joint (own event) m (snd (run_check info m))" using m by (rule joint_primitives)
  then show ?thesis
    using joint_live [OF r]
    by (auto simp: exec_decide_def split_beta Let_def joint_then_upsert joint_primitives
        split: option.split intro: joint_trans)
qed

text \<open>A report at the end.\<close>

lemma joint_then_report: "joint K m m' \<Longrightarrow> joint K m (onProcessEvent pe m')"
  by (rule joint_trans [OF _ joint_primitives(3) [OF joint_live]])

lemma joint_handlers:
  assumes "live_maps m"
  shows "joint (own event) m (handleFork event info m)" "joint (own event) m (handleExit event info m)"
    "joint (own event) m (handleExec event info m)" "joint (own event) m (handleUnknown event info m)"
proof -
  have fork: "joint (own event) m (snd (fork_decide event info known (snd (fork_known event m))))" for known
    by (rule joint_trans [OF joint_fork_known [OF assms] joint_fork_decide [OF joint_live [OF joint_fork_known [OF assms]]]])
  then show "joint (own event) m (handleFork event info m)"
    by (auto simp: handleFork_def split_beta Let_def joint_then_report split: option.split)
  have clock: "joint (own event) m (snd (in_world nowBootNS m))" using assms by (rule joint_primitives)
  have "joint (own event) m (upsertProcessWithLog (ev_Key event) v b (snd (in_world nowBootNS m)))" for v b
    by (rule joint_trans [OF clock joint_upsertWithLog [OF joint_live [OF clock]]])
  then show "joint (own event) m (handleExit event info m)"
    using assms by (auto simp: handleExit_def split_beta Let_def joint_then_report)
  have known: "joint (own event) m (snd (exec_known event m))" using assms by (rule joint_exec_known)
  have "joint (own event) m (snd (exec_decide event info known (snd (exec_known event m))))" for known
    by (rule joint_trans [OF known joint_exec_decide [OF joint_live [OF known]]])
  moreover have "joint (own event) m (logf e (snd (exec_known event m)))" for e
    by (rule joint_trans [OF known joint_primitives(1) [OF joint_live [OF known]]])
  ultimately show "joint (own event) m (handleExec event info m)"
    by (auto simp: handleExec_def split_beta Let_def joint_then_report split: option.split)
  show "joint (own event) m (handleUnknown event info m)"
    using assms by (simp add: handleUnknown_def joint_primitives)
qed

lemma joint_handleEvent: "live_maps m \<Longrightarrow> joint (own event) m (handleEvent event m)"
proof -
  assume m: "live_maps m"
  let ?m = "snd (in_world (procInfoFromEvent event) m)"
  have r: "joint (own event) m ?m" using m by (intro joint_world) simp_all
  from joint_handlers [OF joint_live [OF r]] r show ?thesis
    by (auto simp: handleEvent_def split_beta Let_def intro: joint_trans)
qed

lemma joint_setProcessMark: "live_maps m \<Longrightarrow> joint (\<lambda>k. k = key) m (setProcessMark key priority mark m)"
  by (simp add: setProcessMark_def split_beta Let_def joint_then_upsert joint_primitives)


section \<open>A traversal\<close>

lemma joint_visit: "live_maps m \<Longrightarrow> joint (\<lambda>k. k = pi_Key info) m (snd (visit info pv m))"
proof -
  assume m: "live_maps m"
  have r: "joint (\<lambda>k. k = pi_Key info) m (snd (run_check info m))" using m by (rule joint_primitives)
  then show ?thesis
    using joint_live [OF r]
    by (auto simp: visit_def split_beta Let_def joint_then_upsert joint_primitives
        split: option.split intro: joint_trans)
qed

text \<open>A walk writes entries of listed processes.\<close>

abbreviation among :: "process_info list \<Rightarrow> process_key \<Rightarrow> bool" where
  "among procs \<equiv> \<lambda>k. k \<in> pi_Key ` set procs"

lemma joint_walk:
  assumes "tab = byParent_table procs" "set infos \<subseteq> set procs" "live_maps (snd s)"
  shows "joint (among procs) (snd s) (snd (walk tab infos pv s))"
  using assms
proof (induction tab infos pv s rule: walk.induct)
  case (2 tab info infos pv s)
  show ?case
  proof (cases "Tgid (pi_Key info) \<in> fst s")
    case True
    with 2 show ?thesis by (simp add: walk.simps(2))
  next
    case False
    obtain cur m where visit: "visit info pv (snd s) = (cur, m)" by fastforce
    let ?s' = "walk tab (children_of tab (Tgid (pi_Key info))) cur
      (insert (Tgid (pi_Key info)) (fst s), m)"
    have 1: "joint (among procs) (snd s) m"
      using joint_visit [OF "2.prems"(3), of info pv] "2.prems"(2) by (auto simp: visit intro: joint_mono)
    have "joint (among procs) m (snd ?s')"
      using "2.IH"(1) [OF False refl visit [symmetric] "2.prems"(1)] joint_live [OF 1] "2.prems"(1)
      by (auto simp: set_children)
    with 1 have 12: "joint (among procs) (snd s) (snd ?s')" by (rule joint_trans)
    have "joint (among procs) (snd ?s') (snd (walk tab infos pv ?s'))"
      using "2.IH"(2) "2.prems"(1,2) joint_live [OF 12] False visit by simp
    with 12 have "joint (among procs) (snd s) (snd (walk tab infos pv ?s'))" by (rule joint_trans)
    then show ?thesis using False visit by (simp add: walk.simps(2))
  qed
qed auto

lemma joint_walk_rest:
  assumes "tab = byParent_table procs"
  shows "set infos \<subseteq> set procs \<Longrightarrow> live_maps (snd s) \<Longrightarrow>
    joint (among procs) (snd s) (snd (walk_rest tab byPID infos s))"
proof (induction infos arbitrary: s)
  case (Cons info infos)
  let ?s' = "if Tgid (pi_Key info) \<in> fst s then s else walk tab [info] (rest_parent byPID info (snd s)) s"
  have 1: "joint (among procs) (snd s) (snd ?s')"
    using joint_walk [OF assms, of "[info]" s] Cons.prems by auto
  have "joint (among procs) (snd ?s') (snd (walk_rest tab byPID infos ?s'))"
    using Cons.IH [OF _ joint_live [OF 1]] Cons.prems by simp
  with 1 have "joint (among procs) (snd s) (snd (walk_rest tab byPID infos ?s'))" by (rule joint_trans)
  then show ?case by (simp add: if_distrib)
qed auto

lemma joint_traverseProcesses: "live_maps m \<Longrightarrow> joint (among procs) m (traverseProcessesLocked procs m)"
proof -
  assume m: "live_maps m"
  let ?tab = "byParent_table procs"
  let ?s = "walk ?tab (children_of ?tab 0) None ({}, m)"
  have 1: "joint (among procs) m (snd ?s)"
    using joint_walk [OF refl, of "children_of ?tab 0" procs "({}, m)"] m by (simp add: set_children)
  have "joint (among procs) (snd ?s) (snd (walk_rest ?tab (index_byPID procs []) procs ?s))"
    using joint_walk_rest [OF refl] joint_live [OF 1] by blast
  with 1 have all: "joint (among procs) m (snd (walk_all procs m))"
    unfolding walk_all_def Let_def by (rule joint_trans)
  then show ?thesis
    unfolding traverseProcessesLocked_def Let_def
    by (rule joint_trans [OF _ joint_primitives(1) [OF joint_live [OF all]]])
qed

text \<open>
  The refresh makes every kernel entry the same in both copies: the one of the larger rank.
\<close>

definition merged :: "process_value option \<Rightarrow> process_value \<Rightarrow> process_value" where
  "merged old v = (case old of None \<Rightarrow> v | Some o' \<Rightarrow> preferProcessValue o' v)"

lemma refresh_loop_Cons:
  obtains w repairs mm' where "w = merged (mget mm k) v" "refresh_loop entries (mput k w mm) = (repairs, mm')"
    "refresh_loop ((k, v) # entries) mm = (if w \<noteq> v then (k, w) # repairs else repairs, mm')"
  by (rule that [OF refl prod.collapse [symmetric]]) (simp add: merged_def split_beta Let_def)

lemma refresh_loop_keys: "fst ` set (fst (refresh_loop entries mm)) \<subseteq> fst ` set entries"
proof (induction entries arbitrary: mm)
  case (Cons entry entries)
  obtain k v where e: "entry = (k, v)" by fastforce
  obtain w repairs mm' where r: "refresh_loop entries (mput k w mm) = (repairs, mm')"
    "refresh_loop ((k, v) # entries) mm = (if w \<noteq> v then (k, w) # repairs else repairs, mm')"
    by (rule refresh_loop_Cons)
  have "fst ` set repairs \<subseteq> fst ` set entries" using Cons.IH [of "mput k w mm"] by (simp add: r(1))
  then show ?case by (simp add: e r(2) subset_insertI2 del: refresh_loop.simps(2))
qed simp

lemma refresh_loop_spec:
  "wfmap entries \<Longrightarrow>
   mget (snd (refresh_loop entries mm)) k' =
      (case mget entries k' of None \<Rightarrow> mget mm k' | Some v \<Rightarrow> Some (merged (mget mm k') v)) \<and>
   wfmap (fst (refresh_loop entries mm)) \<and>
   mget (fst (refresh_loop entries mm)) k' =
      (case mget entries k' of None \<Rightarrow> None
       | Some v \<Rightarrow> if merged (mget mm k') v \<noteq> v then Some (merged (mget mm k') v) else None)"
proof (induction entries arbitrary: mm)
  case (Cons entry entries)
  obtain k v where e: "entry = (k, v)" by fastforce
  obtain w repairs mm' where w: "w = merged (mget mm k) v" and r: "refresh_loop entries (mput k w mm) = (repairs, mm')"
    and step: "refresh_loop ((k, v) # entries) mm = (if w \<noteq> v then (k, w) # repairs else repairs, mm')"
    by (rule refresh_loop_Cons)
  have wf: "wfmap entries" and k: "mget entries k = None"
    using Cons.prems by (auto simp: e wfmap_def map_of_eq_None_iff)
  have nk: "k \<notin> fst ` set repairs"
    using refresh_loop_keys [of entries "mput k w mm"] Cons.prems by (auto simp: e r wfmap_def)
  then have "mget repairs k = None" by (simp add: map_of_eq_None_iff)
  moreover note ih = Cons.IH [OF wf, of "mput k w mm", unfolded r fst_conv snd_conv]
  ultimately show ?case
    unfolding e step using k nk w by (cases "k' = k") (simp_all add: wfmap_def split: option.split)
qed simp

lemma sync_all_writes:
  "live_maps m \<Longrightarrow> wfmap repairs \<Longrightarrow>
   live_maps (sync_all repairs m) \<and> kern (sync_all repairs m) = kern m ++ mget repairs"
proof (induction repairs arbitrary: m)
  case (Cons entry repairs)
  obtain k v where e: "entry = (k, v)" by fastforce
  have "mget repairs k = None" "wfmap repairs"
    using Cons.prems(2) by (auto simp: e wfmap_def map_of_eq_None_iff)
  with Cons.IH [OF syncKernel_writes(1) [OF Cons.prems(1), of k v]] show ?case
    by (auto simp: e syncKernel_writes(2) [OF Cons.prems(1)] map_add_def fun_eq_iff split: option.splits)
qed simp


lemma refresh_joint:
  assumes "live_maps m"
  shows "\<not> fst (refreshMirrorFromKernelLocked m)"
    "live_maps (snd (refreshMirrorFromKernelLocked m))"
    "mget (mirror (snd (refreshMirrorFromKernelLocked m))) k =
       (case kern m k of None \<Rightarrow> mget (mirror m) k | Some v \<Rightarrow> Some (merged (mget (mirror m) k) v))"
    "kern (snd (refreshMirrorFromKernelLocked m)) k =
       (case kern m k of None \<Rightarrow> None | Some v \<Rightarrow> Some (merged (mget (mirror m) k) v))"
proof -
  obtain repairs mm where r: "refresh_loop (k_processes (wld m)) (mirror m) = (repairs, mm)" by fastforce
  have ok: "processes m" "no_faults (wld m)" and wf: "wfmap (k_processes (wld m))"
    using assms by (simp_all add: live_maps_def)
  have it: "fst (processes_Iterate (wld m)) = (k_processes (wld m), False)"
    and w: "k_processes (snd (processes_Iterate (wld m))) = k_processes (wld m)"
      "no_faults (snd (processes_Iterate (wld m)))"
    using ok(2) by (simp_all add: no_faults_def processes_Iterate_def)
  let ?m = "(snd (in_world processes_Iterate m))\<lparr>mirror := mm\<rparr>"
  have refresh: "refreshMirrorFromKernelLocked m = (False, sync_all repairs ?m)"
    using ok(1) it r by (simp add: refreshMirrorFromKernelLocked_def split_beta Let_def)
  have live: "live_maps ?m" using ok w wf by (simp add: live_maps_def)
  note spec = refresh_loop_spec [OF wf, of "mirror m", unfolded r fst_conv snd_conv]
  have "live_maps (sync_all repairs ?m) \<and> kern (sync_all repairs ?m) = kern ?m ++ mget repairs"
    using sync_all_writes [OF live] spec by blast
  then show "\<not> fst (refreshMirrorFromKernelLocked m)" "live_maps (snd (refreshMirrorFromKernelLocked m))"
    "mget (mirror (snd (refreshMirrorFromKernelLocked m))) k =
       (case kern m k of None \<Rightarrow> mget (mirror m) k | Some v \<Rightarrow> Some (merged (mget (mirror m) k) v))"
    "kern (snd (refreshMirrorFromKernelLocked m)) k =
       (case kern m k of None \<Rightarrow> None | Some v \<Rightarrow> Some (merged (mget (mirror m) k) v))"
    using spec [of k] by (auto simp: refresh w map_add_def split: option.splits)
qed

text \<open>The processes a traversal would list now.\<close>

definition listing_of :: "'c marker \<Rightarrow> process_info list" where
  "listing_of m =
     (case fst (listProcesses (wld (snd (refreshMirrorFromKernelLocked m)))) of
        Inl e \<Rightarrow> [] | Inr procs \<Rightarrow> procs)"

lemma traverse_joint:
  assumes "live_maps m"
  shows "joint (among (listing_of m)) (snd (refreshMirrorFromKernelLocked m)) (snd (traverseProcessTreeLocked m))"
proof -
  let ?m = "snd (refreshMirrorFromKernelLocked m)"
  let ?m' = "snd (in_world listProcesses ?m)"
  have 1: "joint (among (listing_of m)) ?m ?m'"
    using refresh_joint(2) [OF assms] by (intro joint_world) simp_all
  then have "joint (among (listing_of m)) ?m (traverseProcessesLocked procs ?m')"
    if "fst (listProcesses (wld ?m)) = Inr procs" for procs
    using joint_traverseProcesses [OF joint_live [OF 1], of procs] that
    by (auto simp: listing_of_def intro: joint_trans)
  with 1 refresh_joint(1) [OF assms] show ?thesis
    by (auto simp: traverseProcessTreeLocked_def split_beta Let_def split: sum.split)
qed

end
