(* ===== verification/DaemonParts.thy ===== *)
theory DaemonParts
  imports JointWrites
begin

text \<open>
  The two long operations of the daemon in parts, between which the BPF programs run: a policy
  switch is parts that touch neither copy of an entry, with a traversal among them; a collection
  is the deletion of keys, the burial of the dead and perhaps a traversal.
\<close>

section \<open>Parts that touch neither copy\<close>

definition untouched :: "'c marker \<Rightarrow> 'c marker \<Rightarrow> bool" where
  "untouched m m' \<longleftrightarrow>
     processes m' = processes m \<and> mirror m' = mirror m \<and> k_processes (wld m') = k_processes (wld m) \<and>
     (no_faults (wld m) \<longrightarrow> no_faults (wld m'))"

lemma untouched_refl [simp, intro]: "untouched m m"
  by (simp add: untouched_def)

lemma untouched_trans [trans]: "untouched m m' \<Longrightarrow> untouched m' m'' \<Longrightarrow> untouched m m''"
  by (simp add: untouched_def)

lemma untouched_joint: "untouched m m' \<Longrightarrow> live_maps m \<Longrightarrow> joint (\<lambda>_. False) m m'"
  by (simp add: untouched_def joint_def live_maps_def)

lemma untouched_world:
  assumes "k_processes (snd (f (wld m))) = k_processes (wld m)" "no_faults (wld m) \<Longrightarrow> no_faults (snd (f (wld m)))"
  shows "untouched m (snd (in_world f m))"
  using assms by (simp add: untouched_def)

lemma untouched_still: "still (snd (f (wld m))) = still (wld m) \<Longrightarrow> untouched m (snd (in_world f m))"
  by (rule untouched_world) (auto dest: stillD still_cong)

lemma untouched_rules:
  "untouched m (snd (in_world (comm_rules_Delete key) m))" "untouched m (snd (in_world (comm_rules_Put key v) m))"
  "untouched m (snd (in_world (active_policy_Put state) m))"
proof -
  have "k_processes (snd (comm_rules_Delete key w)) = k_processes w" "k_processes (snd (comm_rules_Put key v w)) = k_processes w"
    "k_processes (snd (active_policy_Put state w)) = k_processes w" for w
    by (simp_all add: comm_rules_Delete_def comm_rules_Put_def active_policy_Put_def syscall_def split_beta Let_def)
  then show "untouched m (snd (in_world (comm_rules_Delete key) m))" "untouched m (snd (in_world (comm_rules_Put key v) m))"
    "untouched m (snd (in_world (active_policy_Put state) m))"
    by (simp_all add: untouched_world comm_rules_no_faults)
qed

lemma untouched_simple [simp, intro]:
  "untouched m (logf entry m)" "untouched m (snd (in_world nowBootNS m))"
  "untouched m (snd (in_world listProcesses m))"
  "untouched m (m\<lparr>eventCounter := n\<rparr>)" "untouched m (m\<lparr>policyGeneration := g\<rparr>)"
  "untouched m (m\<lparr>installedCommRules := table\<rparr>)"
  by (auto simp: untouched_def intro: still_cong [THEN iffD2])

lemma untouched_delete_rules: "untouched m (snd (delete_rule_keys entry keys m))"
proof (induction keys arbitrary: m)
  case (Cons key keys)
  note del = untouched_rules(1) [of m key]
  have "untouched m (snd (delete_rule_keys entry keys (snd (in_world (comm_rules_Delete key) m))))"
    by (rule untouched_trans [OF del Cons.IH])
  moreover have "untouched m (snd (delete_rule_keys entry keys (logf e (snd (in_world (comm_rules_Delete key) m)))))" for e
    by (rule untouched_trans [OF untouched_trans [OF del untouched_simple(1)] Cons.IH])
  ultimately show ?case by (simp add: split_beta Let_def split: option.split)
qed simp

lemma untouched_rollback:
  "untouched m (snd (deleteCommRuleKeys keys m))" "untouched m (rememberUndeletedCommRules g keys m)"
  by (simp_all add: deleteCommRuleKeys_def rememberUndeletedCommRules_def untouched_delete_rules)

lemma untouched_cleanup: "untouched m (cleanupInactiveCommRulesLocked g m)"
proof -
  have gen: "untouched m (cleanup_generation gen keys m)" for gen keys and m :: "'a marker"
    using untouched_trans [OF untouched_delete_rules [of m "LogDeleteInactive gen" keys] untouched_simple(6)]
    by (simp add: cleanup_generation_def split_beta Let_def)
  have "untouched m (cleanup_loop g installed m)" for installed and m :: "'a marker"
  proof (induction installed arbitrary: m rule: gomap_induct)
    case (Cons gen keys installed)
    then show ?case using untouched_trans [OF gen Cons.IH] by simp
  qed simp
  then show ?thesis by (simp add: cleanupInactiveCommRulesLocked_def)
qed

lemma untouched_populate: "untouched m (snd (populate_rules g rules keys m))"
proof (induction rules arbitrary: keys m)
  case (Cons rule rules)
  show ?case
  proof (cases "makeCommRuleKey g (cr_Comm rule)")
    case (Inr key)
    let ?v = "\<lparr>rv_Priority = cr_Priority rule, rv_Mark = cr_Mark rule\<rparr>"
    let ?m = "snd (in_world (comm_rules_Put key ?v) m)"
    note put = untouched_rules(2) [of m key ?v]
    have "untouched m (snd (populate_rules g rules (keys @ [key]) ?m))" by (rule untouched_trans [OF put Cons.IH])
    moreover have "untouched m (rememberUndeletedCommRules g left (snd (deleteCommRuleKeys keys ?m)))" for left
      by (rule untouched_trans [OF untouched_trans [OF put untouched_rollback(1)] untouched_rollback(2)])
    ultimately show ?thesis using Inr Cons.IH by (simp add: split_beta Let_def split: option.split)
  qed simp
qed simp

lemma untouched_activate: "untouched m (snd (activate_policy policy chk g keys m))"
proof -
  let ?m = "m\<lparr>check := chk, generation := g, kernelPolicy := policy\<rparr>"
  let ?put = "snd (in_world (active_policy_Put \<lparr>ps_Generation = g, ps_Mode = kp_Mode policy\<rparr>) ?m)"
  have set: "untouched m ?m" by (simp add: untouched_def)
  note put = untouched_trans [OF set untouched_rules(3)]
  have undo: "untouched m' (m'\<lparr>check := c, generation := g', kernelPolicy := p\<rparr>)" for m' :: "'a marker" and c g' p
    by (simp add: untouched_def)
  have "untouched m (rememberUndeletedCommRules g left
      (snd (deleteCommRuleKeys keys (?put\<lparr>check := c, generation := g', kernelPolicy := p\<rparr>))))" for left c g' p
    by (rule untouched_trans [OF untouched_trans [OF untouched_trans [OF put undo] untouched_rollback(1)]
        untouched_rollback(2)])
  then show ?thesis using set put by (simp add: activate_policy_def split_beta Let_def split: option.split)
qed

section \<open>A policy switch\<close>

text \<open>The parts of a policy switch other than its traversal, and what else touches neither copy.\<close>

inductive quiet_part :: "'c marker \<Rightarrow> 'c marker \<Rightarrow> bool" where
  quiet_list: "quiet_part m (snd (in_world listProcesses m))"
| quiet_cleanup: "quiet_part m (cleanupInactiveCommRulesLocked g m)"
| quiet_reserve: "quiet_part m (m\<lparr>policyGeneration := g\<rparr>)"
| quiet_populate: "quiet_part m (snd (populate_rules g rules keys m))"
| quiet_activate: "quiet_part m (snd (activate_policy policy chk g keys m))"
| quiet_installed: "quiet_part m (m\<lparr>installedCommRules := table\<rparr>)"
| quiet_clock: "quiet_part m (snd (in_world nowBootNS m))"
| quiet_counter: "quiet_part m (m\<lparr>eventCounter := n\<rparr>)"
| quiet_log: "quiet_part m (logf entry m)"

lemma quiet_untouched: "quiet_part m m' \<Longrightarrow> untouched m m'"
  by (cases rule: quiet_part.cases)
    (auto intro: untouched_cleanup untouched_populate untouched_activate)

inductive quiet_parts :: "'c marker \<Rightarrow> 'c marker \<Rightarrow> bool" where
  quiets_refl: "quiet_parts m m"
| quiets_step: "quiet_parts m m' \<Longrightarrow> quiet_part m' m'' \<Longrightarrow> quiet_parts m m''"

lemmas quiets = quiets_step [OF quiets_refl]

lemma quiets_trans [trans]: "quiet_parts m' m'' \<Longrightarrow> quiet_parts m m' \<Longrightarrow> quiet_parts m m''"
  by (induction rule: quiet_parts.induct) (auto intro: quiets_step)

text \<open>The switch is such parts and a traversal among them, or such parts alone.\<close>

lemma finish_switch_parts:
  "\<exists>m1. quiet_parts m m1 \<and> quiet_parts (snd (traverseProcessTreeLocked m1)) (finish_switch policy g keys m)"
proof -
  let ?m1 = "m\<lparr>installedCommRules := mput g keys (installedCommRules m)\<rparr>"
  let ?t = "traverseProcessTreeLocked ?m1"
  have "quiet_parts (snd ?t) (case fst ?t of None \<Rightarrow> snd ?t | Some e \<Rightarrow> logf (LogTraversalAfterSwitch e) (snd ?t))"
    by (cases "fst ?t") (simp_all add: quiets_refl quiets [OF quiet_log])
  from quiets_step [OF quiets_step [OF this quiet_cleanup [of _ g]] quiet_log [of _ "LogPolicyActive (kp_Mode policy) g (length (kp_CommRules policy))"]]
  have "quiet_parts (snd ?t) (finish_switch policy g keys m)" by (simp add: finish_switch_def split_beta Let_def)
  with quiets [OF quiet_installed] show ?thesis by (intro exI conjI)
qed

lemma switchLocked_parts:
  "quiet_parts m (snd (setKernelPolicyLocked policy chk m)) \<or>
   (\<exists>m1. quiet_parts m m1 \<and> quiet_parts (snd (traverseProcessTreeLocked m1)) (snd (setKernelPolicyLocked policy chk m)))"
proof -
  let ?l = "in_world listProcesses m"
  let ?c = "cleanupInactiveCommRulesLocked (generation (snd ?l)) (snd ?l)"
  have l: "quiet_parts m (snd ?l)" by (intro quiets quiet_list)
  have c: "quiet_parts m ?c" by (intro quiets_step [OF l] quiet_cleanup)
  show ?thesis
  proof (cases "fst ?l")
    case (Inl e)
    then show ?thesis using l by (simp add: setKernelPolicyLocked_def split_beta Let_def)
  next
    case (Inr procs)
    show ?thesis
    proof (cases "nextPolicyGeneration (maxU64 (policyGeneration ?c) (generation ?c))")
      case None
      then show ?thesis using Inr c by (simp add: setKernelPolicyLocked_def split_beta Let_def)
    next
      case (Some g)
      let ?p = "populate_rules g (kp_CommRules policy) [] (?c\<lparr>policyGeneration := g\<rparr>)"
      have p: "quiet_parts m (snd ?p)" by (rule quiets_step [OF quiets_step [OF c quiet_reserve] quiet_populate])
      show ?thesis
      proof (cases "fst ?p")
        case (Inl e)
        then show ?thesis using Inr Some p by (simp add: setKernelPolicyLocked_def split_beta Let_def)
      next
        case keys: (Inr keys)
        let ?a = "activate_policy policy chk g keys (snd ?p)"
        have a: "quiet_parts m (snd ?a)" by (intro quiets_step [OF p] quiet_activate)
        show ?thesis
        proof (cases "fst ?a")
          case None
          obtain m1 where "quiet_parts (snd ?a) m1"
            "quiet_parts (snd (traverseProcessTreeLocked m1)) (finish_switch policy g keys (snd ?a))"
            using finish_switch_parts by blast
          moreover have "snd (setKernelPolicyLocked policy chk m) = finish_switch policy g keys (snd ?a)"
            using Inr Some keys None by (simp add: setKernelPolicyLocked_def split_beta Let_def)
          ultimately show ?thesis using quiets_trans [OF _ a] by metis
        next
          case (Some e)
          then have "snd (setKernelPolicyLocked policy chk m) = snd ?a"
            using Inr keys \<open>nextPolicyGeneration _ = Some g\<close> by (simp add: setKernelPolicyLocked_def split_beta Let_def)
          then show ?thesis using a by simp
        qed
      qed
    qed
  qed
qed

lemma switch_parts:
  "quiet_parts m (snd (setKernelPolicy policy chk m)) \<or>
   (\<exists>m1. quiet_parts m m1 \<and> quiet_parts (snd (traverseProcessTreeLocked m1)) (snd (setKernelPolicy policy chk m)))"
  using switchLocked_parts by (auto simp: setKernelPolicy_def intro: quiets_refl split: sum.split)


section \<open>A collection\<close>

text \<open>Burying the dead is a joint write of tombstones.\<close>

lemma untouched_find_dead: "untouched m (snd (find_dead mm m))"
proof (induction mm arbitrary: m rule: gomap_induct)
  case (Cons key v mm)
  have "untouched m (snd (in_world (procMatchesKey key) m))" by (rule untouched_still) simp
  from untouched_trans [OF this Cons.IH] show ?case using Cons.IH by (simp add: split_beta Let_def)
qed simp

lemma joint_tombstone_all: "live_maps m \<Longrightarrow> joint (\<lambda>k. k \<in> set dead) m (tombstone_all now dead m)"
proof (induction dead arbitrary: m)
  case (Cons key dead)
  define v where "v = (case mget (mirror m) key of None \<Rightarrow> zero_value | Some v \<Rightarrow> v)"
  let ?m = "upsertProcess key (v\<lparr>Tombstone := True, Timestamp := maxU64 (Timestamp v) now\<rparr>) m"
  have 1: "joint (\<lambda>k. k \<in> set (key # dead)) m ?m" by (rule joint_mono [OF joint_upsert [OF Cons.prems]]) simp
  have "joint (\<lambda>k. k \<in> set (key # dead)) ?m (tombstone_all now dead ?m)"
    by (rule joint_mono [OF Cons.IH [OF joint_live [OF 1]]]) simp
  from joint_trans [OF 1 this] show ?case by (simp add: v_def Let_def)
qed auto

lemma joint_bury:
  assumes "live_maps m"
  shows "joint (\<lambda>k. k \<in> set (fst (find_dead (mirror m) m))) m (tombstoneDeadProcessesLocked m)"
    and "k \<in> set (fst (find_dead (mirror m) m)) \<Longrightarrow>
      \<exists>v. mget (mirror (tombstoneDeadProcessesLocked m)) k = Some v \<and> Tombstone v"
proof -
  let ?dead = "fst (find_dead (mirror m) m)" and ?m = "snd (find_dead (mirror m) m)"
  let ?c = "in_world nowBootNS ?m"
  let ?K = "\<lambda>k. k \<in> set ?dead"
  have clock: "untouched m (snd ?c)" by (rule untouched_trans [OF untouched_find_dead untouched_simple(2)])
  have 1: "joint ?K m (snd ?c)" by (rule joint_mono [OF untouched_joint [OF clock assms]]) simp
  have 2: "joint ?K m (tombstone_all (fst ?c) ?dead (snd ?c))"
    by (rule joint_trans [OF 1 joint_tombstone_all [OF joint_live [OF 1]]])
  have 3: "joint ?K m (logf e (tombstone_all (fst ?c) ?dead (snd ?c)))" for e
    by (rule joint_trans [OF 2 joint_primitives(1) [OF joint_live [OF 2]]])
  have "joint (\<lambda>_. False) m ?m" by (rule untouched_joint [OF untouched_find_dead assms])
  with 3 show "joint ?K m (tombstoneDeadProcessesLocked m)"
    by (simp add: tombstoneDeadProcessesLocked_def split_beta Let_def)
  assume k: "k \<in> set ?dead"
  have "tombstoneDeadProcessesLocked m =
      logf (LogTombstonedDead (length ?dead)) (tombstone_all (fst ?c) ?dead (snd ?c))"
    using k by (auto simp: tombstoneDeadProcessesLocked_def split_beta Let_def)
  then show "\<exists>v. mget (mirror (tombstoneDeadProcessesLocked m)) k = Some v \<and> Tombstone v"
    using tombstone_all_entry [OF disjI1 [OF k], where m = "snd ?c" and now = "fst ?c"] by simp
qed

text \<open>
  Deleting takes the keys out of both copies, whatever the kernel's has of them: a batch that
  stops at a key that is not there is finished key by key.
\<close>

lemma processes_Delete_writes:
  assumes "live_maps m"
  shows "live_maps (snd (in_world (processes_Delete key) m))"
    "kern (snd (in_world (processes_Delete key) m)) = (kern m)(key := None)"
    "fst (in_world (processes_Delete key) m) \<in> {None, Some ErrKeyNotExist}"
  using assms by (auto simp: live_maps_def processes_Delete_def syscall_def no_faults_def split_beta Let_def)

lemma fallback_delete_writes:
  assumes "live_maps m"
  shows "live_maps (snd (fallback_delete keys m))"
    "kern (snd (fallback_delete keys m)) k = (if k \<in> set keys then None else kern m k)"
    "fst (fallback_delete keys m) = None"
proof -
  have "live_maps (snd (fallback_delete keys m)) \<and> fst (fallback_delete keys m) = None \<and>
      kern (snd (fallback_delete keys m)) k = (if k \<in> set keys then None else kern m k)"
    using assms
  proof (induction keys arbitrary: m)
    case (Cons key keys)
    note del = processes_Delete_writes [OF Cons.prems, of key]
    from Cons.IH [OF del(1)] del(2,3) show ?case by (auto simp: split_beta Let_def)
  qed simp
  then show "live_maps (snd (fallback_delete keys m))"
    "kern (snd (fallback_delete keys m)) k = (if k \<in> set keys then None else kern m k)"
    "fst (fallback_delete keys m) = None" by simp_all
qed

lemma batch_delete_some:
  "wfmap tab \<Longrightarrow> wfmap (snd (batch_delete keys tab)) \<and>
   (k \<notin> set keys \<longrightarrow> mget (snd (batch_delete keys tab)) k = mget tab k) \<and>
   (fst (batch_delete keys tab) = None \<longrightarrow> k \<in> set keys \<longrightarrow> mget (snd (batch_delete keys tab)) k = None)"
proof (induction keys arbitrary: tab)
  case (Cons key keys)
  have "mget (snd (batch_delete keys tab')) k = None" if "mget tab' k = None" for tab' :: mirror_map
    using that by (induction keys arbitrary: tab') auto
  then have "mget (snd (batch_delete keys (mdel key tab))) key = None" if "k = key" using that by simp
  then show ?case using Cons.IH [of "mdel key tab"] Cons.prems by auto
qed simp

lemma delete_writes:
  assumes live: "live_maps m"
  shows "live_maps (snd (delete_expired keys m))"
    and "mget (mirror (snd (delete_expired keys m))) k = (if k \<in> set keys then None else mget (mirror m) k)"
    and "kern (snd (delete_expired keys m)) k = (if k \<in> set keys then None else kern m k)"
proof -
  show "mget (mirror (snd (delete_expired keys m))) k = (if k \<in> set keys then None else mget (mirror m) k)" by simp
  let ?m = "m\<lparr>mirror := fold mdel keys (mirror m)\<rparr>"
  let ?b = "in_world (processes_BatchDelete keys) ?m"
  have nf: "\<not> os_fault (wld m) (os_calls (wld m))" using live by (simp add: live_maps_def no_faults_def)
  note batch = batch_delete_some [of "k_processes (wld m)" keys]
  have b: "live_maps (snd ?b)" "k_processes (wld (snd ?b)) = snd (batch_delete keys (k_processes (wld m)))"
    "fst ?b = fst (batch_delete keys (k_processes (wld m)))"
    using live nf batch by (simp_all add: live_maps_def processes_BatchDelete_def syscall_def no_faults_step split_beta Let_def)
  note fall = fallback_delete_writes [OF b(1), of keys]
  have "live_maps (snd (delete_expired keys m)) \<and>
      kern (snd (delete_expired keys m)) k = (if k \<in> set keys then None else kern m k)"
  proof (cases "fst ?b")
    case None
    then have d: "delete_expired keys m = (None, logf (LogCollected (length keys)) (snd ?b))"
      using live by (simp add: delete_expired_def live_maps_def split_beta Let_def)
    have "live_maps (logf (LogCollected (length keys)) (snd ?b))" using b(1) by (simp add: live_maps_def)
    then show ?thesis using batch [of k] None b(2,3) live by (auto simp: d live_maps_def)
  next
    case (Some e)
    then have d: "delete_expired keys m = (None, logf (LogCollected (length keys)) (snd (fallback_delete keys (snd ?b))))"
      using live fall(3) by (simp add: delete_expired_def live_maps_def split_beta Let_def)
    have "live_maps (logf (LogCollected (length keys)) (snd (fallback_delete keys (snd ?b))))"
      using fall(1) by (simp add: live_maps_def)
    then show ?thesis using batch [of k] fall(2) [of k] b(2) live by (auto simp: d live_maps_def)
  qed
  then show "live_maps (snd (delete_expired keys m))"
    "kern (snd (delete_expired keys m)) k = (if k \<in> set keys then None else kern m k)" by simp_all
qed

section \<open>All parts\<close>

inductive daemon_part :: "'c marker \<Rightarrow> 'c marker \<Rightarrow> bool" where
  part_quiet: "quiet_part m m' \<Longrightarrow> daemon_part m m'"
| part_traverse: "daemon_part m (snd (traverseProcessTreeLocked m))"
| part_bury: "daemon_part m (tombstoneDeadProcessesLocked m)"
| part_delete: "daemon_part m (snd (delete_expired (expired_keys cutoff (mirror m)) m))"

inductive daemon_parts :: "'c marker \<Rightarrow> 'c marker \<Rightarrow> bool" where
  parts_refl: "daemon_parts m m"
| parts_step: "daemon_parts m m' \<Longrightarrow> daemon_part m' m'' \<Longrightarrow> daemon_parts m m''"

lemma parts_trans: "daemon_parts m' m'' \<Longrightarrow> daemon_parts m m' \<Longrightarrow> daemon_parts m m''"
  by (induction rule: daemon_parts.induct) (auto intro: parts_step)

lemma quiet_daemon_parts: "quiet_parts m m' \<Longrightarrow> daemon_parts m m'"
  by (induction rule: quiet_parts.induct) (auto intro: parts_refl parts_step part_quiet)

lemma setKernelPolicy_parts: "daemon_parts m (snd (setKernelPolicy policy chk m))"
  using switch_parts [of m policy chk]
proof (elim disjE exE conjE)
  fix m1
  assume "quiet_parts m m1" "quiet_parts (snd (traverseProcessTreeLocked m1)) (snd (setKernelPolicy policy chk m))"
  then show ?thesis
    using parts_trans [OF quiet_daemon_parts parts_step [OF quiet_daemon_parts part_traverse]] by blast
qed (rule quiet_daemon_parts)

lemma regularCleanup_parts: "daemon_parts m (snd (regularCleanupLocked m))"
proof -
  have "daemon_parts m (tombstoneDeadProcessesLocked m)" by (rule parts_step [OF parts_refl part_bury])
  moreover from this have "daemon_parts m (snd (traverseProcessTreeLocked (logf e (tombstoneDeadProcessesLocked m))))" for e
    by (rule parts_step [OF parts_step [OF _ part_quiet [OF quiet_log]] part_traverse])
  ultimately show ?thesis by (simp add: regularCleanupLocked_def Let_def)
qed

lemma collectTombstones_parts: "daemon_parts m (snd (collectTombstones m))"
proof -
  let ?m = "snd (in_world nowBootNS m)"
  have clock: "daemon_parts m ?m" by (intro parts_step [OF parts_refl] part_quiet quiet_clock)
  then have "daemon_parts m (snd (delete_expired (expired_keys cutoff (mirror ?m)) ?m))" for cutoff
    by (intro parts_step [OF clock] part_delete)
  with clock show ?thesis
    by (auto simp: collectTombstones_def split_beta Let_def intro: parts_trans [OF regularCleanup_parts])
qed

text \<open>After its handler, an event is counted, and the count may start a collection.\<close>

lemma process_record_parts: "daemon_parts (handleEvent event m) (process_record tcev event m)"
proof -
  let ?m = "handleEvent event m"
  let ?n = "?m\<lparr>eventCounter := eventCounter ?m + 1\<rparr>"
  have n: "daemon_parts ?m ?n" by (intro parts_step [OF parts_refl] part_quiet quiet_counter)
  have "daemon_parts ?n (?n\<lparr>eventCounter := 0\<rparr>)" by (rule parts_step [OF parts_refl part_quiet [OF quiet_counter]])
  then have c: "daemon_parts ?m (snd (collectTombstones (?n\<lparr>eventCounter := 0\<rparr>)))"
    using parts_trans [OF collectTombstones_parts parts_trans [OF _ n]] by blast
  have "daemon_parts ?m (logf e (snd (collectTombstones (?n\<lparr>eventCounter := 0\<rparr>))))" for e
    by (rule parts_step [OF c part_quiet [OF quiet_log]])
  with n c show ?thesis by (simp add: process_record_def split_beta Let_def split: option.split)
qed

end
