(* ===== verification/BpfSpec.thy ===== *)
theory BpfSpec
  imports Bpf
begin

text \<open>
  What the BPF programs promise: the fork program passes the mark on before anyone hears of the
  child, the exec program decides as the active policy says, and the daemon, when it handles the
  exec event, comes to the same decision as the program.
\<close>

definition mark_of :: "process_value option \<Rightarrow> (i8 \<times> u64) option" where
  "mark_of x = (case x of None \<Rightarrow> None
     | Some v \<Rightarrow> if live_mark v then Some (Priority v, Mark v) else None)"

lemma mark_of_simps [simp]:
  "mark_of None = None"
  "mark_of (Some v) = (if live_mark v then Some (Priority v, Mark v) else None)"
  by (simp_all add: mark_of_def)

section \<open>Fork\<close>

text \<open>A child nothing is known of gets its parent's mark, inherited, before the event is sent.\<close>

lemma fork_passes_mark:
  assumes "tt_pid child = tt_tgid child"
    and "mget (k_processes w) (process_key_from_task child) = None"
    and "handle_sched_process_fork parent child now None True room w = (event, w')"
  shows "mark_of (mget (k_processes w') (process_key_from_task child)) =
      mark_of (mget (k_processes w) (process_key_from_task parent))"
    and "mget (k_processes w') (process_key_from_task child) = Some v \<Longrightarrow> \<not> Inheritance v"
    and "k \<noteq> process_key_from_task child \<Longrightarrow> mget (k_processes w') k = mget (k_processes w) k"
    and "event = Some e \<Longrightarrow> ev_HasMark e \<longleftrightarrow> mark_of (mget (k_processes w) (process_key_from_task parent)) \<noteq> None"
  using assms
  by (auto simp: handle_sched_process_fork_def bpf_inherit_def submit_def Let_def split: option.splits if_splits)

section \<open>Exec\<close>

text \<open>What the rule table of the active generation says of a name.\<close>

definition kernel_decision :: "i8 list \<Rightarrow> world \<Rightarrow> (i8 \<times> u64) option" where
  "kernel_decision comm w =
     map_option (\<lambda>r. (rv_Priority r, rv_Mark r))
       (mget (k_comm_rules w) \<lparr>rk_Generation = ps_Generation (k_active_policy w), rk_Comm = comm\<rparr>)"

text \<open>A value the exec program meets: not from the future, and not tombstoned.\<close>

definition current :: "u64 \<Rightarrow> u64 \<Rightarrow> process_value \<Rightarrow> bool" where
  "current g now v \<longleftrightarrow> \<not> Tombstone v \<and> Generation v \<le> g \<and> Timestamp v \<le> now"

lemma authoritative_miss:
  assumes "ps_Mode (k_active_policy w) = KERNEL_POLICY_AUTHORITATIVE" "ps_Generation (k_active_policy w) \<noteq> 0"
    and "kernel_decision comm w = None" "\<And>old. existing = Some old \<Longrightarrow> current (ps_Generation (k_active_policy w)) now old"
  shows "case existing of None \<Rightarrow> exec_candidate comm existing now w = None
    | Some old \<Rightarrow> \<exists>c. exec_candidate comm existing now w = Some c \<and> \<not> HasMark c \<and> \<not> Tombstone c \<and>
        Generation c = ps_Generation (k_active_policy w) \<and> next_process_value_wins old c"
  using assms
  by (auto simp: exec_candidate_def kernel_decision_def current_def next_process_value_wins_def Let_def zero_value_def
      split: option.splits)

lemma authoritative_hit:
  assumes "ps_Mode (k_active_policy w) = KERNEL_POLICY_AUTHORITATIVE" "ps_Generation (k_active_policy w) \<noteq> 0"
    and "kernel_decision comm w = Some (prio, mk)"
  obtains c where "exec_candidate comm existing now w = Some c"
    "c = \<lparr>Tombstone = False, Inheritance = True, HasMark = True, Priority = prio,
          Generation = ps_Generation (k_active_policy w), Mark = mk, Timestamp = now\<rparr>"
  using assms by (auto simp: exec_candidate_def kernel_decision_def Let_def zero_value_def)

text \<open>A current value loses to the candidate unless it is of the generation and of a higher priority.\<close>

lemma hit_wins:
  assumes "current g now old"
  shows "next_process_value_wins old
      \<lparr>Tombstone = False, Inheritance = True, HasMark = True, Priority = prio, Generation = g, Mark = mk, Timestamp = now\<rparr> \<longleftrightarrow>
    \<not> (Generation old = g \<and> i8_less prio (Priority old))"
  using assms by (auto simp: current_def next_process_value_wins_def i8_eq_iff)


text \<open>
  Under an authoritative policy an exec takes the policy's decision: a miss clears the mark, and
  a hit sets it unless the process has, in this generation, a value of a higher priority.
\<close>

lemma exec_decides:
  assumes auth: "ps_Mode (k_active_policy w) = KERNEL_POLICY_AUTHORITATIVE"
    and g: "g = ps_Generation (k_active_policy w)" "g \<noteq> 0"
    and old: "\<And>old. mget (k_processes w) key = Some old \<Longrightarrow> current g now old"
    and run: "exec_store key comm now True w = (v, w')"
  shows "mark_of (mget (k_processes w') key) =
      (case mget (k_processes w) key of
         Some old \<Rightarrow>
           if Generation old = g \<and> (\<exists>prio mk. kernel_decision comm w = Some (prio, mk) \<and> i8_less prio (Priority old))
           then mark_of (Some old) else kernel_decision comm w
       | None \<Rightarrow> kernel_decision comm w)"
proof (cases "kernel_decision comm w")
  case None
  then show ?thesis
    using authoritative_miss [of w comm "mget (k_processes w) key" now] assms
    by (auto simp: exec_store_def split: option.splits)
next
  case (Some d)
  obtain prio mk where d: "d = (prio, mk)" by fastforce
  obtain c where c: "exec_candidate comm (mget (k_processes w) key) now w = Some c"
    "c = \<lparr>Tombstone = False, Inheritance = True, HasMark = True, Priority = prio, Generation = g, Mark = mk, Timestamp = now\<rparr>"
    using authoritative_hit [OF auth, of comm prio mk] Some g d by metis
  then show ?thesis
    using run Some d hit_wins [OF old] c
    by (cases "mget (k_processes w) key") (auto simp: exec_store_def)
qed

section \<open>The daemon and the program decide alike\<close>

text \<open>What the program leaves behind, with the event that reports it.\<close>

lemma exec_store_result:
  assumes "exec_store key comm now True w = (v, w')"
  shows "mget (k_processes w) key = None \<Longrightarrow> mget (k_processes w') key = (if v = zero_value then None else Some v)"
    and "mget (k_processes w) key = Some old \<Longrightarrow> mget (k_processes w') key = Some v \<and> v = preferProcessValue old v \<and> (v = old \<or> v \<noteq> zero_value)"
proof -
  have nz: "c \<noteq> zero_value" if "exec_candidate comm x now w = Some c" for c x
    using that by (auto simp: exec_candidate_def Let_def zero_value_def split: option.splits if_splits)
  have wins: "preferProcessValue old c = c" if "next_process_value_wins old c" for c
    using that by (simp add: kernel_wins_iff prefer_next)
  show "mget (k_processes w) key = None \<Longrightarrow> mget (k_processes w') key = (if v = zero_value then None else Some v)"
    and "mget (k_processes w) key = Some old \<Longrightarrow> mget (k_processes w') key = Some v \<and> v = preferProcessValue old v \<and> (v = old \<or> v \<noteq> zero_value)"
    using assms nz wins by (auto simp: exec_store_def go.merge_idem Let_def split: option.splits if_splits)
qed


lemma exec_known_program:
  assumes "kern = mget (k_processes (wld m))" "kern key = mget (mirror m) key"
    and "exec_store key comm now True (wld m) = (v, w')" "ev_Key e = key" "ev_Value e = v"
  shows "mget (mirror (snd (exec_known e (m\<lparr>wld := w2\<rparr>)))) key = mget (k_processes w') key"
  using exec_store_result [OF assms(3)] assms
  by (cases "mget (mirror m) key") (auto simp: exec_known_entry split: option.split)

text \<open>
  The handler, on whatever world it finds, then decides once more, by the checker. If the checker says what the rule table
  said, the outcome bears the same mark.
\<close>

lemma exec_decide_mirror:
  assumes "decides m d" "d info = (prio, mk, ok)"
  shows "mirror (snd (exec_decide e info known m)) =
    (if ok then mirror_upsert (ev_Key e) \<lparr>Tombstone = False, Inheritance = True, HasMark = True, Priority = prio,
        Generation = generation m, Mark = mk, Timestamp = fst (nowBootNS (wld m))\<rparr> (mirror m)
     else case known of None \<Rightarrow> mirror m
        | Some v \<Rightarrow> mirror_upsert (ev_Key e) \<lparr>Tombstone = False, Inheritance = Inheritance v, HasMark = False,
            Priority = Priority v, Generation = generation m, Mark = Mark v,
            Timestamp = fst (nowBootNS (wld m))\<rparr> (mirror m))"
proof -
  have "fst (run_check info m) = (prio, mk, ok)" using assms by (simp add: decides_run)
  then show ?thesis
    by (simp add: exec_decide_def newProcessValue_def newNoMarkProcessValue_def in_world_def split_beta Let_def
        split: option.split)
qed

lemma exec_store_cases:
  assumes auth: "ps_Mode (k_active_policy w) = KERNEL_POLICY_AUTHORITATIVE"
    and g: "g = ps_Generation (k_active_policy w)" "g \<noteq> 0"
    and "\<forall>old. mget (k_processes w) key = Some old \<longrightarrow> current g now old"
    and run: "exec_store key comm now True w = (v, w')"
  obtains (none) "kernel_decision comm w = None" "mget (k_processes w') key = None" "v = zero_value"
  | (miss) kv where "kernel_decision comm w = None" "mget (k_processes w') key = Some kv"
      "current g now kv" "\<not> HasMark kv"
  | (hit) prio mk kv where "kernel_decision comm w = Some (prio, mk)" "mget (k_processes w') key = Some kv"
      "current g now kv" "HasMark kv \<and> Priority kv = prio \<and> Mark kv = mk \<or> Generation kv = g \<and> i8_less prio (Priority kv)"
proof (cases "kernel_decision comm w")
  note old = assms(4) [rule_format]
  case None
  have cand: "current g now c" if "exec_candidate comm x now w = Some c" for c x
    using that g by (auto simp: exec_candidate_def current_def Let_def zero_value_def split: option.splits if_splits)
  show thesis
  proof (cases "mget (k_processes w) key")
    case None': None
    then show thesis
      using authoritative_miss [OF auth _ None, of None now] none None g run by (simp add: exec_store_def Let_def)
  next
    case (Some o')
    then obtain c where "exec_candidate comm (Some o') now w = Some c" "\<not> HasMark c" "next_process_value_wins o' c"
      using authoritative_miss [OF auth _ None, of "Some o'" now] g old by auto
    then show thesis using miss [OF None, of c] cand run Some by (auto simp: exec_store_def Let_def)
  qed
next
  note old = assms(4) [rule_format]
  case (Some d)
  obtain prio mk where d: "d = (prio, mk)" by fastforce
  obtain c where c: "exec_candidate comm (mget (k_processes w) key) now w = Some c"
    "c = \<lparr>Tombstone = False, Inheritance = True, HasMark = True, Priority = prio, Generation = g, Mark = mk, Timestamp = now\<rparr>"
    using authoritative_hit [OF auth, of comm prio mk] Some g d by metis
  have cur: "current g now c" and mark: "HasMark c \<and> Priority c = prio \<and> Mark c = mk"
    using c(2) by (simp_all add: current_def)
  show thesis
  proof (cases "mget (k_processes w) key")
    case None
    then have "mget (k_processes w') key = Some c" using run c(1) by (auto simp: exec_store_def Let_def)
    then show thesis using cur mark by (intro hit [OF Some [unfolded d]] disjI1)
  next
    case (Some a)
    note hit' = hit [OF \<open>kernel_decision comm w = Some d\<close> [unfolded d]]
    show thesis
    proof (cases "next_process_value_wins a c")
      case True
      then have "mget (k_processes w') key = Some c" using run c(1) Some by (auto simp: exec_store_def Let_def)
      then show thesis using cur mark by (intro hit' disjI1)
    next
      case False
      then have "mget (k_processes w') key = Some a" using run c(1) Some by (auto simp: exec_store_def Let_def)
      moreover have "Generation a = g \<and> i8_less prio (Priority a)"
        using False hit_wins [OF old [OF Some], of prio mk] by (simp add: c(2))
      ultimately show thesis using old [OF Some] by (intro hit' disjI2)
    qed
  qed
qed

lemma handleExec_confirms:
  assumes auth: "ps_Mode (k_active_policy (wld m)) = KERNEL_POLICY_AUTHORITATIVE"
    and g: "generation m = ps_Generation (k_active_policy (wld m))" "generation m \<noteq> 0"
    and same: "mget (k_processes (wld m)) key = mget (mirror m) key"
    and old: "\<forall>old. mget (mirror m) key = Some old \<longrightarrow> current (generation m) now old"
    and run: "exec_store key comm now True (wld m) = (v, w')" and e: "ev_Key e = key" "ev_Value e = v"
    and d: "decides m d" "d info = (case kernel_decision comm (wld m) of None \<Rightarrow> (0, 0, False) | Some (p, k) \<Rightarrow> (p, k, True))"
  shows "mark_of (mget (mirror (handleExec e info (m\<lparr>wld := w2\<rparr>))) key) = mark_of (mget (k_processes w') key)"
proof -
  let ?m = "snd (exec_known e (m\<lparr>wld := w2\<rparr>))" and ?known = "fst (exec_known e (m\<lparr>wld := w2\<rparr>))"
  have known: "mget (mirror ?m) key = mget (k_processes w') key" "?known = mget (k_processes w') key"
    using exec_known_program [OF refl same run e] exec_known_value [of e "m\<lparr>wld := w2\<rparr>"] e(1) by simp_all
  have gen: "generation ?m = generation m" and dec: "decides ?m d"
    using exec_known_fields [of e "m\<lparr>wld := w2\<rparr>"] decides_settings [OF exec_known_frame [of e "m\<lparr>wld := w2\<rparr>"]] d(1)
    by (simp_all add: decides_def)
  let ?new = "\<lambda>x. mirror_upsert key x (mirror ?m)"
  have out: "mirror (handleExec e info (m\<lparr>wld := w2\<rparr>)) = mirror (snd (exec_decide e info ?known ?m))"
    if "\<not> (case ?known of None \<Rightarrow> Tombstone v | Some kv \<Rightarrow> Tombstone kv)"
    using that e(2) by (cases ?known) (simp_all add: handleExec_mirror split_beta)
  note decided = exec_decide_mirror [OF dec, of info, unfolded d(2) gen e(1)]
  show ?thesis
  proof (cases rule: exec_store_cases [OF auth g old [folded same] run, case_names none miss hit])
    case none
    then show ?thesis using known out decided [of 0 0 False e ?known] by (simp add: zero_value_def)
  next
    case (miss kv)
    let ?nv = "\<lparr>Tombstone = False, Inheritance = Inheritance kv, HasMark = False, Priority = Priority kv,
      Generation = generation m, Mark = Mark kv, Timestamp = fst (nowBootNS (wld ?m))\<rparr>"
    have "mirror (handleExec e info (m\<lparr>wld := w2\<rparr>)) = ?new ?nv"
      using miss out known(2) decided [of 0 0 False e ?known] by (simp add: current_def e(1))
    then show ?thesis
      using miss known(1) prefer_in [of kv ?nv] by (auto simp: mir.find_upsert)
  next
    case (hit prio mk kv)
    let ?nv = "\<lparr>Tombstone = False, Inheritance = True, HasMark = True, Priority = prio,
      Generation = generation m, Mark = mk, Timestamp = fst (nowBootNS (wld ?m))\<rparr>"
    have "mirror (handleExec e info (m\<lparr>wld := w2\<rparr>)) = ?new ?nv"
      using hit out known(2) decided [of prio mk True e ?known] by (simp add: current_def e(1))
    moreover have "mark_of (Some (preferProcessValue kv ?nv)) = mark_of (Some kv)"
      using hit(3,4)
    proof (elim disjE)
      assume "HasMark kv \<and> Priority kv = prio \<and> Mark kv = mk"
      then show ?thesis using hit(3) prefer_in [of kv ?nv] by (auto simp: current_def)
    next
      assume "Generation kv = generation m \<and> i8_less prio (Priority kv)"
      then have "preferProcessValue kv ?nv = kv"
        using hit(3) by (auto simp: preferProcessValue_def current_def)
      then show ?thesis by simp
    qed
    ultimately show ?thesis using hit(2) known(1) by (simp add: mir.find_upsert)
  qed
qed


text \<open>In any state of the daemon that the invariant allows.\<close>

lemma authoritative_lookup:
  assumes "daemon_inv m" "kp_Mode (kernelPolicy m) = KernelPolicyAuthoritative"
    and "makeCommRuleKey (generation m) (pi_Comm info) = Inr \<lparr>rk_Generation = generation m, rk_Comm = comm\<rparr>"
  shows "k_active_policy (wld m) = \<lparr>ps_Generation = generation m, ps_Mode = KERNEL_POLICY_AUTHORITATIVE\<rparr>"
    and "generation m \<noteq> 0"
    and "exactCommCheck (kp_CommRules (kernelPolicy m)) info =
      (case kernel_decision comm (wld m) of None \<Rightarrow> (0, 0, False) | Some (p, k) \<Rightarrow> (p, k, True))"
proof -
  have act: "active_complete m" and base: "rules_base m" using assms(1) by (simp_all add: daemon_inv_def rules_inv_def)
  show slot: "k_active_policy (wld m) = \<lparr>ps_Generation = generation m, ps_Mode = KERNEL_POLICY_AUTHORITATIVE\<rparr>"
    using act assms(2) by (auto simp: active_complete_def KERNEL_POLICY_AUTHORITATIVE_def)
  show "generation m \<noteq> 0" using base by (auto simp: rules_base_def)
  have valid: "validateExactComm (pi_Comm info) = None"
    using assms(3) by (cases "validateExactComm (pi_Comm info)") (simp_all add: makeCommRuleKey_def)
  have comm: "comm = comm_bytes (pi_Comm info)"
    using assms(3) makeCommRuleKey_ok [OF valid, of "generation m"] by simp
  have normal: "normal_policy (kernelPolicy m)" using act by (simp add: active_complete_def)
  have "kernel_decision comm (wld m) = map_option (\<lambda>r. (rv_Priority r, rv_Mark r))
      (mget (rule_entries (generation m) (kp_CommRules (kernelPolicy m))) \<lparr>rk_Generation = generation m, rk_Comm = comm\<rparr>)"
    using act by (simp add: kernel_decision_def slot active_complete_def complete_generation_def)
  also have "\<dots> = map_option (\<lambda>r. (rv_Priority r, rv_Mark r))
      (map_option rule_value (deciding_rule (pi_Comm info) (kp_CommRules (kernelPolicy m))))"
    using normal valid by (simp add: comm rule_entries_lookup deciding_rule_distinct normal_policy_def)
  finally show "exactCommCheck (kp_CommRules (kernelPolicy m)) info =
      (case kernel_decision comm (wld m) of None \<Rightarrow> (0, 0, False) | Some (p, k) \<Rightarrow> (p, k, True))"
    by (auto simp: exactCommCheck_decision rule_value_def split: option.split)
qed

theorem daemon_confirms_exec:
  assumes inv: "daemon_inv m" and mode: "kp_Mode (kernelPolicy m) = KernelPolicyAuthoritative"
    and d: "decides m (exactCommCheck (kp_CommRules (kernelPolicy m)))" and tt: "tt_pid t = tt_tgid t"
    and old: "\<forall>old. mget (mirror m) (process_key_from_task t) = Some old \<longrightarrow>
      \<not> Tombstone old \<and> Timestamp old \<le> now"
    and run: "handle_sched_process_exec t now True True (wld m) = (Some e, w')"
    and name: "makeCommRuleKey (generation m) (pi_Comm (event_info e (m\<lparr>wld := w'\<rparr>))) =
      Inr \<lparr>rk_Generation = generation m, rk_Comm = tt_comm t\<rparr>"
  shows "mark_of (mget (mirror (handleEvent e (m\<lparr>wld := w'\<rparr>))) (process_key_from_task t)) =
      mark_of (mget (k_processes w') (process_key_from_task t))"
    and "mark_of (mget (k_processes w') (process_key_from_task t)) =
      (case mget (mirror m) (process_key_from_task t) of
         Some old \<Rightarrow>
           if Generation old = generation m \<and>
              (\<exists>prio mk. kernel_decision (tt_comm t) (wld m) = Some (prio, mk) \<and> i8_less prio (Priority old))
           then mark_of (Some old) else kernel_decision (tt_comm t) (wld m)
       | None \<Rightarrow> kernel_decision (tt_comm t) (wld m))"
proof -
  let ?key = "process_key_from_task t" and ?info = "event_info e (m\<lparr>wld := w'\<rparr>)"
  note lookup = authoritative_lookup [OF inv mode name]
  obtain v where store: "exec_store ?key (tt_comm t) now True (wld m) = (v, w')"
    and e: "ev_Key e = ?key" "ev_Value e = v" "ev_Type e = eventExec"
    using run tt by (auto simp: handle_sched_process_exec_def submit_def split_beta Let_def eventExec_def prod_eq_iff)
  have same: "mget (k_processes (wld m)) ?key = mget (mirror m) ?key"
    using inv by (simp add: daemon_inv_def maps_ok_def synced_def)
  have current: "\<forall>old. mget (mirror m) ?key = Some old \<longrightarrow> current (generation m) now old"
    using old inv by (auto simp: current_def daemon_inv_def gens_le_def)
  have auth: "ps_Mode (k_active_policy (wld m)) = KERNEL_POLICY_AUTHORITATIVE"
    and gen: "generation m = ps_Generation (k_active_policy (wld m))" by (simp_all add: lookup(1))
  have "handleEvent e (m\<lparr>wld := w'\<rparr>) =
      handleExec e ?info (m\<lparr>wld := snd (procInfoFromEvent e w')\<rparr>)"
    using e(3) by (simp add: handleEvent_exec in_world_def split_beta)
  then show "mark_of (mget (mirror (handleEvent e (m\<lparr>wld := w'\<rparr>))) ?key) = mark_of (mget (k_processes w') ?key)"
    using handleExec_confirms [OF auth gen lookup(2) same current store e(1,2) d lookup(3)] by simp
  show "mark_of (mget (k_processes w') ?key) =
      (case mget (mirror m) ?key of
         Some old \<Rightarrow>
           if Generation old = generation m \<and>
              (\<exists>prio mk. kernel_decision (tt_comm t) (wld m) = Some (prio, mk) \<and> i8_less prio (Priority old))
           then mark_of (Some old) else kernel_decision (tt_comm t) (wld m)
       | None \<Rightarrow> kernel_decision (tt_comm t) (wld m))"
    using exec_decides [OF auth gen lookup(2) _ store] current by (simp add: same)
qed

text \<open>A process with a tombstone keeps it, whatever the policy says of its new name.\<close>

lemma tombstone_survives_exec:
  assumes inv: "daemon_inv m" and tt: "tt_pid t = tt_tgid t"
    and old: "mget (mirror m) (process_key_from_task t) = Some old" "Tombstone old"
    and run: "handle_sched_process_exec t now stored room (wld m) = (Some e, w')"
  shows "mget (k_processes w') (process_key_from_task t) = Some old"
    and "\<exists>u. mget (mirror (handleEvent e (m\<lparr>wld := w'\<rparr>))) (process_key_from_task t) = Some u \<and> Tombstone u"
proof -
  let ?key = "process_key_from_task t"
  have same: "mget (k_processes (wld m)) ?key = Some old"
    using inv old(1) by (simp add: daemon_inv_def maps_ok_def synced_def)
  have "\<not> next_process_value_wins old c" if "exec_candidate comm x now w = Some c" for comm x w c
    using that old(2)
    by (auto simp: exec_candidate_def next_process_value_wins_def Let_def zero_value_def split: option.splits if_splits)
  then have "snd (exec_store ?key (tt_comm t) now stored (wld m)) = wld m"
    by (auto simp: exec_store_def same Let_def split: option.split)
  then have "w' = wld m"
    using run tt by (auto simp: handle_sched_process_exec_def submit_def split_beta Let_def)
  then show "mget (k_processes w') ?key = Some old" using same by simp
  show "\<exists>u. mget (mirror (handleEvent e (m\<lparr>wld := w'\<rparr>))) ?key = Some u \<and> Tombstone u"
    using growsD [OF upserts_grows [OF handleEvent_upserts], of "m\<lparr>wld := w'\<rparr>" ?key old e] old
    by (auto dest: rank_le_Tombstone)
qed

section \<open>The events\<close>

text \<open>What can be relied on of a record, whichever program submitted it.\<close>

definition well_formed_event :: "mark_event \<Rightarrow> bool" where
  "well_formed_event e \<longleftrightarrow>
     ev_Type e \<in> {eventFork, eventExit, eventExec} \<and> ev_Pid e = Tgid (ev_Key e) \<and>
     (ev_Type e = eventFork \<longrightarrow> ev_Ppid e = Tgid (ev_ParentKey e)) \<and>
     (ev_Type e \<noteq> eventFork \<longrightarrow> ev_ParentKey e = zero_key \<and> ev_Ppid e = 0) \<and>
     (ev_HasMark e \<longrightarrow> HasMark (ev_Value e)) \<and>
     (ev_HasMark e \<and> ev_Type e \<noteq> eventExit \<longrightarrow> \<not> Tombstone (ev_Value e)) \<and>
     (ev_Type e = eventExec \<longrightarrow> (ev_HasMark e \<longleftrightarrow> live_mark (ev_Value e)))"

lemma fork_well_formed:
  "fst (handle_sched_process_fork parent child now race stored room w) = Some e \<Longrightarrow> well_formed_event e"
  by (auto simp: handle_sched_process_fork_def bpf_inherit_def submit_def well_formed_event_def
      process_key_from_task_def eventFork_def eventExit_def eventExec_def split_beta Let_def zero_value_def
      split: option.splits if_splits)

lemma exit_well_formed: "fst (handle_sched_process_exit t now stored room w) = Some e \<Longrightarrow> well_formed_event e"
  by (auto simp: handle_sched_process_exit_def submit_def well_formed_event_def
      process_key_from_task_def eventFork_def eventExit_def eventExec_def split_beta Let_def zero_value_def
      split: option.splits if_splits)

lemma exec_well_formed: "fst (handle_sched_process_exec t now stored room w) = Some e \<Longrightarrow> well_formed_event e"
  by (auto simp: handle_sched_process_exec_def submit_def well_formed_event_def
      process_key_from_task_def eventFork_def eventExit_def eventExec_def split_beta Let_def split: if_splits)

end
