(* ===== verification/Interleaving.thy ===== *)
theory Interleaving
  imports DaemonParts BpfSpec
begin

text \<open>
  The BPF programs and the daemon side by side: any order of program runs, of the daemon
  taking events from the ring, of traversals, of explicit marks, and of the parts of policy
  switches and collections. The programs write the kernel map before the daemon hears of it, and
  the daemon writes the map without reading it, so the two copies of an entry may differ for a
  while; the invariant says for how long.

  A program runs to its end between two steps of the daemon; only runs for the leader of a process
  are steps, since for any other thread a program does nothing. The handling of an
  event and a traversal, which do not read the kernel map, are one step each: a program that runs in
  the middle of one is taken to run before or after it.
  The fork program alone looks twice, and a value the daemon stores for the child in between is
  as good as one stored before it (\<open>fork_race\<close>).
\<close>

section \<open>Programs\<close>

text \<open>What the system relies on of a program that watches the process \<open>key\<close>.\<close>

locale bpf_program =
  fixes key :: process_key
    and prog :: "world \<Rightarrow> mark_event option \<times> world"
  assumes other: "k \<noteq> key \<Longrightarrow> mget (k_processes (snd (prog w))) k = mget (k_processes w) k"
    and keeps: "no_faults (snd (prog w)) = no_faults w"
      "wfmap (k_processes w) \<Longrightarrow> wfmap (k_processes (snd (prog w)))"
    and stays: "mget (k_processes w) key = Some v \<Longrightarrow> mget (k_processes (snd (prog w))) key \<noteq> None"
    and event_key: "fst (prog w) = Some e \<Longrightarrow> ev_Key e = key"
begin

lemma live_prog: "live_maps m \<Longrightarrow> live_maps (m\<lparr>wld := snd (prog (wld m))\<rparr>)"
  by (simp add: live_maps_def keeps)

lemma grows_prog: "mget (k_processes (snd (prog w))) k = None \<Longrightarrow> mget (k_processes w) k = None"
  using other stays by (cases "k = key") (metis not_None_eq)+

end

interpretation fork: bpf_program "process_key_from_task child"
    "handle_sched_process_fork parent child now None stored room" for parent child now stored room
  by unfold_locales
    (auto simp: handle_sched_process_fork_def bpf_inherit_def submit_def split_beta Let_def
      split: option.splits if_splits)

interpretation exit: bpf_program "process_key_from_task t" "handle_sched_process_exit t now stored room"
  for t now stored room
  by unfold_locales
    (auto simp: handle_sched_process_exit_def submit_def split_beta Let_def split: option.splits if_splits)

interpretation exec: bpf_program "process_key_from_task t" "handle_sched_process_exec t now stored room"
  for t now stored room
  by unfold_locales
    (auto simp: handle_sched_process_exec_def exec_store_def submit_def split_beta Let_def
      split: option.splits if_splits)

text \<open>
  A value another writer stores for the child while the fork program runs, between its lookup
  and its update: the run is one after that write, or the write is never looked at.
\<close>

lemma fork_race:
  assumes "mget (k_processes w) (process_key_from_task child) = None"
    and "process_key_from_task child \<noteq> process_key_from_task parent"
  shows "handle_sched_process_fork parent child now (Some other) stored room w \<in>
    {handle_sched_process_fork parent child now None stored room
       (w\<lparr>k_processes := mput (process_key_from_task child) other (k_processes w)\<rparr>),
     handle_sched_process_fork parent child now None stored room w}"
  using assms by (simp add: handle_sched_process_fork_def bpf_inherit_def submit_def split_beta Let_def
      split: option.split)

section \<open>The system\<close>

text \<open>
  The daemon, the ring, and what an observer has seen: the processes a program has run for, the
  ones that exited, those whose exit event was submitted, and those of which an event was
  dropped since the last traversal.
\<close>

record 'c system =
  sy_marker :: "'c marker"
  sy_ring :: "mark_event list"
  sy_born :: "process_key set"
  sy_gone :: "process_key set"
  sy_heard :: "process_key set"
  sy_lost :: "process_key set"

definition run_program ::
    "process_key \<Rightarrow> (world \<Rightarrow> mark_event option \<times> world) \<Rightarrow> 'c system \<Rightarrow> 'c system" where
  "run_program key prog s =
     (let (event, w) = prog (wld (sy_marker s))
      in s\<lparr>sy_marker := (sy_marker s)\<lparr>wld := w\<rparr>,
           sy_ring := sy_ring s @ (case event of None \<Rightarrow> [] | Some e \<Rightarrow> [e]),
           sy_born := insert key (sy_born s),
           sy_lost := (case event of None \<Rightarrow> insert key (sy_lost s) | Some e \<Rightarrow> sy_lost s)\<rparr>)"

text \<open>An exit is seen, and heard of if its event was submitted.\<close>

definition exited :: "process_key \<Rightarrow> bool \<Rightarrow> 'c system \<Rightarrow> 'c system" where
  "exited key room s =
     s\<lparr>sy_gone := insert key (sy_gone s), sy_heard := (if room then insert key (sy_heard s) else sy_heard s)\<rparr>"

text \<open>
  A fork is the first a program hears of a process, a process exits once, the ring gives its
  events in order, and the collector takes only such processes for dead whose exit was seen.
  Otherwise anything goes: updates and submissions of the programs fail or succeed, and a process
  whose exit was seen may still be listed in \<^verbatim>\<open>/proc\<close> (a zombie), be marked, and exec (another
  thread of it does, which takes its identity over). The set \<open>over\<close> is of processes for which
  that does not happen: their exit is the last of them.
\<close>

inductive sys_step :: "process_key set \<Rightarrow> 'c system \<Rightarrow> 'c system \<Rightarrow> bool" for over where
  sys_fork: "process_key_from_task child \<notin> sy_born s \<Longrightarrow> tt_pid child = tt_tgid child \<Longrightarrow>
    sys_step over s (run_program (process_key_from_task child)
      (handle_sched_process_fork parent child now None stored room) s)"
| sys_exec: "process_key_from_task t \<notin> over \<inter> sy_gone s \<Longrightarrow> tt_pid t = tt_tgid t \<Longrightarrow>
    sys_step over s (run_program (process_key_from_task t) (handle_sched_process_exec t now stored room) s)"
| sys_exit: "process_key_from_task t \<notin> sy_gone s \<Longrightarrow> tt_pid t = tt_tgid t \<Longrightarrow>
    sys_step over s (exited (process_key_from_task t) room
      (run_program (process_key_from_task t) (handle_sched_process_exit t now stored room) s))"
| sys_event: "sy_ring s = event # ring \<Longrightarrow>
    sys_step over s (s\<lparr>sy_ring := ring, sy_marker := handleEvent event (sy_marker s)\<rparr>)"
| sys_traverse: "\<forall>p \<in> set (listing_of (sy_marker s)). pi_Key p \<notin> over \<inter> sy_gone s \<Longrightarrow>
    sys_step over s (s\<lparr>sy_lost := {}, sy_marker := snd (traverseProcessTreeLocked (sy_marker s))\<rparr>)"
| sys_mark: "key \<notin> over \<inter> sy_gone s \<Longrightarrow>
    sys_step over s (s\<lparr>sy_marker := setProcessMark key priority mark (sy_marker s)\<rparr>)"
| sys_quiet: "quiet_part (sy_marker s) m \<Longrightarrow> sys_step over s (s\<lparr>sy_marker := m\<rparr>)"
| sys_bury: "\<forall>k \<in> set (fst (find_dead (mirror (sy_marker s)) (sy_marker s))). k \<in> sy_gone s \<Longrightarrow>
    sys_step over s (s\<lparr>sy_marker := tombstoneDeadProcessesLocked (sy_marker s)\<rparr>)"
| sys_delete: "sys_step over s (s\<lparr>sy_marker :=
    snd (delete_expired (expired_keys cutoff (mirror (sy_marker s))) (sy_marker s))\<rparr>)"

inductive sys_steps :: "process_key set \<Rightarrow> 'c system \<Rightarrow> 'c system \<Rightarrow> bool" for over where
  syss_refl: "sys_steps over s s"
| syss_step: "sys_steps over s s' \<Longrightarrow> sys_step over s' s'' \<Longrightarrow> sys_steps over s s''"

text \<open>With fewer processes that are over with their exit there are more steps.\<close>

lemma sys_step_mono: "sys_step over s s' \<Longrightarrow> few \<subseteq> over \<Longrightarrow> sys_step few s s'"
  by (induction rule: sys_step.induct) (auto intro: sys_step.intros)

lemma sys_steps_mono: "sys_steps over s s' \<Longrightarrow> few \<subseteq> over \<Longrightarrow> sys_steps few s s'"
  by (induction rule: sys_steps.induct) (auto intro: sys_steps.intros sys_step_mono)

text \<open>
  Every part of the daemon's long operations is a step, when \<^verbatim>\<open>/proc\<close> tells the truth of the
  processes that are over and the dead ones are dead.
\<close>

definition truthful :: "process_key set \<Rightarrow> process_key set \<Rightarrow> 'c marker \<Rightarrow> bool" where
  "truthful over gone m \<longleftrightarrow>
     (\<forall>p \<in> set (listing_of m). pi_Key p \<notin> over \<inter> gone) \<and> (\<forall>k \<in> set (fst (find_dead (mirror m) m)). k \<in> gone)"

lemma part_step:
  assumes "daemon_part (sy_marker s) m" "truthful over (sy_gone s) (sy_marker s)"
  shows "\<exists>lost. sys_step over s (s\<lparr>sy_lost := lost, sy_marker := m\<rparr>)"
  using assms
proof (cases rule: daemon_part.cases)
  case part_quiet
  from sys_quiet [OF this] have "sys_step over s (s\<lparr>sy_lost := sy_lost s, sy_marker := m\<rparr>)" by simp
  then show ?thesis by blast
next
  case part_traverse
  then show ?thesis using sys_traverse [of s over] assms(2) by (auto simp: truthful_def)
next
  case part_bury
  have "sys_step over s (s\<lparr>sy_marker := m\<rparr>)" unfolding part_bury by (rule sys_bury) (use assms(2) in \<open>simp add: truthful_def\<close>)
  then have "sys_step over s (s\<lparr>sy_lost := sy_lost s, sy_marker := m\<rparr>)" by simp
  then show ?thesis by blast
next
  case (part_delete cutoff)
  have "sys_step over s (s\<lparr>sy_marker := m\<rparr>)" unfolding part_delete by (rule sys_delete)
  then have "sys_step over s (s\<lparr>sy_lost := sy_lost s, sy_marker := m\<rparr>)" by simp
  then show ?thesis by blast
qed

definition sys_start :: "'c marker \<Rightarrow> 'c system" where
  "sys_start m = \<lparr>sy_marker = m, sy_ring = [], sy_born = {}, sy_gone = {}, sy_heard = {}, sy_lost = {}\<rparr>"


section \<open>What the programs do to their entry\<close>

lemma submit_room: "fst (submit room e w) = (if room then Some e else None)" "snd (submit room e w) = w"
  by (simp_all add: submit_def)

lemma fork_effect:
  assumes "tt_pid child = tt_tgid child"
  obtains (same) e where "handle_sched_process_fork parent child now None stored room w = submit room e w"
      "ev_Key e = process_key_from_task child" "ev_Type e = eventFork"
      "Tombstone (ev_Value e) \<Longrightarrow> mget (k_processes w) (ev_Key e) = Some (ev_Value e)"
  | (inherited) e where
      "handle_sched_process_fork parent child now None stored room w =
         submit room e (w\<lparr>k_processes := mput (ev_Key e) (ev_Value e) (k_processes w)\<rparr>)"
      "ev_Key e = process_key_from_task child" "ev_Type e = eventFork"
      "mget (k_processes w) (ev_Key e) = None" "live_mark (ev_Value e)" "ev_HasMark e"
proof -
  let ?key = "process_key_from_task child" and ?parent_key = "process_key_from_task parent"
  obtain v has_mark w' where r: "bpf_inherit ?key ?parent_key now None stored w = ((v, has_mark), w')"
    by (metis prod.exhaust)
  let ?e = "\<lparr>ev_Type = 1, ev_Key = ?key, ev_ParentKey = ?parent_key, ev_Pid = tt_pid child,
    ev_Ppid = tt_tgid parent, ev_HasMark = has_mark, ev_Value = v, ev_Comm = tt_comm child\<rparr>"
  have run: "handle_sched_process_fork parent child now None stored room w = submit room ?e w'"
    using assms r by (simp add: handle_sched_process_fork_def Let_def)
  have "w' = w \<and> (Tombstone v \<longrightarrow> mget (k_processes w) ?key = Some v) \<or>
      w' = w\<lparr>k_processes := mput ?key v (k_processes w)\<rparr> \<and> mget (k_processes w) ?key = None \<and>
      live_mark v \<and> has_mark"
    using r by (auto simp: bpf_inherit_def Let_def zero_value_def split: option.splits if_splits)
  then show ?thesis
    using run same [of ?e] inherited [of ?e] by (elim disjE) (simp_all add: eventFork_def)
qed

lemma exit_effect:
  assumes "tt_pid t = tt_tgid t"
  obtains (untracked) e where "handle_sched_process_exit t now stored room w = submit room e w"
      "ev_Key e = process_key_from_task t" "ev_Type e = eventExit"
      "mget (k_processes w) (ev_Key e) = None" "\<not> Tombstone (ev_Value e)"
  | (tombstoned) e v where
      "handle_sched_process_exit t now stored room w =
         submit room e (if stored then w\<lparr>k_processes := mput (ev_Key e) (ev_Value e) (k_processes w)\<rparr> else w)"
      "ev_Key e = process_key_from_task t" "ev_Type e = eventExit"
      "mget (k_processes w) (ev_Key e) = Some v" "ev_Value e = v\<lparr>Tombstone := True, Timestamp := now\<rparr>"
proof -
  let ?key = "process_key_from_task t"
  let ?e = "\<lambda>v b. \<lparr>ev_Type = 2, ev_Key = ?key, ev_ParentKey = zero_key, ev_Pid = tt_pid t, ev_Ppid = 0,
    ev_HasMark = b, ev_Value = v, ev_Comm = tt_comm t\<rparr>"
  show ?thesis
  proof (cases "mget (k_processes w) ?key")
    case None
    then show ?thesis
      using assms by (intro untracked [of "?e zero_value False"])
        (simp_all add: handle_sched_process_exit_def eventExit_def zero_value_def)
  next
    case (Some v)
    then show ?thesis
      using assms by (intro tombstoned [of "?e (v\<lparr>Tombstone := True, Timestamp := now\<rparr>) (live_mark v)" v])
        (simp_all add: handle_sched_process_exit_def Let_def eventExit_def)
  qed
qed

lemma exec_candidate_live:
  "exec_candidate comm existing now w = Some c \<Longrightarrow> \<not> Tombstone c \<and> c \<noteq> zero_value"
  by (auto simp: exec_candidate_def Let_def zero_value_def split: option.splits if_splits)

lemma exec_effect:
  assumes "tt_pid t = tt_tgid t"
  obtains (same) e where "handle_sched_process_exec t now stored room w = submit room e w"
      "ev_Key e = process_key_from_task t" "ev_Type e = eventExec"
      "ev_Value e = (case mget (k_processes w) (ev_Key e) of None \<Rightarrow> zero_value | Some old \<Rightarrow> old)"
  | (decided) e where
      "handle_sched_process_exec t now stored room w =
         submit room e (w\<lparr>k_processes := mput (ev_Key e) (ev_Value e) (k_processes w)\<rparr>)"
      "ev_Key e = process_key_from_task t" "ev_Type e = eventExec"
      "\<not> Tombstone (ev_Value e)" "ev_Value e \<noteq> zero_value"
proof -
  let ?key = "process_key_from_task t"
  obtain v w' where r: "exec_store ?key (tt_comm t) now stored w = (v, w')" by (metis prod.exhaust)
  let ?e = "\<lparr>ev_Type = 3, ev_Key = ?key, ev_ParentKey = zero_key, ev_Pid = tt_pid t, ev_Ppid = 0,
    ev_HasMark = live_mark v, ev_Value = v, ev_Comm = tt_comm t\<rparr>"
  have run: "handle_sched_process_exec t now stored room w = submit room ?e w'"
    using assms r by (simp add: handle_sched_process_exec_def Let_def)
  have "w' = w \<and> v = (case mget (k_processes w) ?key of None \<Rightarrow> zero_value | Some old \<Rightarrow> old) \<or>
      w' = w\<lparr>k_processes := mput ?key v (k_processes w)\<rparr> \<and> \<not> Tombstone v \<and> v \<noteq> zero_value"
    using r exec_candidate_live [of "tt_comm t" "mget (k_processes w) ?key" now w]
    by (auto simp: exec_store_def Let_def split: option.splits if_splits)
  then show ?thesis
    using run same [of ?e] decided [of ?e] by (elim disjE) (simp_all add: eventExec_def)
qed


section \<open>The invariant\<close>

abbreviation dead :: "process_value option \<Rightarrow> bool" where
  "dead x \<equiv> (\<forall>v. x = Some v \<longrightarrow> Tombstone v)"

abbreviation entombed :: "process_value option \<Rightarrow> bool" where
  "entombed x \<equiv> (\<exists>v. x = Some v \<and> Tombstone v)"

text \<open>Nothing of a process that is over with its exit is in the ring behind it.\<close>

fun exits_last :: "process_key set \<Rightarrow> mark_event list \<Rightarrow> bool" where
  "exits_last over [] \<longleftrightarrow> True"
| "exits_last over (e # ring) \<longleftrightarrow>
     (ev_Type e = eventExit \<longrightarrow> ev_Key e \<in> over \<longrightarrow> ev_Key e \<notin> ev_Key ` set ring) \<and> exits_last over ring"

lemma exits_last_append [simp]:
  "exits_last over (ring @ [e]) \<longleftrightarrow>
   exits_last over ring \<and>
   (\<forall>e' \<in> set ring. ev_Type e' = eventExit \<longrightarrow> ev_Key e' \<in> over \<longrightarrow> ev_Key e' \<noteq> ev_Key e)"
  by (induction ring) auto

text \<open>The last event of a process the daemon has not handled yet.\<close>

fun last_event :: "process_key \<Rightarrow> mark_event list \<Rightarrow> mark_event option" where
  "last_event k [] = None"
| "last_event k (e # ring) =
     (case last_event k ring of
        Some e' \<Rightarrow> Some e'
      | None \<Rightarrow> if ev_Key e = k then Some e else None)"

lemma last_event_append [simp]:
  "last_event k (ring @ [e]) = (if ev_Key e = k then Some e else last_event k ring)"
  by (induction ring) auto

lemma last_event_Some: "last_event k ring = Some e \<Longrightarrow> e \<in> set ring \<and> ev_Key e = k"
  by (induction ring) (auto split: option.splits if_splits)

lemma last_event_None: "last_event k ring = None \<longleftrightarrow> k \<notin> ev_Key ` set ring"
  by (induction ring) (auto split: option.splits)

text \<open>
  While the copies differ, the kernel's is the value the last event of the process tells of, and
  it is one the handler of that event merges. An exit tells of the value it found, which stays in
  the map if the tombstone could not be stored.
\<close>

definition tells :: "mark_event \<Rightarrow> process_value \<Rightarrow> bool" where
  "tells e v \<longleftrightarrow>
     ev_Value e = (if ev_Type e = eventExit then v\<lparr>Tombstone := True, Timestamp := Timestamp (ev_Value e)\<rparr> else v)"

definition covers :: "'c marker \<Rightarrow> mark_event \<Rightarrow> bool" where
  "covers m e \<longleftrightarrow>
     (\<exists>v. kern m (ev_Key e) = Some v \<and> v \<noteq> zero_value \<and> tells e v) \<and>
     (ev_Type e = eventFork \<and> mget (mirror m) (ev_Key e) = None \<and> ev_HasMark e \<and> HasMark (ev_Value e) \<or>
      ev_Type e = eventExec \<or>
      ev_Type e = eventExit \<and> \<not> entombed (mget (mirror m) (ev_Key e)))"

lemma tells_Tombstone: "tells e v \<Longrightarrow> ev_Type e = eventExit \<Longrightarrow> Tombstone (ev_Value e)"
  unfolding tells_def by (cases "ev_Value e"; cases v) simp

lemma covers_Tombstone: "covers m e \<Longrightarrow> ev_Type e = eventExit \<Longrightarrow> Tombstone (ev_Value e)"
  using tells_Tombstone by (auto simp: covers_def)

lemma covers_value: "covers m e \<Longrightarrow> ev_Type e \<noteq> eventExit \<Longrightarrow> kern m (ev_Key e) = Some (ev_Value e) \<and> ev_Value e \<noteq> zero_value"
  by (auto simp: covers_def tells_def)

definition agree :: "'c marker \<Rightarrow> mark_event list \<Rightarrow> process_key \<Rightarrow> bool" where
  "agree m ring k \<longleftrightarrow>
     kern m k = mget (mirror m) k \<or> (\<exists>e. last_event k ring = Some e \<and> covers m e)"

definition maps_inv :: "'c system \<Rightarrow> bool" where
  "maps_inv s \<longleftrightarrow>
     live_maps (sy_marker s) \<and>
     (\<forall>k. kern (sy_marker s) k = None \<longrightarrow> mget (mirror (sy_marker s)) k = None)"

definition ring_inv :: "process_key set \<Rightarrow> 'c system \<Rightarrow> bool" where
  "ring_inv over s \<longleftrightarrow>
     exits_last over (sy_ring s) \<and> ev_Key ` set (sy_ring s) \<subseteq> sy_born s \<and>
     (\<forall>e \<in> set (sy_ring s). ev_Type e = eventExit \<longrightarrow> ev_Key e \<in> sy_heard s) \<and>
     sy_heard s \<subseteq> sy_gone s \<and> sy_gone s \<subseteq> sy_born s \<and> sy_lost s \<subseteq> sy_born s"

definition tomb_inv :: "'c system \<Rightarrow> bool" where
  "tomb_inv s \<longleftrightarrow>
     (\<forall>k v. mget (mirror (sy_marker s)) k = Some v \<and> Tombstone v \<longrightarrow> k \<in> sy_gone s) \<and>
     (\<forall>k v. kern (sy_marker s) k = Some v \<and> Tombstone v \<longrightarrow> k \<in> sy_gone s) \<and>
     (\<forall>e \<in> set (sy_ring s). Tombstone (ev_Value e) \<longrightarrow> ev_Key e \<in> sy_gone s)"

definition agree_inv :: "'c system \<Rightarrow> bool" where
  "agree_inv s \<longleftrightarrow> (\<forall>k. k \<notin> sy_lost s \<longrightarrow> agree (sy_marker s) (sy_ring s) k)"

text \<open>
  What the handler of an exit makes of the entry: nothing live is left in either copy, for it
  writes both where they differ.
\<close>

definition final :: "'c marker \<Rightarrow> mark_event \<Rightarrow> bool" where
  "final m e \<longleftrightarrow>
     dead (kern m (ev_Key e)) \<or> kern m (ev_Key e) = mget (mirror m) (ev_Key e) \<or>
     Tombstone (ev_Value e) \<and> \<not> entombed (mget (mirror m) (ev_Key e))"

definition ended :: "'c marker \<Rightarrow> mark_event list \<Rightarrow> process_key \<Rightarrow> bool" where
  "ended m ring k \<longleftrightarrow>
     (\<exists>e \<in> set ring. ev_Key e = k \<and> ev_Type e = eventExit \<and> final m e) \<or>
     k \<notin> ev_Key ` set ring \<and> dead (mget (mirror m) k) \<and> dead (kern m k)"

definition exit_inv :: "process_key set \<Rightarrow> 'c system \<Rightarrow> bool" where
  "exit_inv over s \<longleftrightarrow> (\<forall>k \<in> over \<inter> sy_heard s. ended (sy_marker s) (sy_ring s) k)"

definition sys_inv :: "process_key set \<Rightarrow> 'c system \<Rightarrow> bool" where
  "sys_inv over s \<longleftrightarrow> maps_inv s \<and> ring_inv over s \<and> tomb_inv s \<and> agree_inv s \<and> exit_inv over s"

lemma sys_invD:
  assumes "sys_inv over s"
  shows "maps_inv s" "ring_inv over s" "tomb_inv s" "agree_inv s" "exit_inv over s" "live_maps (sy_marker s)"
  using assms by (simp_all add: sys_inv_def maps_inv_def)

lemma sys_start_inv:
  "live_maps m \<Longrightarrow> mirror m = [] \<Longrightarrow> k_processes (wld m) = [] \<Longrightarrow> sys_inv over (sys_start m)"
  by (simp add: sys_inv_def maps_inv_def ring_inv_def tomb_inv_def agree_inv_def agree_def exit_inv_def
      sys_start_def)

section \<open>Joint steps keep it\<close>

lemma jointD:
  assumes "joint K m m'"
  shows "mget (mirror m') k = mget (mirror m) k \<and> kern m' k = kern m k \<or>
    K k \<and> mget (mirror m') k \<noteq> None \<and> kern m' k = mget (mirror m') k"
  using assms by (simp add: joint_def)

lemma joint_grows: "joint K m m' \<Longrightarrow> mget (mirror m) k = None \<or> kern m k = mget (mirror m) k \<Longrightarrow>
    kern m k = None \<longrightarrow> mget (mirror m) k = None \<Longrightarrow> kern m' k = None \<longrightarrow> mget (mirror m') k = None"
  using jointD [of K m m' k] by auto

lemma covers_same:
  "kern m' (ev_Key e) = kern m (ev_Key e) \<Longrightarrow> mget (mirror m') (ev_Key e) = mget (mirror m) (ev_Key e) \<Longrightarrow>
   covers m' e = covers m e"
  by (simp add: covers_def)

lemma agree_cong:
  assumes "kern m' k = kern m k" "mget (mirror m') k = mget (mirror m) k"
    and "last_event k ring' = last_event k ring"
  shows "agree m' ring' k = agree m ring k"
proof -
  have "covers m' e = covers m e" if "last_event k ring = Some e" for e
    using last_event_Some [OF that] assms by (intro covers_same) simp_all
  then show ?thesis using assms by (auto simp: agree_def)
qed

lemma joint_agree: "joint K m m' \<Longrightarrow> agree m ring k \<Longrightarrow> agree m' ring k"
  using jointD [of K m m' k] covers_same [of m' _ m]
  by (auto simp: agree_def dest: last_event_Some)

lemma joint_equal: "joint K m m' \<Longrightarrow> kern m k = mget (mirror m) k \<Longrightarrow> kern m' k = mget (mirror m') k"
  using jointD [of K m m' k] by auto

lemma final_cong:
  "kern m' (ev_Key e) = kern m (ev_Key e) \<Longrightarrow> mget (mirror m') (ev_Key e) = mget (mirror m) (ev_Key e) \<Longrightarrow>
   final m' e = final m e"
  by (simp add: final_def)

lemma ended_cong:
  assumes "kern m' k = kern m k" "mget (mirror m') k = mget (mirror m) k"
  shows "ended m' ring k = ended m ring k"
  unfolding ended_def using assms final_cong [of m' _ m] by (intro arg_cong2 [where f = "(\<or>)"] bex_cong) auto

lemma joint_final: "joint K m m' \<Longrightarrow> final m e \<Longrightarrow> final m' e"
  using jointD [of K m m' "ev_Key e"] by (auto simp: final_def)

lemma joint_other: "joint K m m' \<Longrightarrow> \<not> K k \<Longrightarrow> mget (mirror m') k = mget (mirror m) k \<and> kern m' k = kern m k"
  using jointD [of K m m' k] by auto


section \<open>Programs keep it\<close>

text \<open>
  A program that leaves the map alone, or stores the value its event brings; \<open>room\<close> is whether
  the event is submitted. Exits are the runs that store or announce a tombstone.
\<close>

definition runs :: "bool \<Rightarrow> bool \<Rightarrow> mark_event \<Rightarrow> 'c system \<Rightarrow> 'c system" where
  "runs store room e s =
     run_program (ev_Key e) (\<lambda>w. submit room e
       (if store then w\<lparr>k_processes := mput (ev_Key e) (ev_Value e) (k_processes w)\<rparr> else w)) s"

lemma runs_simps [simp]:
  "mirror (sy_marker (runs store room e s)) = mirror (sy_marker s)"
  "processes (sy_marker (runs store room e s)) = processes (sy_marker s)"
  "kern (sy_marker (runs store room e s)) =
     (if store then (kern (sy_marker s))(ev_Key e \<mapsto> ev_Value e) else kern (sy_marker s))"
  "sy_ring (runs store room e s) = (if room then sy_ring s @ [e] else sy_ring s)"
  "sy_born (runs store room e s) = insert (ev_Key e) (sy_born s)"
  "sy_gone (runs store room e s) = sy_gone s" "sy_heard (runs store room e s) = sy_heard s"
  "sy_lost (runs store room e s) = (if room then sy_lost s else insert (ev_Key e) (sy_lost s))"
  by (simp_all add: runs_def run_program_def submit_def split_beta Let_def)

lemma runs_live [simp]: "live_maps (sy_marker s) \<Longrightarrow> live_maps (sy_marker (runs store room e s))"
  by (simp add: runs_def run_program_def submit_def live_maps_def wfmap_mput split_beta Let_def)

lemma runs_agree_same: "agree (sy_marker (runs False room e s)) ring k = agree (sy_marker s) ring k"
  by (rule agree_cong) simp_all

lemma runs_agree:
  assumes inv: "sys_inv over s" and at: "room \<Longrightarrow> ev_Key e \<notin> sy_lost s \<Longrightarrow>
      agree (sy_marker (runs store room e s)) (sy_ring s @ [e]) (ev_Key e)"
  shows "agree_inv (runs store room e s)"
  unfolding agree_inv_def
proof (intro allI impI)
  fix k assume k: "k \<notin> sy_lost (runs store room e s)"
  show "agree (sy_marker (runs store room e s)) (sy_ring (runs store room e s)) k"
  proof (cases "k = ev_Key e")
    case True
    with k have "room" by (simp split: if_splits)
    then show ?thesis using at k True by simp
  next
    case False
    moreover have "agree (sy_marker s) (sy_ring s) k"
      using sys_invD(4) [OF inv] k by (simp add: agree_inv_def split: if_splits)
    ultimately show ?thesis by (subst agree_cong [where m = "sy_marker s" and ring = "sy_ring s"]) simp_all
  qed
qed

lemma runs_ended:
  assumes "ended (sy_marker s) (sy_ring s) k" "k \<noteq> ev_Key e"
  shows "ended (sy_marker (runs store room e s)) (sy_ring (runs store room e s)) k"
proof -
  have "ended (sy_marker (runs store room e s)) (sy_ring s) k"
    using assms by (subst ended_cong [where m = "sy_marker s"]) simp_all
  then show ?thesis using assms(2) by (auto simp: ended_def)
qed

lemma runs_inv:
  assumes inv: "sys_inv over s" and gone: "ev_Key e \<notin> over \<inter> sy_gone s" and ty: "ev_Type e \<noteq> eventExit"
    and tomb: "Tombstone (ev_Value e) \<Longrightarrow> ev_Key e \<in> sy_gone s"
    and at: "room \<Longrightarrow> ev_Key e \<notin> sy_lost s \<Longrightarrow>
      agree (sy_marker (runs store room e s)) (sy_ring s @ [e]) (ev_Key e)"
  shows "sys_inv over (runs store room e s)"
proof -
  note i = sys_invD [OF inv]
  have "maps_inv (runs store room e s)" using i(1,6) by (simp add: maps_inv_def)
  moreover have "ring_inv over (runs store room e s)"
    using i(2) gone ty by (auto simp: ring_inv_def)
  moreover have "tomb_inv (runs store room e s)"
    using i(3) tomb by (auto simp: tomb_inv_def)
  moreover have "exit_inv over (runs store room e s)"
    unfolding exit_inv_def
  proof
    fix k assume "k \<in> over \<inter> sy_heard (runs store room e s)"
    then have k: "k \<in> over \<inter> sy_heard s" by simp
    then have "k \<noteq> ev_Key e" using i(2) gone by (auto simp: ring_inv_def)
    with k i(5) show "ended (sy_marker (runs store room e s)) (sy_ring (runs store room e s)) k"
      by (intro runs_ended) (simp_all add: exit_inv_def)
  qed
  moreover have "agree_inv (runs store room e s)"
    using at by (rule runs_agree [OF inv])
  ultimately show ?thesis by (simp add: sys_inv_def)
qed

text \<open>The three programs.\<close>

lemma agree_lost: "sys_inv over s \<Longrightarrow> k \<notin> sy_born s \<Longrightarrow> kern (sy_marker s) k = mget (mirror (sy_marker s)) k"
  unfolding sys_inv_def agree_inv_def agree_def ring_inv_def
  by (metis last_event_Some image_eqI subset_iff)

lemma tomb_gone: "sys_inv over s \<Longrightarrow> kern (sy_marker s) k = Some v \<Longrightarrow> Tombstone v \<Longrightarrow> k \<in> sy_gone s"
  by (auto simp: sys_inv_def tomb_inv_def)

lemma mirror_tomb_gone: "sys_inv over s \<Longrightarrow> entombed (mget (mirror (sy_marker s)) k) \<Longrightarrow> k \<in> sy_gone s"
  by (auto simp: sys_inv_def tomb_inv_def)

text \<open>A process whose copies differ has a value other than the zero value in the kernel.\<close>

lemma agree_nonzero:
  assumes "sys_inv over s" "k \<notin> sy_lost s"
  shows "kern (sy_marker s) k = mget (mirror (sy_marker s)) k \<or>
    (\<exists>v. kern (sy_marker s) k = Some v \<and> v \<noteq> zero_value)"
proof -
  have "agree (sy_marker s) (sy_ring s) k" using assms by (simp add: sys_inv_def agree_inv_def)
  then show ?thesis by (auto simp: agree_def covers_def dest!: last_event_Some)
qed

lemma runs_eqI:
  assumes "prog (wld (sy_marker s)) = submit room e
      (if store then (wld (sy_marker s))\<lparr>k_processes := mput (ev_Key e) (ev_Value e) (k_processes (wld (sy_marker s)))\<rparr>
       else wld (sy_marker s))"
    and "ev_Key e = key"
  shows "run_program key prog s = runs store room e s"
  using assms by (simp add: runs_def run_program_def)

lemma fork_inv:
  assumes inv: "sys_inv over s" and new: "process_key_from_task child \<notin> sy_born s" and tt: "tt_pid child = tt_tgid child"
  shows "sys_inv over (run_program (process_key_from_task child)
    (handle_sched_process_fork parent child now None stored room) s)"
proof -
  let ?key = "process_key_from_task child"
  have gone: "?key \<notin> sy_gone s" using inv new by (auto simp: sys_inv_def ring_inv_def)
  have eq: "kern (sy_marker s) ?key = mget (mirror (sy_marker s)) ?key" using inv new by (rule agree_lost)
  show ?thesis
  proof (cases rule: fork_effect [OF tt, of parent now stored room "wld (sy_marker s)", case_names same inherited])
    case (same e)
    then have run: "run_program ?key (handle_sched_process_fork parent child now None stored room) s =
        runs False room e s" by (intro runs_eqI) simp_all
    have "\<not> Tombstone (ev_Value e)" using same(2,4) tomb_gone [OF inv] gone by auto
    then show ?thesis
      unfolding run using inv gone eq same(2,3)
      by (intro runs_inv) (simp_all add: agree_def eventFork_def eventExit_def)
  next
    case (inherited e)
    then have run: "run_program ?key (handle_sched_process_fork parent child now None stored room) s =
        runs True room e s" by (intro runs_eqI) simp_all
    have "covers (sy_marker (runs True room e s)) e"
      using inherited eq by (auto simp: covers_def tells_def eventFork_def eventExit_def zero_value_def)
    then show ?thesis
      unfolding run using inv gone inherited
      by (intro runs_inv) (simp_all add: agree_def eventFork_def eventExit_def)
  qed
qed

lemma exec_inv:
  assumes inv: "sys_inv over s" and gone: "process_key_from_task t \<notin> over \<inter> sy_gone s" and tt: "tt_pid t = tt_tgid t"
  shows "sys_inv over (run_program (process_key_from_task t) (handle_sched_process_exec t now stored room) s)"
proof -
  let ?key = "process_key_from_task t"
  show ?thesis
  proof (cases rule: exec_effect [OF tt, of now stored room "wld (sy_marker s)", case_names same decided])
    case (same e)
    then have run: "run_program ?key (handle_sched_process_exec t now stored room) s = runs False room e s"
      by (intro runs_eqI) simp_all
    have tomb: "?key \<in> sy_gone s" if "Tombstone (ev_Value e)"
      using same(2,4) tomb_gone [OF inv, of ?key] that by (auto simp: zero_value_def split: option.splits)
    have "agree (sy_marker s) (sy_ring s @ [e]) ?key" if "?key \<notin> sy_lost s"
      using agree_nonzero [OF inv that]
    proof
      assume "\<exists>v. kern (sy_marker s) ?key = Some v \<and> v \<noteq> zero_value"
      then have "covers (sy_marker s) e"
        using same(2-4) by (auto simp: covers_def tells_def eventExec_def eventExit_def)
      then show ?thesis using same(2) by (simp add: agree_def)
    qed (simp add: agree_def)
    then show ?thesis
      unfolding run using inv gone same(2,3) tomb
      by (intro runs_inv) (simp_all add: eventExec_def eventExit_def runs_agree_same)
  next
    case (decided e)
    then have run: "run_program ?key (handle_sched_process_exec t now stored room) s = runs True room e s"
      by (intro runs_eqI) simp_all
    have "covers (sy_marker (runs True room e s)) e"
      using decided by (simp add: covers_def tells_def eventExec_def eventExit_def)
    then show ?thesis
      unfolding run using inv gone decided
      by (intro runs_inv) (simp_all add: agree_def eventExec_def eventExit_def)
  qed
qed

lemma agree_inv_exited: "agree_inv (exited key room s) = agree_inv s"
  by (simp add: agree_inv_def exited_def)

lemma exited_inv:
  assumes inv: "sys_inv over s" and gone: "ev_Key e \<notin> sy_gone s" and ty: "ev_Type e = eventExit"
    and at: "ev_Key e \<notin> sy_lost s \<Longrightarrow> agree (sy_marker (runs store room e s)) (sy_ring s @ [e]) (ev_Key e)"
    and fin: "final (sy_marker (runs store room e s)) e"
  shows "sys_inv over (exited (ev_Key e) room (runs store room e s))"
proof -
  note i = sys_invD [OF inv]
  have heard: "ev_Key e \<notin> sy_heard s" using i(2) gone by (auto simp: ring_inv_def)
  have "maps_inv (exited (ev_Key e) room (runs store room e s))"
    using i(1,6) by (simp add: maps_inv_def exited_def)
  moreover have "ring_inv over (exited (ev_Key e) room (runs store room e s))"
    using i(2) gone ty by (auto simp: ring_inv_def exited_def)
  moreover have "tomb_inv (exited (ev_Key e) room (runs store room e s))"
    using i(3) by (auto simp: tomb_inv_def exited_def)
  moreover have "exit_inv over (exited (ev_Key e) room (runs store room e s))"
    unfolding exit_inv_def
  proof
    fix k assume k: "k \<in> over \<inter> sy_heard (exited (ev_Key e) room (runs store room e s))"
    have "ended (sy_marker (runs store room e s)) (sy_ring (runs store room e s)) k"
    proof (cases "k = ev_Key e")
      case True
      with k heard have room by (auto simp: exited_def split: if_splits)
      then show ?thesis using True ty fin by (auto simp: ended_def)
    next
      case False
      with k i(5) show ?thesis
        by (intro runs_ended) (auto simp: exit_inv_def exited_def split: if_splits)
    qed
    then show "ended (sy_marker (exited (ev_Key e) room (runs store room e s)))
        (sy_ring (exited (ev_Key e) room (runs store room e s))) k" by (simp add: exited_def)
  qed
  moreover have "agree_inv (runs store room e s)" by (rule runs_agree [OF inv]) (rule at)
  then have "agree_inv (exited (ev_Key e) room (runs store room e s))" by (simp only: agree_inv_exited)
  ultimately show ?thesis by (simp add: sys_inv_def)
qed

lemma exit_program_inv:
  assumes inv: "sys_inv over s" and gone: "process_key_from_task t \<notin> sy_gone s" and tt: "tt_pid t = tt_tgid t"
  shows "sys_inv over (exited (process_key_from_task t) room
    (run_program (process_key_from_task t) (handle_sched_process_exit t now stored room) s))"
proof -
  let ?key = "process_key_from_task t"
  have live: "\<not> entombed (mget (mirror (sy_marker s)) ?key)"
    using mirror_tomb_gone [OF inv, of ?key] gone by blast
  show ?thesis
  proof (cases rule: exit_effect [OF tt, of now stored room "wld (sy_marker s)", case_names untracked tombstoned])
    case (untracked e)
    then have run: "run_program ?key (handle_sched_process_exit t now stored room) s = runs False room e s"
      by (intro runs_eqI) simp_all
    have "mget (mirror (sy_marker s)) ?key = None" using sys_invD(1) [OF inv] untracked(2,4) by (simp add: maps_inv_def)
    then show ?thesis
      using exited_inv [OF inv, of e False room] gone untracked(2,3,4) by (simp add: run agree_def final_def)
  next
    case (tombstoned e v)
    then have run: "run_program ?key (handle_sched_process_exit t now stored room) s = runs stored room e s"
      by (intro runs_eqI) simp_all
    have fin: "final (sy_marker (runs stored room e s)) e" using live tombstoned(2,5) by (simp add: final_def)
    have "agree (sy_marker (runs stored room e s)) (sy_ring s @ [e]) ?key" if "?key \<notin> sy_lost s"
    proof (cases stored)
      case True
      have nonzero: "v\<lparr>Tombstone := True, Timestamp := now\<rparr> \<noteq> zero_value"
        by (cases v) (simp add: zero_value_def)
      have "covers (sy_marker (runs stored room e s)) e"
        using True live tombstoned(2,3,5) nonzero by (simp add: covers_def tells_def eventExit_def)
      then show ?thesis using tombstoned(2) by (simp add: agree_def)
    next
      case False
      from agree_nonzero [OF inv that] show ?thesis
      proof
        assume "\<exists>v. kern (sy_marker s) ?key = Some v \<and> v \<noteq> zero_value"
        then have "covers (sy_marker (runs stored room e s)) e"
          using False live tombstoned(2-5) by (auto simp: covers_def tells_def)
        then show ?thesis using tombstoned(2) by (simp add: agree_def)
      qed (simp add: False agree_def)
    qed
    then show ?thesis using exited_inv [OF inv, of e stored room] gone tombstoned(2,3) fin by (simp add: run)
  qed
qed


section \<open>The daemon keeps it\<close>

text \<open>After the handler of an event that covers its entry both copies are the same.\<close>

lemma joint_changed:
  "joint K m m' \<Longrightarrow> mget (mirror m') k \<noteq> mget (mirror m) k \<or> kern m' k \<noteq> kern m k \<Longrightarrow>
   kern m' k = mget (mirror m') k"
  using jointD [of K m m' k] by auto

lemma fork_known_covered:
  assumes "live_maps m" "covers m e" "ev_Type e = eventFork"
  shows "kern (snd (fork_known e m)) (ev_Key e) = mget (mirror (snd (fork_known e m))) (ev_Key e)"
proof (rule joint_changed [OF joint_fork_known [OF assms(1)]])
  have "mget (mirror m) (ev_Key e) = None" "ev_HasMark e" "HasMark (ev_Value e)"
    using assms(2,3) by (auto simp: covers_def eventFork_def eventExec_def eventExit_def)
  then show "mget (mirror (snd (fork_known e m))) (ev_Key e) \<noteq> mget (mirror m) (ev_Key e) \<or>
      kern (snd (fork_known e m)) (ev_Key e) \<noteq> kern m (ev_Key e)"
    by (simp add: fork_known_def mir.find_upsert)
qed

lemma exec_known_covered:
  assumes live: "live_maps m" and cov: "covers m e" and ty: "ev_Type e = eventExec"
  shows "kern (snd (exec_known e m)) (ev_Key e) = mget (mirror (snd (exec_known e m))) (ev_Key e)"
proof -
  let ?m = "upsertProcessWithLog (ev_Key e) (ev_Value e) False m"
  let ?new = "case mget (mirror m) (ev_Key e) of None \<Rightarrow> ev_Value e | Some old \<Rightarrow> preferProcessValue old (ev_Value e)"
  have nz: "ev_Value e \<noteq> zero_value" and k: "kern m (ev_Key e) = Some (ev_Value e)"
    using covers_value [OF cov] ty by (auto simp: eventExec_def eventExit_def)
  have up: "joint (own e) m ?m" by (rule joint_upsertWithLog [OF live])
  have new: "mget (mirror ?m) (ev_Key e) = Some ?new" by (simp add: mir.find_upsert)
  show ?thesis
  proof (cases "?new = ev_Value e")
    case True
    have "kern ?m (ev_Key e) = mget (mirror ?m) (ev_Key e)"
      using jointD [OF up, of "ev_Key e"] new k True by auto
    then show ?thesis using nz new True by (simp add: exec_known_def)
  next
    case False
    then have "snd (exec_known e m) = syncKernel (ev_Key e) ?new ?m"
      using nz new by (simp add: exec_known_def)
    then show ?thesis using syncKernel_writes(2) [OF joint_live [OF up]] new by simp
  qed
qed

lemma handleExit_covered:
  assumes live: "live_maps m" and tomb: "Tombstone (ev_Value e)" "\<not> entombed (mget (mirror m) (ev_Key e))"
  shows "kern (handleExit e info m) (ev_Key e) = mget (mirror (handleExit e info m)) (ev_Key e)"
proof (rule joint_changed [OF joint_handlers(2) [OF live]], rule disjI1)
  show "mget (mirror (handleExit e info m)) (ev_Key e) \<noteq> mget (mirror m) (ev_Key e)"
  proof (cases "mget (mirror m) (ev_Key e)")
    case None
    then show ?thesis using handleExit_unknown [OF None tomb(1)] by simp
  next
    case (Some old)
    obtain w where "mget (mirror (handleExit e info m)) (ev_Key e) = Some w" "Tombstone w"
      using handleExit_tracked [OF Some, of info] by simp
    then show ?thesis using tomb(2) by auto
  qed
qed

lemma handlers_covered:
  assumes live: "live_maps m" and cov: "covers m e"
  shows "ev_Type e = eventFork \<Longrightarrow>
      kern (handleFork e info m) (ev_Key e) = mget (mirror (handleFork e info m)) (ev_Key e)"
    and "ev_Type e = eventExec \<Longrightarrow>
      kern (handleExec e info m) (ev_Key e) = mget (mirror (handleExec e info m)) (ev_Key e)"
    and "ev_Type e = eventExit \<Longrightarrow>
      kern (handleExit e info m) (ev_Key e) = mget (mirror (handleExit e info m)) (ev_Key e)"
proof -
  assume "ev_Type e = eventFork"
  note eq = fork_known_covered [OF live cov this]
  note eq' = joint_equal [OF joint_fork_decide [OF joint_live [OF joint_fork_known [OF live]]] eq]
  show "kern (handleFork e info m) (ev_Key e) = mget (mirror (handleFork e info m)) (ev_Key e)"
    using eq' by (simp add: handleFork_def split_beta Let_def split: option.split)
next
  assume "ev_Type e = eventExec"
  note eq = exec_known_covered [OF live cov this]
  note eq' = joint_equal [OF joint_exec_decide [OF joint_live [OF joint_exec_known [OF live]]] eq]
  show "kern (handleExec e info m) (ev_Key e) = mget (mirror (handleExec e info m)) (ev_Key e)"
    using eq eq' by (simp add: handleExec_def split_beta Let_def split: option.split)
next
  assume ty: "ev_Type e = eventExit"
  show "kern (handleExit e info m) (ev_Key e) = mget (mirror (handleExit e info m)) (ev_Key e)"
    by (rule handleExit_covered [OF live covers_Tombstone [OF cov ty]])
      (use cov ty in \<open>auto simp: covers_def eventFork_def eventExec_def eventExit_def\<close>)
qed

lemma handleEvent_covered:
  assumes live: "live_maps m" and cov: "covers m e"
  shows "kern (handleEvent e m) (ev_Key e) = mget (mirror (handleEvent e m)) (ev_Key e)"
proof -
  let ?m = "snd (in_world (procInfoFromEvent e) m)"
  have j: "joint (own e) m ?m" using live by (intro joint_world) simp_all
  have "covers ?m e" using cov by (simp add: covers_def)
  note h = handlers_covered [OF joint_live [OF j] this]
  have "ev_Type e \<in> {eventFork, eventExit, eventExec}" using cov by (auto simp: covers_def)
  then show ?thesis using h by (auto simp: handleEvent_def split_beta Let_def)
qed


text \<open>After the handler of an exit the mirror has no live entry of the process.\<close>

lemma handleEvent_exit_dead:
  assumes "ev_Type e = eventExit" "ev_Key e = k"
  shows "dead (mget (mirror (handleEvent e m)) k)"
proof -
  let ?m = "snd (in_world (procInfoFromEvent e) m)"
  have "dead (mget (mirror (handleExit e info ?m)) (ev_Key e))" for info
    using handleExit_tracked [of ?m e] handleExit_unknown [of ?m e info] handleExit_untracked [of ?m e info]
    by (cases "mget (mirror ?m) (ev_Key e)"; cases "Tombstone (ev_Value e)") auto
  then show ?thesis using assms by (simp add: handleEvent_def split_beta Let_def eventFork_def eventExit_def)
qed

lemma handleEvent_exit_final:
  assumes live: "live_maps m" and ty: "ev_Type e = eventExit" and fin: "final m e"
  shows "dead (kern (handleEvent e m) (ev_Key e))"
proof -
  let ?m = "snd (in_world (procInfoFromEvent e) m)"
  note d = handleEvent_exit_dead [OF ty refl, of m] and j = joint_handleEvent [OF live, of e]
  from fin show ?thesis
    unfolding final_def
  proof (elim disjE conjE)
    assume "dead (kern m (ev_Key e))"
    then show ?thesis using jointD [OF j, of "ev_Key e"] d by auto
  next
    assume "kern m (ev_Key e) = mget (mirror m) (ev_Key e)"
    then show ?thesis using joint_equal [OF j, of "ev_Key e"] d by simp
  next
    assume t: "Tombstone (ev_Value e)" "\<not> entombed (mget (mirror m) (ev_Key e))"
    have "live_maps ?m" using live by (intro joint_live [OF joint_world]) simp_all
    then have "kern (handleExit e info ?m) (ev_Key e) = mget (mirror (handleExit e info ?m)) (ev_Key e)" for info
      by (rule handleExit_covered) (use t in simp_all)
    then show ?thesis using d ty by (simp add: handleEvent_def split_beta Let_def eventFork_def eventExit_def)
  qed
qed

text \<open>A joint step on entries of processes that are not over.\<close>

abbreviation with_marker :: "'c marker \<Rightarrow> 'c system \<Rightarrow> 'c system" where
  "with_marker m s \<equiv> s\<lparr>sy_marker := m\<rparr>"

lemma joint_maps:
  assumes "maps_inv s" "joint K (sy_marker s) m"
  shows "live_maps m \<and> (\<forall>k. kern m k = None \<longrightarrow> mget (mirror m) k = None)"
proof (intro conjI allI impI)
  show "live_maps m" using assms(2) by (rule joint_live)
  show "mget (mirror m) k = None" if "kern m k = None" for k
    using that assms(1) jointD [OF assms(2), of k] by (auto simp: maps_inv_def)
qed

lemma joint_tombs:
  assumes "tomb_inv s" "joint K (sy_marker s) m"
    and "\<And>k v. mget (mirror m) k = Some v \<Longrightarrow> Tombstone v \<Longrightarrow> k \<in> sy_gone s"
    and "kern m k = Some v" "Tombstone v"
  shows "k \<in> sy_gone s"
proof (cases "kern m k = kern (sy_marker s) k")
  case True
  then have "kern (sy_marker s) k = Some v" using assms(4) by simp
  then show ?thesis using assms(1,5) by (auto simp: tomb_inv_def)
next
  case False
  then show ?thesis using jointD [OF assms(2), of k] assms(3-5) by auto
qed

lemma joint_ended:
  assumes "joint K m m'" "ended m ring k" "K k \<Longrightarrow> dead (mget (mirror m') k)"
  shows "ended m' ring k"
  using assms(2) unfolding ended_def
proof (elim disjE conjE bexE)
  show "(\<exists>e \<in> set ring. ev_Key e = k \<and> ev_Type e = eventExit \<and> final m' e) \<or>
      k \<notin> ev_Key ` set ring \<and> dead (mget (mirror m') k) \<and> dead (kern m' k)"
    if "e \<in> set ring" "ev_Key e = k" "ev_Type e = eventExit" "final m e" for e
    using that joint_final [OF assms(1), of e] by auto
  show "(\<exists>e \<in> set ring. ev_Key e = k \<and> ev_Type e = eventExit \<and> final m' e) \<or>
      k \<notin> ev_Key ` set ring \<and> dead (mget (mirror m') k) \<and> dead (kern m' k)"
    if "k \<notin> ev_Key ` set ring" "dead (mget (mirror m) k)" "dead (kern m k)"
    using that jointD [OF assms(1), of k] assms(3) by auto
qed

lemma joint_inv:
  assumes inv: "sys_inv over s" and j: "joint K (sy_marker s) m"
    and K: "\<And>k. K k \<Longrightarrow> k \<notin> over \<inter> sy_gone s \<or> dead (mget (mirror m) k)"
    and tomb: "\<And>k v. mget (mirror m) k = Some v \<Longrightarrow> Tombstone v \<Longrightarrow> k \<in> sy_gone s"
  shows "sys_inv over (with_marker m s)"
proof -
  note i = sys_invD [OF inv]
  have "maps_inv (with_marker m s)" using joint_maps [OF i(1) j] by (simp add: maps_inv_def)
  moreover have "ring_inv over (with_marker m s)" using i(2) by (simp add: ring_inv_def)
  moreover have "tomb_inv (with_marker m s)"
    using i(3) joint_tombs [OF i(3) j] tomb by (auto simp: tomb_inv_def)
  moreover have "agree_inv (with_marker m s)"
    using i(4) joint_agree [OF j] by (simp add: agree_inv_def)
  moreover have "exit_inv over (with_marker m s)"
    unfolding exit_inv_def
  proof
    fix k assume "k \<in> over \<inter> sy_heard (with_marker m s)"
    then have k: "k \<in> over \<inter> sy_heard s" "k \<in> over \<inter> sy_gone s" using i(2) by (auto simp: ring_inv_def)
    then have "ended (sy_marker s) (sy_ring s) k" using i(5) by (simp add: exit_inv_def)
    then have "ended m (sy_ring s) k" by (rule joint_ended [OF j]) (use K k(2) in blast)
    then show "ended (sy_marker (with_marker m s)) (sy_ring (with_marker m s)) k" by simp
  qed
  ultimately show ?thesis by (simp add: sys_inv_def)
qed

lemma mark_inv:
  assumes inv: "sys_inv over s" and key: "key \<notin> over \<inter> sy_gone s"
  shows "sys_inv over (with_marker (setProcessMark key priority mark (sy_marker s)) s)"
proof (rule joint_inv [OF inv joint_setProcessMark])
  show "live_maps (sy_marker s)" using inv by (simp add: sys_inv_def maps_inv_def)
  fix k v assume "mget (mirror (setProcessMark key priority mark (sy_marker s))) k = Some v" "Tombstone v"
  then have "mget (mirror (sy_marker s)) k = Some v"
    by (auto simp: setProcessMark_def split_beta Let_def dest!: upsert_values)
  then show "k \<in> sy_gone s" using inv \<open>Tombstone v\<close> by (auto simp: sys_inv_def tomb_inv_def)
qed (use key in simp)

text \<open>The refresh of a traversal settles every entry.\<close>

lemma merged_Tombstone: "Tombstone (merged x v) \<Longrightarrow> Tombstone v \<or> (\<exists>o'. x = Some o' \<and> Tombstone o')"
  using prefer_in by (auto simp: merged_def split: option.splits)

lemma merged_dead: "Tombstone v \<Longrightarrow> dead x \<Longrightarrow> Tombstone (merged x v)"
  using prefer_in by (auto simp: merged_def split: option.splits)

lemma refresh_inv:
  assumes inv: "sys_inv over s"
  shows "sys_inv over (s\<lparr>sy_marker := snd (refreshMirrorFromKernelLocked (sy_marker s)), sy_lost := {}\<rparr>)"
proof -
  note i = sys_invD [OF inv]
  let ?m = "snd (refreshMirrorFromKernelLocked (sy_marker s))"
  let ?s = "s\<lparr>sy_marker := ?m, sy_lost := {}\<rparr>"
  have live: "live_maps (sy_marker s)" using i(1) by (simp add: maps_inv_def)
  have eq: "kern ?m k = mget (mirror ?m) k" for k
    using refresh_joint(3,4) [OF live, of k] i(1) by (auto simp: maps_inv_def split: option.splits)
  have tomb: "k \<in> sy_gone s" if "mget (mirror ?m) k = Some v" "Tombstone v" for k v
    using that i(3) refresh_joint(3) [OF live, of k]
    by (auto simp: tomb_inv_def split: option.splits dest: merged_Tombstone)
  have dead: "dead (mget (mirror ?m) k)" if "dead (mget (mirror (sy_marker s)) k)" "dead (kern (sy_marker s) k)" for k
    using that merged_dead refresh_joint(3) [OF live, of k] by (auto split: option.splits)
  have "maps_inv ?s" using refresh_joint(2) [OF live] eq by (simp add: maps_inv_def)
  moreover have "ring_inv over ?s" using i(2) by (simp add: ring_inv_def)
  moreover have "tomb_inv ?s" using i(3) tomb eq by (auto simp: tomb_inv_def)
  moreover have "agree_inv ?s" by (simp add: agree_inv_def agree_def eq)
  moreover have "ended ?m (sy_ring s) k" if "ended (sy_marker s) (sy_ring s) k" for k
    using that unfolding ended_def
  proof (elim disjE conjE bexE)
    assume "k \<notin> ev_Key ` set (sy_ring s)" "dead (mget (mirror (sy_marker s)) k)" "dead (kern (sy_marker s) k)"
    then show "(\<exists>e \<in> set (sy_ring s). ev_Key e = k \<and> ev_Type e = eventExit \<and> final ?m e) \<or>
      k \<notin> ev_Key ` set (sy_ring s) \<and> dead (mget (mirror ?m) k) \<and> dead (kern ?m k)"
      using dead [of k] unfolding eq by blast
  qed (auto simp: final_def eq)
  then have "exit_inv over ?s" using i(5) by (simp add: exit_inv_def)
  ultimately show ?thesis by (simp add: sys_inv_def)
qed

lemma traverse_inv:
  assumes inv: "sys_inv over s" and listing: "\<forall>p \<in> set (listing_of (sy_marker s)). pi_Key p \<notin> over \<inter> sy_gone s"
  shows "sys_inv over (s\<lparr>sy_lost := {}, sy_marker := snd (traverseProcessTreeLocked (sy_marker s))\<rparr>)"
proof -
  let ?s = "s\<lparr>sy_marker := snd (refreshMirrorFromKernelLocked (sy_marker s)), sy_lost := {}\<rparr>"
  have live: "live_maps (sy_marker s)" using inv by (simp add: sys_inv_def maps_inv_def)
  then have wf: "wfmap (k_processes (wld (sy_marker s)))" by (simp add: live_maps_def)
  have "sys_inv over (with_marker (snd (traverseProcessTreeLocked (sy_marker s))) ?s)"
  proof (rule joint_inv [OF refresh_inv [OF inv]])
    show "joint (among (listing_of (sy_marker s))) (sy_marker ?s) (snd (traverseProcessTreeLocked (sy_marker s)))"
      using traverse_joint [OF live] by simp
    fix k v assume v: "mget (mirror (snd (traverseProcessTreeLocked (sy_marker s)))) k = Some v" "Tombstone v"
    from upserts_values [OF traverseProcessTreeLocked_upserts v(1)] v(2) inv
    show "k \<in> sy_gone ?s"
      by (auto simp: fresh_def sys_inv_def tomb_inv_def wfmap_get_iff [OF wf, symmetric])
  qed (use listing in auto)
  then show ?thesis by simp
qed

text \<open>The handler of the first event in the ring.\<close>

lemma event_inv:
  assumes inv: "sys_inv over s" and ring: "sy_ring s = e # ring"
  shows "sys_inv over (s\<lparr>sy_ring := ring, sy_marker := handleEvent e (sy_marker s)\<rparr>)"
proof -
  let ?m = "sy_marker s" and ?m' = "handleEvent e (sy_marker s)"
  let ?s = "s\<lparr>sy_ring := ring, sy_marker := ?m'\<rparr>"
  note i = sys_invD [OF inv]
  note live = i(6)
  have j: "joint (own e) ?m ?m'" using live by (rule joint_handleEvent)
  have tomb: "k \<in> sy_gone s" if "mget (mirror ?m') k = Some v" "Tombstone v" for k v
    using upserts_values [OF handleEvent_upserts that(1)] that(2) i(2,3) ring
    by (auto simp: event_entry_def fresh_def tomb_inv_def ring_inv_def)
  have "maps_inv ?s" using joint_maps [OF i(1) j] by (simp add: maps_inv_def)
  moreover have "ring_inv over ?s" using i(2) ring by (auto simp: ring_inv_def)
  moreover have "tomb_inv ?s" using i(3) joint_tombs [OF i(3) j] tomb ring by (auto simp: tomb_inv_def)
  moreover have "agree_inv ?s"
    unfolding agree_inv_def
  proof (intro allI impI)
    fix k assume "k \<notin> sy_lost ?s"
    then have a: "agree ?m (e # ring) k" using i(4) ring by (simp add: agree_inv_def)
    show "agree (sy_marker ?s) (sy_ring ?s) k"
    proof (cases "last_event k ring = None \<and> ev_Key e = k \<and> covers ?m e")
      case True
      then show ?thesis using handleEvent_covered [OF live, of e] by (auto simp: agree_def)
    next
      case False
      then have "agree ?m ring k" using a by (auto simp: agree_def split: option.splits if_splits)
      then show ?thesis using joint_agree [OF j] by simp
    qed
  qed
  moreover have "exit_inv over ?s"
    unfolding exit_inv_def
  proof
    fix k assume "k \<in> over \<inter> sy_heard ?s"
    then have k: "k \<in> over" "ended ?m (e # ring) k" using i(5) ring by (auto simp: exit_inv_def)
    show "ended (sy_marker ?s) (sy_ring ?s) k"
    proof (cases "ev_Key e = k \<and> ev_Type e = eventExit")
      case True
      then have none: "k \<notin> ev_Key ` set ring" using i(2) ring k(1) by (auto simp: ring_inv_def)
      then have "e' = e" if "e' \<in> set (e # ring)" "ev_Key e' = k" for e' using that by auto
      then have "final ?m e" using k(2) True unfolding ended_def by auto
      then have "dead (kern ?m' k)" using handleEvent_exit_final [OF live, of e] True by simp
      moreover have "dead (mget (mirror ?m') k)" using True by (intro handleEvent_exit_dead) simp_all
      ultimately show ?thesis using none by (simp add: ended_def)
    next
      case False
      show ?thesis
      proof (cases "ev_Key e = k")
        case True
        then obtain e' where "e' \<in> set ring" "ev_Key e' = k" "ev_Type e' = eventExit" "final ?m e'"
          using k(2) False by (auto simp: ended_def)
        then show ?thesis using joint_final [OF j, of e'] by (auto simp: ended_def)
      next
        case other: False
        then have "ended ?m ring k" using k(2) by (auto simp: ended_def)
        then have "ended ?m' ring k" by (rule joint_ended [OF j]) (use other in simp)
        then show ?thesis by simp
      qed
    qed
  qed
  ultimately show ?thesis by (simp add: sys_inv_def)
qed

text \<open>The parts of the long operations.\<close>

lemma quiet_inv:
  assumes inv: "sys_inv over s" and part: "quiet_part (sy_marker s) m"
  shows "sys_inv over (with_marker m s)"
proof (rule joint_inv [OF inv])
  have u: "untouched (sy_marker s) m" by (rule quiet_untouched [OF part])
  show "joint (\<lambda>_. False) (sy_marker s) m"
    by (rule untouched_joint [OF u]) (use inv in \<open>simp add: sys_inv_def maps_inv_def\<close>)
  show "k \<in> sy_gone s" if "mget (mirror m) k = Some v" "Tombstone v" for k v
    using that u inv by (simp add: untouched_def sys_inv_def tomb_inv_def)
qed simp

lemma bury_inv:
  assumes inv: "sys_inv over s"
    and gone: "\<forall>k \<in> set (fst (find_dead (mirror (sy_marker s)) (sy_marker s))). k \<in> sy_gone s"
  shows "sys_inv over (with_marker (tombstoneDeadProcessesLocked (sy_marker s)) s)"
proof -
  let ?m = "sy_marker s"
  have live: "live_maps ?m" using inv by (simp add: sys_inv_def maps_inv_def)
  note j = joint_bury(1) [OF live]
  show ?thesis
  proof (rule joint_inv [OF inv j])
    show "k \<notin> over \<inter> sy_gone s \<or> dead (mget (mirror (tombstoneDeadProcessesLocked ?m)) k)"
      if "k \<in> set (fst (find_dead (mirror ?m) ?m))" for k
      using joint_bury(2) [OF live that] by auto
    show "k \<in> sy_gone s" if "mget (mirror (tombstoneDeadProcessesLocked ?m)) k = Some v" "Tombstone v" for k v
    proof (cases "k \<in> set (fst (find_dead (mirror ?m) ?m))")
      case False
      then have "mget (mirror ?m) k = Some v" using joint_other [OF j, of k] that(1) by simp
      then show ?thesis using inv that(2) by (simp add: sys_inv_def tomb_inv_def)
    qed (use gone in blast)
  qed
qed

lemma delete_inv:
  assumes inv: "sys_inv over s"
  shows "sys_inv over (with_marker (snd (delete_expired keys (sy_marker s))) s)"
proof -
  let ?m = "sy_marker s" and ?m' = "snd (delete_expired keys (sy_marker s))"
  note i = sys_invD [OF inv]
  note w = delete_writes [OF i(6), of keys]
  have "maps_inv (with_marker ?m' s)" using i(1) w by (simp add: maps_inv_def)
  moreover have "ring_inv over (with_marker ?m' s)" using i(2) by (simp add: ring_inv_def)
  moreover have "tomb_inv (with_marker ?m' s)"
    using i(3) by (auto simp: tomb_inv_def w(2,3) simp del: delete_expired_frame split: if_splits)
  moreover have "agree_inv (with_marker ?m' s)"
    unfolding agree_inv_def
  proof (intro allI impI)
    fix k assume "k \<notin> sy_lost (with_marker ?m' s)"
    then have a: "agree ?m (sy_ring s) k" using i(4) by (simp add: agree_inv_def)
    have "agree ?m' (sy_ring s) k"
    proof (cases "k \<in> set keys")
      case True
      then show ?thesis using w(2,3) by (simp add: agree_def)
    next
      case False
      then show ?thesis using agree_cong [of ?m' k ?m "sy_ring s" "sy_ring s"] w(2,3) a by simp
    qed
    then show "agree (sy_marker (with_marker ?m' s)) (sy_ring (with_marker ?m' s)) k" by simp
  qed
  moreover have "exit_inv over (with_marker ?m' s)"
    unfolding exit_inv_def
  proof
    fix k assume "k \<in> over \<inter> sy_heard (with_marker ?m' s)"
    then have e: "ended ?m (sy_ring s) k" using i(5) by (simp add: exit_inv_def)
    have "ended ?m' (sy_ring s) k"
    proof (cases "k \<in> set keys")
      case True
      then show ?thesis using e w(2,3) by (auto simp: ended_def final_def simp del: delete_expired_frame)
    next
      case False
      then show ?thesis using e ended_cong [of ?m' k ?m] w(2,3) by simp
    qed
    then show "ended (sy_marker (with_marker ?m' s)) (sy_ring (with_marker ?m' s)) k" by simp
  qed
  ultimately show ?thesis by (simp add: sys_inv_def)
qed

lemma sys_step_inv: "sys_step over s s' \<Longrightarrow> sys_inv over s \<Longrightarrow> sys_inv over s'"
  by (induction rule: sys_step.induct)
    (simp_all add: fork_inv exec_inv exit_program_inv traverse_inv mark_inv event_inv quiet_inv bury_inv delete_inv)

lemma sys_steps_inv: "sys_steps over s s' \<Longrightarrow> sys_inv over s \<Longrightarrow> sys_inv over s'"
  by (induction rule: sys_steps.induct) (auto intro: sys_step_inv)

section \<open>What the invariant says\<close>

lemma settled_agree:
  assumes "sys_inv over s" "k \<notin> sy_lost s" "k \<notin> ev_Key ` set (sy_ring s)"
  shows "kern (sy_marker s) k = mget (mirror (sy_marker s)) k"
proof -
  have "agree (sy_marker s) (sy_ring s) k" using assms(1,2) by (simp add: sys_inv_def agree_inv_def)
  then show ?thesis using assms(3) by (simp add: agree_def last_event_None [symmetric])
qed

lemma pending_agree:
  assumes "sys_inv over s" "k \<notin> sy_lost s" "last_event k (sy_ring s) = Some e"
  shows "kern (sy_marker s) k = mget (mirror (sy_marker s)) k \<or>
    (\<exists>v. kern (sy_marker s) k = Some v \<and>
       ev_Value e = (if ev_Type e = eventExit then v\<lparr>Tombstone := True, Timestamp := Timestamp (ev_Value e)\<rparr> else v))"
proof -
  have "agree (sy_marker s) (sy_ring s) k" using assms(1,2) by (simp add: sys_inv_def agree_inv_def)
  then show ?thesis using assms(3) last_event_Some [OF assms(3)] unfolding agree_def covers_def tells_def by auto
qed

lemma heard_dead:
  assumes "sys_inv over s" "k \<in> over" "k \<in> sy_heard s" "k \<notin> ev_Key ` set (sy_ring s)"
  shows "dead (mget (mirror (sy_marker s)) k)" "dead (kern (sy_marker s) k)"
proof -
  have "ended (sy_marker s) (sy_ring s) k" using sys_invD(5) [OF assms(1)] assms(2,3) by (simp add: exit_inv_def)
  then show "dead (mget (mirror (sy_marker s)) k)" "dead (kern (sy_marker s) k)"
    using assms(4) by (auto simp: ended_def)
qed

lemma live_maps_NewDaemon:
  assumes "fresh_world w"
  shows "live_maps (snd (NewDaemon cbs tcev ttl w c))" "mirror (snd (NewDaemon cbs tcev ttl w c)) = []"
    "k_processes (wld (snd (NewDaemon cbs tcev ttl w c))) = []"
  using assms by (simp_all add: fresh_world_def fresh_tables_def NewDaemon_def live_maps_def Let_def)

lemma fresh_system_inv:
  "fresh_world w \<Longrightarrow> sys_steps over (sys_start (snd (NewDaemon cbs tcev ttl w c))) s \<Longrightarrow> sys_inv over s"
  by (rule sys_steps_inv) (auto intro: sys_start_inv simp: live_maps_NewDaemon)

text \<open>Only the programs write the ring.\<close>

lemma sys_step_ring:
  "sys_step over s s' \<Longrightarrow> \<forall>e \<in> set (sy_ring s). well_formed_event e \<Longrightarrow> \<forall>e \<in> set (sy_ring s'). well_formed_event e"
proof (induction rule: sys_step.induct)
  case (sys_fork child s parent now stored room)
  then show ?case using fork_well_formed [of parent child now None stored room "wld (sy_marker s)"]
    by (auto simp: run_program_def split_beta Let_def split: option.split)
next
  case (sys_exec t s now stored room)
  then show ?case using exec_well_formed [of t now stored room "wld (sy_marker s)"]
    by (auto simp: run_program_def split_beta Let_def split: option.split)
next
  case (sys_exit t s room now stored)
  then show ?case using exit_well_formed [of t now stored room "wld (sy_marker s)"]
    by (auto simp: run_program_def exited_def split_beta Let_def split: option.split)
qed auto

lemma sys_steps_ring:
  "sys_steps over s s' \<Longrightarrow> \<forall>e \<in> set (sy_ring s). well_formed_event e \<Longrightarrow> \<forall>e \<in> set (sy_ring s'). well_formed_event e"
  by (induction rule: sys_steps.induct) (auto dest: sys_step_ring)

text \<open>Nothing is forgotten of an exit, and after it nothing is heard of a process that is over with it.\<close>

lemma sys_step_quiet:
  assumes "sys_step over s s'" "sys_inv over s" "k \<in> over" "k \<in> sy_heard s"
  shows "k \<in> sy_heard s'" "k \<notin> ev_Key ` set (sy_ring s) \<Longrightarrow> k \<notin> ev_Key ` set (sy_ring s')"
proof -
  have "k \<in> sy_gone s" "k \<in> sy_born s" using assms(2,4) by (auto simp: sys_inv_def ring_inv_def)
  with assms(1,3,4) show "k \<in> sy_heard s'"
    "k \<notin> ev_Key ` set (sy_ring s) \<Longrightarrow> k \<notin> ev_Key ` set (sy_ring s')"
    by (cases; auto simp: run_program_def exited_def split_beta Let_def
      dest: fork.event_key exec.event_key exit.event_key split: option.splits)+
qed

lemma sys_steps_quiet:
  assumes "sys_steps over s s'" "sys_inv over s" "k \<in> over" "k \<in> sy_heard s" "k \<notin> ev_Key ` set (sy_ring s)"
  shows "k \<in> sy_heard s' \<and> k \<notin> ev_Key ` set (sy_ring s')"
  using assms
proof (induction rule: sys_steps.induct)
  case (syss_step s' s'')
  then show ?case using sys_step_quiet [OF syss_step(2) sys_steps_inv [OF syss_step(1,4)]] by blast
qed simp

end
