(* ===== verification/Regexps.thy ===== *)
theory Regexps
  imports KernelPolicy
begin

text \<open>
  Regular expressions: UTF-8, the syntax trees of Go's \<^verbatim>\<open>regexp/syntax\<close> and what they match,
  and \<^verbatim>\<open>ExactCommFromRegexp\<close> of \<^verbatim>\<open>policy.go\<close>, which recognises the trees that match one name
  only. The standard library's parser is a parameter; its trees and their meaning are written
  out, on the runes a string decodes to. The lemmas show that a promoted expression matches
  exactly the name it is promoted to, and where it does not.
\<close>

section \<open>UTF-8\<close>

text \<open>Runes and bytes are numbers; an invalid byte decodes to \<open>RuneError\<close> and is skipped.\<close>

abbreviation (input) RuneError :: nat where "RuneError \<equiv> 0xFFFD"

definition rune_valid :: "nat \<Rightarrow> bool" where
  "rune_valid r \<longleftrightarrow> r < 0xD800 \<or> 0xE000 \<le> r \<and> r \<le> 0x10FFFF"

definition encode_rune :: "nat \<Rightarrow> nat list" where
  "encode_rune r =
     (if r < 0x80 then [r]
      else if r < 0x800 then [0xC0 + r div 64, 0x80 + r mod 64]
      else if \<not> rune_valid r then [0xEF, 0xBF, 0xBD]
      else if r < 0x10000 then [0xE0 + r div 4096, 0x80 + r div 64 mod 64, 0x80 + r mod 64]
      else [0xF0 + r div 262144, 0x80 + r div 4096 mod 64, 0x80 + r div 64 mod 64, 0x80 + r mod 64])"

definition continues :: "nat \<Rightarrow> bool" where
  "continues b \<longleftrightarrow> 0x80 \<le> b \<and> b \<le> 0xBF"

text \<open>The range of the second byte, which excludes overlong forms, surrogates and too large runes.\<close>

definition second_byte :: "nat \<Rightarrow> nat \<Rightarrow> bool" where
  "second_byte b0 b1 \<longleftrightarrow>
     (if b0 = 0xE0 then 0xA0 else if b0 = 0xF0 then 0x90 else 0x80) \<le> b1 \<and>
     b1 \<le> (if b0 = 0xED then 0x9F else if b0 = 0xF4 then 0x8F else 0xBF)"

text \<open>The rune at the head of a string of bytes and its width.\<close>

fun decode_rune :: "nat list \<Rightarrow> nat \<times> nat" where
  "decode_rune [] = (RuneError, 0)"
| "decode_rune (b0 # bs) =
     (if b0 < 0x80 then (b0, 1)
      else if 0xC2 \<le> b0 \<and> b0 \<le> 0xDF then
        (case bs of
           b1 # _ \<Rightarrow> if continues b1 then ((b0 - 0xC0) * 64 + (b1 - 0x80), 2) else (RuneError, 1)
         | _ \<Rightarrow> (RuneError, 1))
      else if 0xE0 \<le> b0 \<and> b0 \<le> 0xEF then
        (case bs of
           b1 # b2 # _ \<Rightarrow>
             if second_byte b0 b1 \<and> continues b2
             then ((b0 - 0xE0) * 4096 + (b1 - 0x80) * 64 + (b2 - 0x80), 3) else (RuneError, 1)
         | _ \<Rightarrow> (RuneError, 1))
      else if 0xF0 \<le> b0 \<and> b0 \<le> 0xF4 then
        (case bs of
           b1 # b2 # b3 # _ \<Rightarrow>
             if second_byte b0 b1 \<and> continues b2 \<and> continues b3
             then ((b0 - 0xF0) * 262144 + (b1 - 0x80) * 4096 + (b2 - 0x80) * 64 + (b3 - 0x80), 4)
             else (RuneError, 1)
         | _ \<Rightarrow> (RuneError, 1))
      else (RuneError, 1))"

lemma decode_rune_width: "bs \<noteq> [] \<Longrightarrow> 0 < snd (decode_rune bs) \<and> snd (decode_rune bs) \<le> length bs"
  by (cases bs) (auto split: list.split)

function decode_bytes :: "nat list \<Rightarrow> nat list" where
  "decode_bytes bs =
     (if bs = [] then []
      else fst (decode_rune bs) # decode_bytes (drop (snd (decode_rune bs)) bs))"
  by pat_completeness auto
termination
proof (relation "measure length", goal_cases)
  case (2 bs)
  then show ?case using decode_rune_width [of bs] by auto
qed simp

declare decode_bytes.simps [simp del]

definition bytes_of :: "string \<Rightarrow> nat list" where
  "bytes_of s = map of_char s"

definition string_of_runes :: "nat list \<Rightarrow> string" where
  "string_of_runes rs = map char_of (concat (map encode_rune rs))"

definition runes_of :: "string \<Rightarrow> nat list" where
  "runes_of s = decode_bytes (bytes_of s)"

text \<open>The base-64 digits of a rune.\<close>

lemma rune_digits:
  fixes r :: nat
  obtains a b c d where "r div 262144 = a" "r div 4096 mod 64 = b" "r div 64 mod 64 = c" "r mod 64 = d"
    "r = a * 262144 + b * 4096 + c * 64 + d" "b < 64" "c < 64" "d < 64"
    "r div 4096 = a * 64 + b" "r div 64 = a * 4096 + b * 64 + c"
proof -
  have split: "n = n div 64 * 64 + n mod 64" for n :: nat by simp
  have q: "r div 4096 = r div 64 div 64" "r div 262144 = r div 4096 div 64"
    by (simp_all flip: div_mult2_eq)
  let ?c = "r div 64 mod 64" and ?b = "r div 4096 mod 64" and ?a = "r div 262144"
  have 1: "r div 4096 = ?a * 64 + ?b" using split [of "r div 4096"] q(2) by simp
  have 2: "r div 64 = r div 4096 * 64 + ?c" using split [of "r div 64"] q(1) by simp
  have 3: "r = r div 64 * 64 + r mod 64" by (rule split)
  have "r div 64 = ?a * 4096 + ?b * 64 + ?c" using 1 2 by linarith
  moreover have "r = ?a * 262144 + ?b * 4096 + ?c * 64 + r mod 64" using 1 2 3 by linarith
  ultimately show thesis using 1 by (intro that [OF refl refl refl refl]) simp_all
qed

lemma decode_encode_rune:
  assumes "rune_valid r"
  shows "decode_rune (encode_rune r @ bs) = (r, length (encode_rune r))"
proof -
  obtain a b c d where g: "r div 262144 = a" "r div 4096 mod 64 = b" "r div 64 mod 64 = c" "r mod 64 = d"
    and r: "r = a * 262144 + b * 4096 + c * 64 + d" and lt: "b < 64" "c < 64" "d < 64"
    and q: "r div 4096 = a * 64 + b" "r div 64 = a * 4096 + b * 64 + c" by (rule rune_digits)
  consider "r < 0x80" | "0x80 \<le> r" "r < 0x800" | "0x800 \<le> r" "r < 0x10000" | "0x10000 \<le> r"
    by linarith
  then show ?thesis
  proof cases
    case 1
    then show ?thesis by (simp add: encode_rune_def)
  next
    case 2
    then have "a = 0" "b = 0" using r lt by auto
    then have r2: "r = c * 64 + d" and z: "a = 0" "b = 0" using r by simp_all
    then have c: "2 \<le> c" "c < 32" using 2 lt by linarith+
    have "encode_rune r = [0xC0 + c, 0x80 + d]" using 2 z by (simp add: encode_rune_def g q)
    moreover have "decode_rune ([0xC0 + c, 0x80 + d] @ bs) = (r, 2)"
      using r2 c lt by (simp add: continues_def)
    ultimately show ?thesis by simp
  next
    case 3
    then have "a = 0" using r lt by auto
    then have "r = b * 4096 + c * 64 + d" using r by simp
    then have z: "a = 0" "b < 16" "b = 0 \<longrightarrow> 32 \<le> c" using \<open>a = 0\<close> lt 3 by auto
    have sur: "b = 13 \<longrightarrow> c < 32" using 3 assms r lt z by (auto simp: rune_valid_def)
    have enc: "encode_rune r = [0xE0 + b, 0x80 + c, 0x80 + d]"
      using 3 z lt assms by (simp add: encode_rune_def g q)
    have "decode_rune ([0xE0 + b, 0x80 + c, 0x80 + d] @ bs) = (r, 3)"
      using z lt sur r by (auto simp: continues_def second_byte_def)
    then show ?thesis by (simp add: enc)
  next
    case 4
    have top: "r \<le> 0x10FFFF" using 4 assms by (auto simp: rune_valid_def)
    then have z: "a \<le> 4" "a = 0 \<longrightarrow> 16 \<le> b" "a = 4 \<longrightarrow> b < 16" using 4 r lt by auto
    have enc: "encode_rune r = [0xF0 + a, 0x80 + b, 0x80 + c, 0x80 + d]"
      using 4 assms by (simp add: encode_rune_def g)
    have "decode_rune ([0xF0 + a, 0x80 + b, 0x80 + c, 0x80 + d] @ bs) = (r, 4)"
      using z lt r by (auto simp: continues_def second_byte_def)
    then show ?thesis by (simp add: enc)
  qed
qed


text \<open>A rune other than \<open>RuneError\<close> has one encoding: decoding it names the bytes it came from.\<close>

lemma second_byte_continues: "second_byte b0 b1 \<Longrightarrow> continues b1"
  by (auto simp: second_byte_def continues_def split: if_splits)

lemma base64:
  fixes q d :: nat
  assumes "d < 64"
  shows "(q * 64 + d) div 64 = q" "(q * 64 + d) mod 64 = d"
  using assms by simp_all

lemma encode_two:
  assumes "2 \<le> x" "x < 32" "y < 64"
  shows "encode_rune (x * 64 + y) = [0xC0 + x, 0x80 + y]" and "rune_valid (x * 64 + y)"
proof -
  have "0x80 \<le> x * 64 + y" "x * 64 + y < 0x800" using assms by linarith+
  then show "encode_rune (x * 64 + y) = [0xC0 + x, 0x80 + y]" "rune_valid (x * 64 + y)"
    unfolding encode_rune_def base64 [OF assms(3)] by (auto simp: rune_valid_def)
qed

lemma encode_three:
  assumes "x < 16" "y < 64" "z < 64" "x = 0 \<longrightarrow> 32 \<le> y" "x = 13 \<longrightarrow> y < 32"
  shows "encode_rune (x * 4096 + y * 64 + z) = [0xE0 + x, 0x80 + y, 0x80 + z]"
    and "rune_valid (x * 4096 + y * 64 + z)"
proof -
  let ?r = "x * 4096 + y * 64 + z"
  have r: "0x800 \<le> ?r" "?r < 0x10000" using assms by (cases "x = 0"; auto)+
  have q: "?r = (x * 64 + y) * 64 + z" by simp
  have d64: "?r div 64 = x * 64 + y" "?r mod 64 = z"
    by (subst q, rule base64 [OF assms(3)])+
  have "?r div 4096 = ?r div 64 div 64" by (simp flip: div_mult2_eq)
  then have d: "?r div 4096 = x" "?r div 64 mod 64 = y" using d64 assms(2) by simp_all
  show v: "rune_valid ?r"
  proof (cases "x \<le> 13")
    case True
    then show ?thesis using assms by (cases "x = 13") (auto simp: rune_valid_def)
  next
    case False
    then have "14 * 4096 \<le> x * 4096" by simp
    then show ?thesis using r unfolding rune_valid_def by linarith
  qed
  show "encode_rune ?r = [0xE0 + x, 0x80 + y, 0x80 + z]"
    using r v d d64 by (simp add: encode_rune_def)
qed

lemma encode_four:
  assumes "w \<le> 4" "x < 64" "y < 64" "z < 64" "w = 0 \<longrightarrow> 16 \<le> x" "w = 4 \<longrightarrow> x < 16"
  shows "encode_rune (w * 262144 + x * 4096 + y * 64 + z) = [0xF0 + w, 0x80 + x, 0x80 + y, 0x80 + z]"
    and "rune_valid (w * 262144 + x * 4096 + y * 64 + z)"
proof -
  let ?r = "w * 262144 + x * 4096 + y * 64 + z"
  have r: "0x10000 \<le> ?r" using assms by (cases "w = 0") auto
  have top: "?r \<le> 0x10FFFF" using assms by (cases "w = 4") auto
  have q: "?r = ((w * 64 + x) * 64 + y) * 64 + z" by simp
  have d1: "?r div 64 = (w * 64 + x) * 64 + y" "?r mod 64 = z"
    by (subst q, rule base64 [OF assms(4)])+
  have "?r div 4096 = ?r div 64 div 64" by (simp flip: div_mult2_eq)
  then have d2: "?r div 4096 = w * 64 + x" unfolding d1(1) base64 [OF assms(3)] .
  have "?r div 262144 = ?r div 4096 div 64" by (simp flip: div_mult2_eq)
  then have d3: "?r div 262144 = w" unfolding d2 base64 [OF assms(2)] .
  have d: "?r div 4096 mod 64 = x" "?r div 64 mod 64 = y"
    unfolding d1(1) d2 base64 [OF assms(2)] base64 [OF assms(3)] by (rule refl)+
  show v: "rune_valid ?r" using r top by (simp add: rune_valid_def)
  show "encode_rune ?r = [0xF0 + w, 0x80 + x, 0x80 + y, 0x80 + z]"
    using r v by (simp add: encode_rune_def d d1(2) d3)
qed

lemma encode_decode_rune:
  assumes "decode_rune bs = (r, n)" "r \<noteq> RuneError" "bs \<noteq> []"
  shows "rune_valid r \<and> encode_rune r = take n bs"
proof -
  obtain b0 bs' where bs: "bs = b0 # bs'" using assms(3) by (cases bs) auto
  consider "b0 < 0x80" | "0xC2 \<le> b0" "b0 \<le> 0xDF" | "0xE0 \<le> b0" "b0 \<le> 0xEF" | "0xF0 \<le> b0" "b0 \<le> 0xF4"
    using assms(1,2) bs by (fastforce split: if_splits)
  then show ?thesis
  proof cases
    case 1
    then show ?thesis using assms bs by (auto simp: encode_rune_def rune_valid_def)
  next
    case 2
    then obtain b1 bs2 where "bs' = b1 # bs2" "continues b1" "n = 2" "r = (b0 - 0xC0) * 64 + (b1 - 0x80)"
      using assms bs by (auto split: list.splits if_splits)
    with 2 show ?thesis
      using bs encode_two [of "b0 - 0xC0" "b1 - 0x80"] by (auto simp: continues_def)
  next
    case 3
    then obtain b1 b2 bs3 where b: "bs' = b1 # b2 # bs3" "second_byte b0 b1" "continues b2" "n = 3"
      "r = (b0 - 0xE0) * 4096 + (b1 - 0x80) * 64 + (b2 - 0x80)"
      using assms bs by (auto split: list.splits if_splits)
    have ge: "0x80 \<le> b1" "0x80 \<le> b2" using b(3) second_byte_continues [OF b(2)] by (simp_all add: continues_def)
    note enc = encode_three [of "b0 - 0xE0" "b1 - 0x80" "b2 - 0x80"]
    show ?thesis
      using 3 b ge bs enc by (auto simp: second_byte_def continues_def split: if_splits)
  next
    case 4
    then obtain b1 b2 b3 bs4 where b: "bs' = b1 # b2 # b3 # bs4" "second_byte b0 b1" "continues b2"
      "continues b3" "n = 4"
      "r = (b0 - 0xF0) * 262144 + (b1 - 0x80) * 4096 + (b2 - 0x80) * 64 + (b3 - 0x80)"
      using assms bs by (auto split: list.splits if_splits)
    have ge: "0x80 \<le> b1" "0x80 \<le> b2" "0x80 \<le> b3"
      using b(3,4) second_byte_continues [OF b(2)] by (simp_all add: continues_def)
    note enc = encode_four [of "b0 - 0xF0" "b1 - 0x80" "b2 - 0x80" "b3 - 0x80"]
    show ?thesis
      using 4 b ge bs enc by (auto simp: second_byte_def continues_def split: if_splits)
  qed
qed

text \<open>Decoding undoes encoding, and encoding undoes a decoding without \<open>RuneError\<close>.\<close>

lemma encode_rune_nonempty [simp]: "encode_rune r \<noteq> []"
  by (simp add: encode_rune_def)

lemma decode_bytes_Nil [simp]: "decode_bytes [] = []"
  by (simp add: decode_bytes.simps)

lemma decode_encode:
  "\<forall>r \<in> set rs. rune_valid r \<Longrightarrow> decode_bytes (concat (map encode_rune rs)) = rs"
proof (induction rs)
  case (Cons r rs)
  then have "decode_rune (encode_rune r @ concat (map encode_rune rs)) = (r, length (encode_rune r))"
    by (simp add: decode_encode_rune)
  with Cons show ?case by (subst decode_bytes.simps) simp
qed simp

lemma encode_decode:
  "RuneError \<notin> set (decode_bytes bs) \<Longrightarrow>
   concat (map encode_rune (decode_bytes bs)) = bs \<and> (\<forall>r \<in> set (decode_bytes bs). rune_valid r)"
proof (induction bs rule: decode_bytes.induct)
  case (1 bs)
  show ?case
  proof (cases "bs = []")
    case False
    obtain r n where rn: "decode_rune bs = (r, n)" by (cases "decode_rune bs")
    have step: "decode_bytes bs = r # decode_bytes (drop n bs)"
      using False rn by (subst decode_bytes.simps) simp
    have "r \<noteq> RuneError" "RuneError \<notin> set (decode_bytes (drop n bs))" using "1.prems" step by auto
    then show ?thesis using "1.IH" [OF False] encode_decode_rune [OF rn _ False] rn step by simp
  qed simp
qed

lemma encode_rune_byte:
  assumes "b \<in> set (encode_rune r)"
  shows "b < 256"
proof -
  have "r < 0x10000 \<Longrightarrow> r div 4096 < 16" "r \<le> 0x10FFFF \<Longrightarrow> r div 262144 \<le> 4" "r < 0x800 \<Longrightarrow> r div 64 < 32"
    by (auto simp: less_mult_imp_div_less div_le_mono [of r "0x10FFFF" 262144, simplified])
  then show ?thesis
    using assms by (auto simp: encode_rune_def rune_valid_def split: if_splits intro: less_trans [of _ 64])
qed

lemma bytes_of_map_char: "\<forall>b \<in> set bs. b < 256 \<Longrightarrow> bytes_of (map char_of bs) = bs"
  by (auto simp: bytes_of_def intro!: map_idI)

lemma bytes_of_string_of_runes: "bytes_of (string_of_runes rs) = concat (map encode_rune rs)"
  unfolding string_of_runes_def by (rule bytes_of_map_char) (auto dest: encode_rune_byte)

theorem runes_of_string:
  "\<forall>r \<in> set rs. rune_valid r \<Longrightarrow> runes_of (string_of_runes rs) = rs"
  by (simp add: runes_of_def bytes_of_string_of_runes decode_encode)

theorem string_of_runes_of:
  assumes "RuneError \<notin> set (runes_of s)"
  shows "string_of_runes (runes_of s) = s"
proof -
  have "concat (map encode_rune (runes_of s)) = bytes_of s"
    using encode_decode [of "bytes_of s"] assms by (simp add: runes_of_def)
  then show ?thesis by (simp add: string_of_runes_def bytes_of_def comp_def)
qed

section \<open>Syntax trees and what they match\<close>

text \<open>
  \<^verbatim>\<open>syntax.Regexp\<close>: its operators with the fields they use. A literal carries its
  \<^verbatim>\<open>FoldCase\<close> flag; a repetition without an upper bound has none.
\<close>

datatype regexp =
    OpNoMatch
  | OpEmptyMatch
  | OpLiteral bool "nat list"
  | OpCharClass "(nat \<times> nat) list"
  | OpAnyCharNotNL
  | OpAnyChar
  | OpBeginLine
  | OpEndLine
  | OpBeginText
  | OpEndText
  | OpWordBoundary
  | OpNoWordBoundary
  | OpCapture regexp
  | OpStar regexp
  | OpPlus regexp
  | OpQuest regexp
  | OpRepeat nat "nat option" regexp
  | OpConcat "regexp list"
  | OpAlternate "regexp list"

definition word_rune :: "nat \<Rightarrow> bool" where
  "word_rune r \<longleftrightarrow> r = 95 \<or> 48 \<le> r \<and> r \<le> 57 \<or> 65 \<le> r \<and> r \<le> 90 \<or> 97 \<le> r \<and> r \<le> 122"

definition at_boundary :: "nat list \<Rightarrow> nat \<Rightarrow> bool" where
  "at_boundary w i \<longleftrightarrow>
     (0 < i \<and> i \<le> length w \<and> word_rune (w ! (i - 1))) \<noteq> (i < length w \<and> word_rune (w ! i))"

definition guard_at :: "bool \<Rightarrow> nat \<Rightarrow> nat list" where
  "guard_at b i = (if b then [i] else [])"

definition one_rune :: "nat list \<Rightarrow> nat \<Rightarrow> (nat \<Rightarrow> bool) \<Rightarrow> nat list" where
  "one_rune w i ok = (if i < length w \<and> ok (w ! i) then [Suc i] else [])"

definition bind_ends :: "(nat \<Rightarrow> nat list) \<Rightarrow> nat list \<Rightarrow> nat list" where
  "bind_ends f is = remdups (concat (map f is))"

text \<open>The positions reached by at most \<open>n\<close> rounds, and by exactly \<open>n\<close> rounds.\<close>

fun upto_rounds :: "nat \<Rightarrow> (nat \<Rightarrow> nat list) \<Rightarrow> nat list \<Rightarrow> nat list" where
  "upto_rounds 0 f is = is"
| "upto_rounds (Suc n) f is = remdups (is @ upto_rounds n f (bind_ends f is))"

fun rounds :: "nat \<Rightarrow> (nat \<Rightarrow> nat list) \<Rightarrow> nat list \<Rightarrow> nat list" where
  "rounds 0 f is = is"
| "rounds (Suc n) f is = rounds n f (bind_ends f is)"

text \<open>
  The positions at which a match of an expression that starts at position \<open>i\<close> of the runes
  \<open>w\<close> can end. A match never needs more rounds of a loop than the text has runes: a round
  that consumes nothing reaches nothing new.
\<close>

fun ends :: "(nat \<Rightarrow> nat \<Rightarrow> bool) \<Rightarrow> nat list \<Rightarrow> regexp \<Rightarrow> nat \<Rightarrow> nat list"
  and concat_ends :: "(nat \<Rightarrow> nat \<Rightarrow> bool) \<Rightarrow> nat list \<Rightarrow> regexp list \<Rightarrow> nat \<Rightarrow> nat list"
  and alternate_ends :: "(nat \<Rightarrow> nat \<Rightarrow> bool) \<Rightarrow> nat list \<Rightarrow> regexp list \<Rightarrow> nat \<Rightarrow> nat list" where
  "ends same w OpNoMatch i = []"
| "ends same w OpEmptyMatch i = [i]"
| "ends same w (OpLiteral foldCase rs) i =
     guard_at (i + length rs \<le> length w \<and>
               list_all2 (if foldCase then same else (=)) rs (take (length rs) (drop i w)))
       (i + length rs)"
| "ends same w (OpCharClass ranges) i = one_rune w i (\<lambda>r. list_ex (\<lambda>(lo, hi). lo \<le> r \<and> r \<le> hi) ranges)"
| "ends same w OpAnyCharNotNL i = one_rune w i (\<lambda>r. r \<noteq> 10)"
| "ends same w OpAnyChar i = one_rune w i (\<lambda>r. True)"
| "ends same w OpBeginLine i = guard_at (i = 0 \<or> i \<le> length w \<and> w ! (i - 1) = 10) i"
| "ends same w OpEndLine i = guard_at (i = length w \<or> i < length w \<and> w ! i = 10) i"
| "ends same w OpBeginText i = guard_at (i = 0) i"
| "ends same w OpEndText i = guard_at (i = length w) i"
| "ends same w OpWordBoundary i = guard_at (at_boundary w i) i"
| "ends same w OpNoWordBoundary i = guard_at (\<not> at_boundary w i) i"
| "ends same w (OpCapture re) i = ends same w re i"
| "ends same w (OpStar re) i = upto_rounds (length w) (ends same w re) [i]"
| "ends same w (OpPlus re) i = upto_rounds (length w) (ends same w re) (ends same w re i)"
| "ends same w (OpQuest re) i = i # ends same w re i"
| "ends same w (OpRepeat least most re) i =
     upto_rounds (case most of None \<Rightarrow> length w | Some n \<Rightarrow> n - least) (ends same w re)
       (rounds least (ends same w re) [i])"
| "ends same w (OpConcat res) i = concat_ends same w res i"
| "ends same w (OpAlternate res) i = alternate_ends same w res i"
| "concat_ends same w [] i = [i]"
| "concat_ends same w (re # res) i = bind_ends (concat_ends same w res) (ends same w re i)"
| "alternate_ends same w [] i = []"
| "alternate_ends same w (re # res) i = ends same w re i @ alternate_ends same w res i"

text \<open>\<^verbatim>\<open>Regexp.MatchString\<close>: a match starts somewhere in the text.\<close>

definition MatchString :: "(nat \<Rightarrow> nat \<Rightarrow> bool) \<Rightarrow> regexp \<Rightarrow> string \<Rightarrow> bool" where
  "MatchString same re s = list_ex (\<lambda>i. ends same (runes_of s) re i \<noteq> []) [0..<Suc (length (runes_of s))]"

section \<open>Promoted expressions\<close>

text \<open>The literals between the anchors, and the name they spell; \<open>None\<close> is the early return.\<close>

fun literal_loop :: "string \<Rightarrow> regexp list \<Rightarrow> string option" where
  "literal_loop literal [] = Some literal"
| "literal_loop literal (OpLiteral foldCase rs # parts) =
     (if foldCase then None else literal_loop (literal @ string_of_runes rs) parts)"
| "literal_loop literal (part # parts) = None"

definition exact_comm_of :: "regexp \<Rightarrow> string \<times> bool" where
  "exact_comm_of re =
     (case re of
        OpConcat sub \<Rightarrow>
          if length sub < 2 then ('''', False)
          else if hd sub \<noteq> OpBeginText \<or> last sub \<noteq> OpEndText then ('''', False)
          else (case literal_loop '''' (butlast (tl sub)) of
                  None \<Rightarrow> ('''', False)
                | Some comm \<Rightarrow> if validateExactComm comm \<noteq> None then ('''', False) else (comm, True))
      | _ \<Rightarrow> ('''', False))"

definition ExactCommFromRegexp ::
    "(string \<Rightarrow> 'e + regexp) \<Rightarrow> string \<Rightarrow> 'e + (string \<times> bool)" where
  "ExactCommFromRegexp parse pattern =
     (case parse pattern of Inl err \<Rightarrow> Inl err | Inr re \<Rightarrow> Inr (exact_comm_of re))"

text \<open>The runes of the literals of a tree.\<close>

fun literal_runes :: "regexp \<Rightarrow> nat list" where
  "literal_runes (OpLiteral foldCase rs) = rs"
| "literal_runes (OpConcat res) = concat (map literal_runes res)"
| "literal_runes re = []"

definition plain_runes :: "regexp \<Rightarrow> bool" where
  "plain_runes re \<longleftrightarrow> list_all (\<lambda>r. rune_valid r \<and> r \<noteq> RuneError) (literal_runes re)"

lemma literal_loop_Some:
  "literal_loop literal parts = Some comm \<Longrightarrow>
   \<exists>rss. parts = map (OpLiteral False) rss \<and> comm = literal @ string_of_runes (concat rss)"
proof (induction literal parts rule: literal_loop.induct)
  case (1 literal)
  then show ?case by (auto simp: string_of_runes_def)
next
  case (2 literal foldCase rs parts)
  then obtain rss where "parts = map (OpLiteral False) rss"
    "comm = (literal @ string_of_runes rs) @ string_of_runes (concat rss)" "\<not> foldCase"
    by (auto split: if_splits)
  then show ?case by (intro exI [of _ "rs # rss"]) (simp add: string_of_runes_def)
qed simp_all

lemma exact_comm_of_True:
  assumes "exact_comm_of re = (comm, True)"
  obtains rss where "re = OpConcat (OpBeginText # map (OpLiteral False) rss @ [OpEndText])"
    "comm = string_of_runes (concat rss)" "validateExactComm comm = None"
proof -
  obtain sub where re: "re = OpConcat sub" "2 \<le> length sub" "hd sub = OpBeginText" "last sub = OpEndText"
    and lit: "literal_loop '''' (butlast (tl sub)) = Some comm" and ok: "validateExactComm comm = None"
    using assms by (auto simp: exact_comm_of_def split: regexp.splits if_splits option.splits)
  obtain rss where rss: "butlast (tl sub) = map (OpLiteral False) rss" "comm = string_of_runes (concat rss)"
    using literal_loop_Some [OF lit] by auto
  obtain x y zs where sub: "sub = x # y # zs" using re(2) by (cases sub; cases "tl sub") auto
  have "sub = OpBeginText # butlast (tl sub) @ [OpEndText]"
    using re(3,4) sub by (metis append_butlast_last_id last_ConsR list.distinct(1) list.sel(1,3))
  then show thesis using that rss re(1) ok by simp
qed

lemma guard_at_Nil [simp]: "guard_at b i = [] \<longleftrightarrow> \<not> b"
  by (simp add: guard_at_def)

lemma remdups_guard [simp]: "remdups (guard_at b i) = guard_at b i"
  by (simp add: guard_at_def)

lemma if_guard: "(if b then guard_at c i else []) = guard_at (b \<and> c) i"
  by (simp add: guard_at_def)

lemma bind_ends_guard [simp]: "bind_ends f (guard_at b i) = (if b then remdups (f i) else [])"
  by (simp add: bind_ends_def guard_at_def)

lemma literals_ends:
  "concat_ends same w (map (OpLiteral False) rss @ [OpEndText]) i =
   guard_at (i \<le> length w \<and> drop i w = concat rss) (length w)"
proof (induction rss arbitrary: i)
  case Nil
  have "bind_ends (concat_ends same w []) (guard_at b j) = guard_at b j" for b j
    by (simp add: bind_ends_def guard_at_def)
  then show ?case by (auto simp: guard_at_def)
next
  case (Cons rs rss)
  have "((i + length rs \<le> length w \<and> rs = take (length rs) (drop i w)) \<and>
         i + length rs \<le> length w \<and> drop (i + length rs) w = concat rss) \<longleftrightarrow>
        i \<le> length w \<and> drop i w = concat (rs # rss)" (is "?b \<longleftrightarrow> ?c")
    by (metis add_leD1 append_eq_conv_conj append_take_drop_id drop_drop le_add_diff_inverse length_append
        length_drop nat_add_left_cancel_le add.commute le_add1 concat.simps(2))
  then have "guard_at ?b (length w) = guard_at ?c (length w)" by (rule arg_cong2 [OF _ refl])
  moreover have "concat_ends same w (map (OpLiteral False) (rs # rss) @ [OpEndText]) i = guard_at ?b (length w)"
    by (simp only: list.map append_Cons concat_ends.simps ends.simps Cons.IH list.rel_eq bind_ends_guard
        remdups_guard if_guard if_False)
  ultimately show ?case by (rule trans [rotated])
qed

lemma exact_runes:
  "MatchString same (OpConcat (OpBeginText # map (OpLiteral False) rss @ [OpEndText])) s \<longleftrightarrow>
   runes_of s = concat rss"
proof -
  have "ends same w (OpConcat (OpBeginText # map (OpLiteral False) rss @ [OpEndText])) i =
        guard_at (i = 0 \<and> w = concat rss) (length w)" for w i
    by (cases "i = 0") (simp_all add: literals_ends, simp_all add: guard_at_def)
  then show ?thesis by (auto simp: MatchString_def list_ex_iff)
qed

text \<open>A promoted expression matches its name and nothing else.\<close>

theorem promoted_matches:
  assumes "exact_comm_of re = (comm, True)" "plain_runes re"
  shows "MatchString same re s \<longleftrightarrow> s = comm"
proof -
  obtain rss where re: "re = OpConcat (OpBeginText # map (OpLiteral False) rss @ [OpEndText])"
    and comm: "comm = string_of_runes (concat rss)" using assms(1) by (rule exact_comm_of_True)
  have "concat (map literal_runes (map (OpLiteral False) rss)) = concat rss" by (simp add: comp_def)
  then have plain: "\<forall>r \<in> set (concat rss). rune_valid r \<and> r \<noteq> RuneError"
    using assms(2) re by (simp add: plain_runes_def list_all_iff comp_def)
  have "runes_of s = concat rss \<longleftrightarrow> s = comm"
  proof
    assume s: "runes_of s = concat rss"
    then have "RuneError \<notin> set (runes_of s)" using plain by auto
    with string_of_runes_of s comm show "s = comm" by metis
  next
    assume "s = comm"
    then show "runes_of s = concat rss" using runes_of_string plain comm by simp
  qed
  then show ?thesis by (simp add: re exact_runes)
qed

lemma promoted_valid: "exact_comm_of re = (comm, True) \<Longrightarrow> validateExactComm comm = None"
  by (metis exact_comm_of_True)

end
