(* ===== verification/Matcher.thy ===== *)
theory Matcher
  imports Regexps
begin

text \<open>
  The default checker of the command line (\<^verbatim>\<open>cmd/main.go\<close>): lists of regular expressions and
  parent ids, the matcher they compile to, and the compilation of the part of them the kernel
  can decide. The parser of \<^verbatim>\<open>regexp/syntax\<close> and the relation of runes that are equal up to case
  are parameters. The lemmas relate the compiled kernel policy to the checker.
\<close>

section \<open>Rules\<close>

record default_check_rules =
  RuleComm :: string
  RuleCmd :: string
  RuleExe :: string
  RulePPID :: string

datatype 'e rules_error =
    ErrCompile string string 'e
  | ErrParsePPID string num_error
  | ErrPromote string 'e
  | ErrTooManyPromoted nat

definition splitRegexpList :: "string \<Rightarrow> string list" where
  "splitRegexpList value = filter (\<lambda>part. part \<noteq> '''') (map TrimSpace (split_on (CHR '','') value))"

fun compile_loop :: "(string \<Rightarrow> 'e + regexp) \<Rightarrow> string \<Rightarrow> string list \<Rightarrow> regexp list \<Rightarrow> 'e rules_error + regexp list" where
  "compile_loop parse name [] out = Inr out"
| "compile_loop parse name (part # parts) out =
     (case parse part of
        Inl err \<Rightarrow> Inl (ErrCompile name part err)
      | Inr re \<Rightarrow> compile_loop parse name parts (out @ [re]))"

definition compileRegexpList :: "(string \<Rightarrow> 'e + regexp) \<Rightarrow> string \<Rightarrow> string \<Rightarrow> 'e rules_error + regexp list" where
  "compileRegexpList parse name value = compile_loop parse name (splitRegexpList value) []"

fun ppid_loop :: "string list \<Rightarrow> (u32, bool) gomap \<Rightarrow> 'e rules_error + (u32, bool) gomap" where
  "ppid_loop [] out = Inr out"
| "ppid_loop (part # parts) out =
     (let part = TrimSpace part
      in if part = '''' then ppid_loop parts out
         else (case ParseUint 10 32 part of
                 Inl err \<Rightarrow> Inl (ErrParsePPID part err)
               | Inr ppid \<Rightarrow> ppid_loop parts (mput (of_nat ppid) True out)))"

definition parsePPIDRules :: "string \<Rightarrow> 'e rules_error + (u32, bool) gomap" where
  "parsePPIDRules value = ppid_loop (split_on (CHR '','') value) []"

section \<open>The matcher\<close>

record default_check_matcher =
  dm_comm :: "regexp list"
  dm_cmd :: "regexp list"
  dm_exe :: "regexp list"
  dm_ppid :: "(u32, bool) gomap"

definition compileDefaultCheckRules ::
    "(string \<Rightarrow> 'e + regexp) \<Rightarrow> default_check_rules \<Rightarrow> 'e rules_error + default_check_matcher" where
  "compileDefaultCheckRules parse rules =
     (case compileRegexpList parse ''rule_comm'' (RuleComm rules) of Inl err \<Rightarrow> Inl err | Inr comm \<Rightarrow>
      (case compileRegexpList parse ''rule_cmd'' (RuleCmd rules) of Inl err \<Rightarrow> Inl err | Inr cmd \<Rightarrow>
      (case compileRegexpList parse ''rule_exe'' (RuleExe rules) of Inl err \<Rightarrow> Inl err | Inr exe \<Rightarrow>
      (case parsePPIDRules (RulePPID rules) of Inl err \<Rightarrow> Inl err | Inr ppid \<Rightarrow>
       Inr \<lparr>dm_comm = comm, dm_cmd = cmd, dm_exe = exe, dm_ppid = ppid\<rparr>))))"

definition hasRules :: "default_check_matcher \<Rightarrow> bool" where
  "hasRules m \<longleftrightarrow>
     length (dm_comm m) > 0 \<or> length (dm_cmd m) > 0 \<or> length (dm_exe m) > 0 \<or> length (dm_ppid m) > 0"

definition anyRegexpMatches :: "(nat \<Rightarrow> nat \<Rightarrow> bool) \<Rightarrow> regexp list \<Rightarrow> string \<Rightarrow> bool" where
  "anyRegexpMatches same regexps value = (value \<noteq> '''' \<and> list_ex (\<lambda>re. MatchString same re value) regexps)"

definition matcher_matches :: "(nat \<Rightarrow> nat \<Rightarrow> bool) \<Rightarrow> default_check_matcher \<Rightarrow> process_info \<Rightarrow> bool" where
  "matcher_matches same m info =
     (if mget (dm_ppid m) (pi_PPID info) = Some True then True
      else if anyRegexpMatches same (dm_comm m) (pi_Comm info) then True
      else if anyRegexpMatches same (dm_cmd m) (pi_Cmdline info) then True
      else if anyRegexpMatches same (dm_exe m) (pi_Exe info) then True
      else if anyRegexpMatches same (dm_exe m) (path_base (pi_Exe info)) then True
      else False)"

text \<open>The checker \<^verbatim>\<open>defaultCheck\<close> returns has no state of its own.\<close>

definition defaultCheck ::
    "(string \<Rightarrow> 'e + regexp) \<Rightarrow> (nat \<Rightarrow> nat \<Rightarrow> bool) \<Rightarrow> default_check_rules \<Rightarrow> i8 \<Rightarrow> u64 \<Rightarrow>
     'e rules_error + (process_info \<Rightarrow> i8 \<times> u64 \<times> bool)" where
  "defaultCheck parse same rules markPriority markValue =
     (case compileDefaultCheckRules parse rules of
        Inl err \<Rightarrow> Inl err
      | Inr m \<Rightarrow>
          Inr (\<lambda>info. if \<not> hasRules m then (0, 0, False)
                      else (markPriority, markValue, matcher_matches same m info)))"

section \<open>The kernel part of the rules\<close>

record compiled_policy =
  cp_Policy :: kernel_policy
  cp_Check :: "process_info \<Rightarrow> i8 \<times> u64 \<times> bool"
  cp_Promoted :: "string list"
  cp_Fallback :: "string list"

fun promote_loop ::
    "(string \<Rightarrow> 'e + regexp) \<Rightarrow> i8 \<Rightarrow> u64 \<Rightarrow> string list \<Rightarrow> compiled_policy \<Rightarrow> 'e rules_error + compiled_policy" where
  "promote_loop parse markPriority markValue [] compiled = Inr compiled"
| "promote_loop parse markPriority markValue (pattern # patterns) compiled =
     (case ExactCommFromRegexp parse pattern of
        Inl err \<Rightarrow> Inl (ErrPromote pattern err)
      | Inr (comm, supported) \<Rightarrow>
          if \<not> supported then
            promote_loop parse markPriority markValue patterns
              (compiled\<lparr>cp_Fallback := cp_Fallback compiled @ [''rule_comm='' @ pattern]\<rparr>)
          else
            (let policy = cp_Policy compiled;
                 rule = \<lparr>cr_Comm = comm, cr_Priority = markPriority, cr_Mark = markValue\<rparr>
             in promote_loop parse markPriority markValue patterns
                  (compiled\<lparr>cp_Policy := policy\<lparr>kp_CommRules := kp_CommRules policy @ [rule]\<rparr>,
                            cp_Promoted := cp_Promoted compiled @ [pattern]\<rparr>)))"

definition fallback_items :: "default_check_rules \<Rightarrow> string list" where
  "fallback_items rules =
     concat (map (\<lambda>(name, value). map (\<lambda>part. name @ ''='' @ part) (splitRegexpList value))
       [(''rule_cmd'', RuleCmd rules), (''rule_exe'', RuleExe rules), (''rule_ppid'', RulePPID rules)])"

definition policy_mode :: "compiled_policy \<Rightarrow> u8" where
  "policy_mode compiled =
     (if length (cp_Fallback compiled) = 0 then KernelPolicyAuthoritative
      else if length (kp_CommRules (cp_Policy compiled)) \<noteq> 0 then KernelPolicyPositiveOnly
      else KernelPolicyUserspaceOnly)"

definition compileDefaultKernelPolicy ::
    "(string \<Rightarrow> 'e + regexp) \<Rightarrow> (nat \<Rightarrow> nat \<Rightarrow> bool) \<Rightarrow> default_check_rules \<Rightarrow> i8 \<Rightarrow> u64 \<Rightarrow>
     'e rules_error + compiled_policy" where
  "compileDefaultKernelPolicy parse same rules markPriority markValue =
     (case defaultCheck parse same rules markPriority markValue of
        Inl err \<Rightarrow> Inl err
      | Inr chk \<Rightarrow>
          (case promote_loop parse markPriority markValue (splitRegexpList (RuleComm rules))
                  \<lparr>cp_Policy = \<lparr>kp_Mode = 0, kp_CommRules = []\<rparr>, cp_Check = chk,
                   cp_Promoted = [], cp_Fallback = []\<rparr> of
             Inl err \<Rightarrow> Inl err
           | Inr compiled \<Rightarrow>
               (let compiled = compiled\<lparr>cp_Fallback := cp_Fallback compiled @ fallback_items rules\<rparr>;
                    policy = cp_Policy compiled;
                    compiled = compiled\<lparr>cp_Policy := policy\<lparr>kp_Mode := policy_mode compiled\<rparr>\<rparr>
                in if length (kp_CommRules policy) > MaxKernelCommRules
                   then Inl (ErrTooManyPromoted (length (kp_CommRules policy)))
                   else Inr compiled)))"

section \<open>What the compiled policy decides\<close>

lemma compile_loop_Inr:
  "compile_loop parse name parts out = Inr res \<longleftrightarrow>
   (\<exists>rest. res = out @ rest \<and> list_all2 (\<lambda>part re. parse part = Inr re) parts rest)"
proof (induction parts arbitrary: out)
  case (Cons part parts)
  then show ?case by (auto simp: list_all2_Cons1 split: sum.splits)
qed auto

lemma compileRegexpList_Inr:
  "compileRegexpList parse name value = Inr res \<longleftrightarrow>
   list_all2 (\<lambda>part re. parse part = Inr re) (splitRegexpList value) res"
  by (simp add: compileRegexpList_def compile_loop_Inr)

lemma ppid_loop_keys:
  "ppid_loop parts out = Inr res \<Longrightarrow>
   filter (\<lambda>part. part \<noteq> '''') (map TrimSpace parts) = [] \<Longrightarrow> res = out"
  by (induction parts arbitrary: out) (auto simp: Let_def split: if_splits)

text \<open>What the promotion loop adds: a rule for each pattern that has an exact name.\<close>

definition promoted_rule :: "i8 \<Rightarrow> u64 \<Rightarrow> string \<Rightarrow> exact_comm_rule" where
  "promoted_rule priority mark comm = \<lparr>cr_Comm = comm, cr_Priority = priority, cr_Mark = mark\<rparr>"

definition exact_name :: "(string \<Rightarrow> 'e + regexp) \<Rightarrow> string \<Rightarrow> string option" where
  "exact_name parse pattern =
     (case ExactCommFromRegexp parse pattern of
        Inr (comm, supported) \<Rightarrow> if supported then Some comm else None | Inl _ \<Rightarrow> None)"

lemma promote_loop_Inr:
  "promote_loop parse priority mark patterns c = Inr c' \<Longrightarrow>
   kp_CommRules (cp_Policy c') = kp_CommRules (cp_Policy c) @
     map (promoted_rule priority mark) (List.map_filter (exact_name parse) patterns) \<and>
   cp_Promoted c' = cp_Promoted c @ filter (\<lambda>p. exact_name parse p \<noteq> None) patterns \<and>
   cp_Fallback c' = cp_Fallback c @
     map ((@) ''rule_comm='') (filter (\<lambda>p. exact_name parse p = None) patterns) \<and>
   cp_Check c' = cp_Check c \<and> (\<forall>p \<in> set patterns. \<exists>re. parse p = Inr re)"
proof (induction patterns arbitrary: c)
  case (Cons pattern patterns)
  obtain comm supported re where e: "ExactCommFromRegexp parse pattern = Inr (comm, supported)"
    "parse pattern = Inr re"
    using Cons.prems by (auto simp: ExactCommFromRegexp_def split: sum.splits)
  show ?case
  proof (cases supported)
    case True
    then have "exact_name parse pattern = Some comm" using e by (simp add: exact_name_def)
    then show ?thesis
      using Cons.prems Cons.IH True e by (fastforce simp: Let_def map_filter_simps promoted_rule_def)
  next
    case False
    then have "exact_name parse pattern = None" using e by (simp add: exact_name_def)
    then show ?thesis using Cons.prems Cons.IH False e by (fastforce simp: map_filter_simps)
  qed
qed (simp add: map_filter_simps)

lemma exact_name_valid: "exact_name parse pattern = Some comm \<Longrightarrow> validateExactComm comm = None"
  by (auto simp: exact_name_def ExactCommFromRegexp_def dest: promoted_valid split: sum.splits prod.splits if_splits)

text \<open>The rules of a promoted list decide alike: membership of the name.\<close>

lemma promoted_deciding:
  "deciding_rule comm (map (promoted_rule priority mark) comms) =
   (if comm \<in> set comms then Some (promoted_rule priority mark comm) else None)"
proof -
  let ?r = "promoted_rule priority mark comm"
  have "foldl (better comm) b (map (promoted_rule priority mark) comms) =
        (if b = Some ?r \<or> comm \<in> set comms then Some ?r else None)"
    if "b = None \<or> b = Some ?r" for b
    using that by (induction comms arbitrary: b) (auto simp: better_def promoted_rule_def)
  then show ?thesis by (simp add: deciding_rule_def)
qed

lemma promoted_check:
  "exactCommCheck (map (promoted_rule priority mark) comms) info =
   (if pi_Comm info \<in> set comms then (priority, mark, True) else (0, 0, False))"
  by (simp add: exactCommCheck_decision promoted_deciding promoted_rule_def)

text \<open>The parts of a compilation that succeeds.\<close>

lemma compile_parts:
  assumes "compileDefaultKernelPolicy parse same rules priority mark = Inr c"
  obtains m where "compileDefaultCheckRules parse rules = Inr m"
    "cp_Check c = (\<lambda>info. if \<not> hasRules m then (0, 0, False) else (priority, mark, matcher_matches same m info))"
    "kp_CommRules (cp_Policy c) =
       map (promoted_rule priority mark) (List.map_filter (exact_name parse) (splitRegexpList (RuleComm rules)))"
    "cp_Promoted c = filter (\<lambda>p. exact_name parse p \<noteq> None) (splitRegexpList (RuleComm rules))"
    "cp_Fallback c = map ((@) ''rule_comm='')
        (filter (\<lambda>p. exact_name parse p = None) (splitRegexpList (RuleComm rules))) @ fallback_items rules"
    "kp_Mode (cp_Policy c) = policy_mode c" "length (kp_CommRules (cp_Policy c)) \<le> MaxKernelCommRules"
  using assms
  by (auto simp: compileDefaultKernelPolicy_def defaultCheck_def Let_def policy_mode_def
      dest!: promote_loop_Inr split: sum.splits if_splits)

lemma exact_name_Some:
  assumes "exact_name parse pattern = Some comm"
  obtains re where "parse pattern = Inr re" "exact_comm_of re = (comm, True)"
  using assms by (auto simp: exact_name_def ExactCommFromRegexp_def split: sum.splits prod.splits if_splits)

lemma compile_lists:
  assumes "compileDefaultCheckRules parse rules = Inr m"
  shows "list_all2 (\<lambda>part re. parse part = Inr re) (splitRegexpList (RuleComm rules)) (dm_comm m)"
    and "list_all2 (\<lambda>part re. parse part = Inr re) (splitRegexpList (RuleCmd rules)) (dm_cmd m)"
    and "list_all2 (\<lambda>part re. parse part = Inr re) (splitRegexpList (RuleExe rules)) (dm_exe m)"
    and "splitRegexpList (RulePPID rules) = [] \<Longrightarrow> dm_ppid m = []"
  using assms
  by (auto simp: compileDefaultCheckRules_def compileRegexpList_Inr parsePPIDRules_def splitRegexpList_def
      dest: ppid_loop_keys split: sum.splits)

definition plain_patterns :: "(string \<Rightarrow> 'e + regexp) \<Rightarrow> default_check_rules \<Rightarrow> bool" where
  "plain_patterns parse rules =
     list_all (\<lambda>p. case parse p of Inr re \<Rightarrow> plain_runes re | Inl _ \<Rightarrow> True) (splitRegexpList (RuleComm rules))"

lemma list_all2_member:
  "list_all2 P xs ys \<Longrightarrow> x \<in> set xs \<Longrightarrow> \<exists>y \<in> set ys. P x y"
  "list_all2 P xs ys \<Longrightarrow> y \<in> set ys \<Longrightarrow> \<exists>x \<in> set xs. P x y"
  by (induction xs ys rule: list_all2_induct; auto)+

text \<open>A name in the kernel rules is one the checker matches.\<close>

lemma kernel_name_matches:
  assumes "compileDefaultCheckRules parse rules = Inr m" "plain_patterns parse rules"
    and "comm \<in> set (List.map_filter (exact_name parse) (splitRegexpList (RuleComm rules)))" "comm \<noteq> ''''"
  shows "anyRegexpMatches same (dm_comm m) comm"
proof -
  obtain p where p: "p \<in> set (splitRegexpList (RuleComm rules))" "exact_name parse p = Some comm"
    using assms(3) by (auto simp: List.map_filter_def)
  from p(2) obtain re where re: "parse p = Inr re" "exact_comm_of re = (comm, True)" by (rule exact_name_Some)
  obtain re' where "re' \<in> set (dm_comm m)" "parse p = Inr re'"
    using list_all2_member(1) [OF compile_lists(1) [OF assms(1)] p(1)] by auto
  moreover have "plain_runes re" using assms(2) p(1) re(1) by (auto simp: plain_patterns_def list_all_iff)
  ultimately show ?thesis
    using re promoted_matches [OF re(2)] assms(4) by (auto simp: anyRegexpMatches_def list_ex_iff)
qed

text \<open>With every pattern promoted, the checker matches only names in the kernel rules.\<close>

lemma matched_name_kernel:
  assumes "compileDefaultCheckRules parse rules = Inr m" "plain_patterns parse rules"
    and "\<forall>p \<in> set (splitRegexpList (RuleComm rules)). exact_name parse p \<noteq> None"
    and "anyRegexpMatches same (dm_comm m) comm"
  shows "comm \<in> set (List.map_filter (exact_name parse) (splitRegexpList (RuleComm rules)))"
proof -
  obtain re where re: "re \<in> set (dm_comm m)" "MatchString same re comm"
    using assms(4) by (auto simp: anyRegexpMatches_def list_ex_iff)
  obtain p where p: "p \<in> set (splitRegexpList (RuleComm rules))" "parse p = Inr re"
    using list_all2_member(2) [OF compile_lists(1) [OF assms(1)] re(1)] by auto
  obtain name where name: "exact_name parse p = Some name" using assms(3) p(1) by blast
  then have "exact_comm_of re = (name, True)" using p(2) by (metis exact_name_Some sum.inject(2))
  moreover have "plain_runes re" using assms(2) p by (auto simp: plain_patterns_def list_all_iff)
  ultimately have "comm = name" using promoted_matches re(2) by blast
  then show ?thesis using name p(1) by (force simp: List.map_filter_def)
qed

abbreviation matched :: "i8 \<times> u64 \<times> bool \<Rightarrow> bool" where
  "matched d \<equiv> snd (snd d)"

theorem compiled_sound:
  assumes "compileDefaultKernelPolicy parse same rules priority mark = Inr c" "plain_patterns parse rules"
    and "pi_Comm info \<noteq> ''''" "matched (exactCommCheck (kp_CommRules (cp_Policy c)) info)"
  shows "cp_Check c info = exactCommCheck (kp_CommRules (cp_Policy c)) info"
proof -
  obtain m where m: "compileDefaultCheckRules parse rules = Inr m"
    and chk: "cp_Check c = (\<lambda>info. if \<not> hasRules m then (0, 0, False) else (priority, mark, matcher_matches same m info))"
    and kr: "kp_CommRules (cp_Policy c) =
       map (promoted_rule priority mark) (List.map_filter (exact_name parse) (splitRegexpList (RuleComm rules)))"
    using assms(1) by (rule compile_parts)
  have mem: "pi_Comm info \<in> set (List.map_filter (exact_name parse) (splitRegexpList (RuleComm rules)))"
    using assms(4) by (simp add: kr promoted_check split: if_splits)
  have "anyRegexpMatches same (dm_comm m) (pi_Comm info)"
    by (rule kernel_name_matches [OF m assms(2) mem assms(3)])
  moreover from this have "hasRules m" by (auto simp: hasRules_def anyRegexpMatches_def)
  ultimately show ?thesis using mem by (simp add: chk kr promoted_check matcher_matches_def)
qed

theorem compiled_authoritative:
  assumes "compileDefaultKernelPolicy parse same rules priority mark = Inr c" "plain_patterns parse rules"
    and "kp_Mode (cp_Policy c) = KernelPolicyAuthoritative" "matched (cp_Check c info)"
  shows "matched (exactCommCheck (kp_CommRules (cp_Policy c)) info)"
proof -
  obtain m where m: "compileDefaultCheckRules parse rules = Inr m"
    and chk: "cp_Check c = (\<lambda>info. if \<not> hasRules m then (0, 0, False) else (priority, mark, matcher_matches same m info))"
    and kr: "kp_CommRules (cp_Policy c) =
       map (promoted_rule priority mark) (List.map_filter (exact_name parse) (splitRegexpList (RuleComm rules)))"
    and fb: "cp_Fallback c = map ((@) ''rule_comm='')
        (filter (\<lambda>p. exact_name parse p = None) (splitRegexpList (RuleComm rules))) @ fallback_items rules"
    and mode: "kp_Mode (cp_Policy c) = policy_mode c"
    using assms(1) by (rule compile_parts)
  have "cp_Fallback c = []" using assms(3) mode by (simp add: policy_mode_def split: if_splits)
  then have all: "\<forall>p \<in> set (splitRegexpList (RuleComm rules)). exact_name parse p \<noteq> None"
    and none: "splitRegexpList (RuleCmd rules) = []" "splitRegexpList (RuleExe rules) = []"
      "splitRegexpList (RulePPID rules) = []"
    using fb by (auto simp: filter_empty_conv fallback_items_def)
  have "dm_cmd m = []" "dm_exe m = []" "dm_ppid m = []" using compile_lists [OF m] none by auto
  then have "anyRegexpMatches same (dm_comm m) (pi_Comm info)"
    using assms(4) by (auto simp: chk matcher_matches_def anyRegexpMatches_def split: if_splits)
  from matched_name_kernel [OF m assms(2) all this] show ?thesis by (simp add: kr promoted_check)
qed

text \<open>The daemon accepts every policy the compilation returns.\<close>

lemma normalize_loop_valid:
  "\<forall>r \<in> set rules. validateExactComm (cr_Comm r) = None \<Longrightarrow>
   \<exists>res. normalize_loop index rules indices normalized = Inr res"
  by (induction rules arbitrary: index indices normalized) (auto split: option.split)

theorem compiled_accepted:
  assumes "compileDefaultKernelPolicy parse same rules priority mark = Inr c"
  shows "\<exists>p. validateAndNormalizeKernelPolicy (cp_Policy c) = Inr p"
proof -
  obtain m where kr: "kp_CommRules (cp_Policy c) =
       map (promoted_rule priority mark) (List.map_filter (exact_name parse) (splitRegexpList (RuleComm rules)))"
    and mode: "kp_Mode (cp_Policy c) = policy_mode c"
    and len: "length (kp_CommRules (cp_Policy c)) \<le> MaxKernelCommRules"
    using assms by (rule compile_parts)
  have "\<forall>r \<in> set (kp_CommRules (cp_Policy c)). validateExactComm (cr_Comm r) = None"
    by (auto simp: kr promoted_rule_def List.map_filter_def dest: exact_name_valid)
  from normalize_loop_valid [OF this] obtain res
    where "normalize_loop 0 (kp_CommRules (cp_Policy c)) [] [] = Inr res" by blast
  moreover have "\<not> kp_Mode (cp_Policy c) > KernelPolicyAuthoritative"
    "kp_Mode (cp_Policy c) = KernelPolicyUserspaceOnly \<longrightarrow> kp_CommRules (cp_Policy c) = []"
    by (auto simp: mode policy_mode_def)
  ultimately show ?thesis using len by (auto simp: validateAndNormalizeKernelPolicy_def)
qed

section \<open>Where the kernel rules and the checker differ\<close>

text \<open>Every promoted name is in the rule table, with the priority and the mark of the policy.\<close>

lemma promoted_entry:
  assumes "compileDefaultKernelPolicy parse same rules priority mark = Inr c"
    and "validateAndNormalizeKernelPolicy (cp_Policy c) = Inr p"
    and "pattern \<in> set (splitRegexpList (RuleComm rules))" "exact_name parse pattern = Some comm"
  shows "mget (rule_entries g (kp_CommRules p)) \<lparr>rk_Generation = g, rk_Comm = comm_bytes comm\<rparr> =
    Some \<lparr>rv_Priority = priority, rv_Mark = mark\<rparr>"
proof -
  have kr: "kp_CommRules (cp_Policy c) =
      map (promoted_rule priority mark) (List.map_filter (exact_name parse) (splitRegexpList (RuleComm rules)))"
    using assms(1) by (rule compile_parts)
  have "comm \<in> set (List.map_filter (exact_name parse) (splitRegexpList (RuleComm rules)))"
    using assms(3,4) by (force simp: List.map_filter_def)
  then show ?thesis
    by (simp add: lookup_decides [OF assms(2) exact_name_valid [OF assms(4)]] kr promoted_deciding promoted_rule_def
        rule_value_def)
qed

text \<open>Under a policy the kernel decides alone, the checker matches no process without a name.\<close>

lemma empty_name_unmatched:
  assumes "compileDefaultKernelPolicy parse same rules priority mark = Inr c"
    and "kp_Mode (cp_Policy c) = KernelPolicyAuthoritative" "pi_Comm info = ''''"
  shows "\<not> matched (cp_Check c info)"
proof -
  obtain m where m: "compileDefaultCheckRules parse rules = Inr m"
    and chk: "cp_Check c = (\<lambda>info. if \<not> hasRules m then (0, 0, False) else (priority, mark, matcher_matches same m info))"
    and fb: "cp_Fallback c = map ((@) ''rule_comm='')
        (filter (\<lambda>p. exact_name parse p = None) (splitRegexpList (RuleComm rules))) @ fallback_items rules"
    and mode: "kp_Mode (cp_Policy c) = policy_mode c"
    using assms(1) by (rule compile_parts)
  have "cp_Fallback c = []" using assms(2) mode by (simp add: policy_mode_def split: if_splits)
  then have "splitRegexpList (RuleCmd rules) = []" "splitRegexpList (RuleExe rules) = []"
      "splitRegexpList (RulePPID rules) = []"
    using fb by (auto simp: fallback_items_def)
  then have "dm_cmd m = []" "dm_exe m = []" "dm_ppid m = []" using compile_lists [OF m] by auto
  then show ?thesis using assms(3) by (simp add: chk matcher_matches_def anyRegexpMatches_def)
qed

text \<open>A pattern matches for the checker whatever its expression matches.\<close>

lemma pattern_matched:
  assumes "compileDefaultKernelPolicy parse same rules priority mark = Inr c"
    and "pattern \<in> set (splitRegexpList (RuleComm rules))" "parse pattern = Inr re"
    and "MatchString same re (pi_Comm info)" "pi_Comm info \<noteq> ''''"
  shows "cp_Check c info = (priority, mark, True)"
proof -
  obtain m where m: "compileDefaultCheckRules parse rules = Inr m"
    and chk: "cp_Check c = (\<lambda>info. if \<not> hasRules m then (0, 0, False) else (priority, mark, matcher_matches same m info))"
    using assms(1) by (rule compile_parts)
  obtain re' where re': "re' \<in> set (dm_comm m)" "parse pattern = Inr re'"
    using list_all2_member(1) [OF compile_lists(1) [OF m] assms(2)] by auto
  then have "anyRegexpMatches same (dm_comm m) (pi_Comm info)"
    using assms(3-5) by (auto simp: anyRegexpMatches_def list_ex_iff)
  moreover have "hasRules m" using re'(1) by (auto simp: hasRules_def)
  ultimately show ?thesis by (simp add: chk matcher_matches_def)
qed

end
