(* ===== verification/Json.thy ===== *)
theory Json
  imports Matcher Multirule
begin

text \<open>
  The documents the command writes (\<^verbatim>\<open>cmd/jsons.go\<close>) and their construction from the daemon's
  data (\<^verbatim>\<open>cmd/main.go\<close>). Fields marked \<^verbatim>\<open>omitempty\<close> hold the value; leaving out an empty one is
  the encoder's work.
\<close>

section \<open>Documents\<close>

record json_process_key =
  jk_TGID :: u32
  jk_StartTime :: u64

record json_process_value =
  jv_Tombstone :: bool
  jv_Explicit :: bool
  jv_HasMark :: bool
  jv_Priority :: i8
  jv_Generation :: u64
  jv_Mark :: u64
  jv_Timestamp :: u64

record json_proc_info =
  ji_PPID :: u32
  ji_Comm :: string
  ji_Cmdline :: string
  ji_Exe :: string

record json_kernel_mark =
  jm_HasMark :: bool
  jm_Inherited :: bool
  jm_Priority :: i8
  jm_Mark :: u64

record json_process_event =
  je_Type :: string
  je_Key :: json_process_key
  je_ParentKey :: "json_process_key option"
  je_Kernel :: json_kernel_mark
  je_Process :: json_proc_info
  je_Value :: "json_process_value option"

record json_process_update =
  ju_Type :: string
  ju_Key :: json_process_key
  ju_Value :: json_process_value

record json_kernel_policy =
  jp_Mode :: string
  jp_Generation :: u64
  jp_RuleCount :: nat
  jp_PromotedComm :: "string list"
  jp_FallbackRules :: "string list"

record json_process_map_entry =
  jx_Key :: json_process_key
  jx_Value :: json_process_value
  jx_MatchedRules :: "u64 list"

record json_process_map_state =
  js_Alive :: nat
  js_Tombstones :: nat
  js_Latest :: u64
  js_Entries :: "json_process_map_entry list"

record json_observed_process =
  jo_Key :: json_process_key
  jo_Info :: json_proc_info
  jo_MatchedRules :: "u64 list"

record json_multi_rule =
  jr_ID :: u64
  jr_Rule :: default_check_rules

record json_daemon_dynamic_state =
  jd_Generation :: u64
  jd_KernelPolicy :: json_kernel_policy
  jd_ProcessMap :: json_process_map_state
  jd_Processes :: "json_observed_process list"
  jd_MultiRules :: "json_multi_rule list"

record daemon_control_config =
  cc_PinPath :: string
  cc_HTTPAddr :: string
  cc_FWMarkEnabled :: bool
  cc_Rules :: default_check_rules
  cc_MarkPriority :: i8
  cc_MarkValue :: u64

record json_daemon_state =
  jt_Type :: string
  jt_RefreshedAt :: string
  jt_Config :: daemon_control_config
  jt_Dynamic :: json_daemon_dynamic_state

section \<open>Conversions\<close>

definition jsonKey :: "process_key \<Rightarrow> json_process_key" where
  "jsonKey key = \<lparr>jk_TGID = Tgid key, jk_StartTime = StartTime key\<rparr>"

definition ptrJSONKey :: "process_key option \<Rightarrow> json_process_key option" where
  "ptrJSONKey key = (case key of None \<Rightarrow> None | Some k \<Rightarrow> Some (jsonKey k))"

definition jsonValue :: "process_value \<Rightarrow> json_process_value" where
  "jsonValue value =
     \<lparr>jv_Tombstone = Tombstone value, jv_Explicit = Inheritance value, jv_HasMark = HasMark value,
      jv_Priority = Priority value, jv_Generation = Generation value, jv_Mark = Mark value,
      jv_Timestamp = Timestamp value\<rparr>"

definition ptrJSONValue :: "process_value option \<Rightarrow> json_process_value option" where
  "ptrJSONValue value = (case value of None \<Rightarrow> None | Some v \<Rightarrow> Some (jsonValue v))"

definition jsonProc :: "process_info \<Rightarrow> json_proc_info" where
  "jsonProc info =
     \<lparr>ji_PPID = pi_PPID info, ji_Comm = pi_Comm info, ji_Cmdline = pi_Cmdline info, ji_Exe = pi_Exe info\<rparr>"

text \<open>What is written to the log.\<close>

datatype log_line =
    EventLine json_process_event
  | UpdateLine json_process_update
  | DaemonLine log_entry

definition logProcessEvent :: "process_event \<Rightarrow> log_line" where
  "logProcessEvent event =
     EventLine \<lparr>je_Type = pe_Type event, je_Key = jsonKey (pe_Key event), je_ParentKey = ptrJSONKey (pe_ParentKey event),
       je_Kernel = \<lparr>jm_HasMark = km_HasMark (pe_Kernel event), jm_Inherited = km_Inherited (pe_Kernel event),
         jm_Priority = km_Priority (pe_Kernel event), jm_Mark = km_Mark (pe_Kernel event)\<rparr>,
       je_Process = jsonProc (pe_Process event), je_Value = ptrJSONValue (pe_Value event)\<rparr>"

definition logProcessUpdate :: "process_key \<times> process_value \<Rightarrow> log_line" where
  "logProcessUpdate update =
     UpdateLine \<lparr>ju_Type = ''process_update'', ju_Key = jsonKey (fst update), ju_Value = jsonValue (snd update)\<rparr>"

lemma jsonKey_inj [simp]: "jsonKey k = jsonKey l \<longleftrightarrow> k = l"
  by (simp add: jsonKey_def process_key.equality) (auto intro: process_key.equality)

lemma jsonValue_inj [simp]: "jsonValue v = jsonValue w \<longleftrightarrow> v = w"
  by (auto simp: jsonValue_def intro: process_value.equality)

end
