(* ===== verification/Closures.thy ===== *)
theory Closures
  imports Daemon
begin

text \<open>
  What the callbacks of a daemon may rely on: a property \<open>P\<close> of the state their closures share
  that every callback and the checker keep is kept by every operation of the daemon. The
  locale \<open>closure_client\<close> is the contract for a program that embeds the daemon.
\<close>

definition callbacks_keep :: "('c \<Rightarrow> bool) \<Rightarrow> 'c callbacks \<Rightarrow> bool" where
  "callbacks_keep P cbs \<longleftrightarrow>
     (\<forall>f e c. cb_ProcessEvent cbs = Some f \<longrightarrow> P c \<longrightarrow> P (f e c)) \<and>
     (\<forall>f u c. cb_ProcessUpdate cbs = Some f \<longrightarrow> P c \<longrightarrow> P (f u c)) \<and>
     (\<forall>f l c. cb_Logf cbs = Some f \<longrightarrow> P c \<longrightarrow> P (f l c))"

definition check_keeps :: "('c \<Rightarrow> bool) \<Rightarrow> 'c check_func \<Rightarrow> bool" where
  "check_keeps P chk \<longleftrightarrow> (\<forall>info c. P c \<longrightarrow> P (snd (chk info c)))"

definition guarded :: "('c \<Rightarrow> bool) \<Rightarrow> 'c marker \<Rightarrow> bool" where
  "guarded P m \<longleftrightarrow> P (env m) \<and> check_keeps P (check m) \<and> callbacks_keep P (callbacks m)"

lemma guardedI: "guarded P m \<Longrightarrow> settings m' = settings m \<Longrightarrow> P (env m') \<Longrightarrow> guarded P m'"
  by (auto simp: guarded_def dest: settingsD)

lemma guarded_primitives [simp]:
  assumes "guarded P m"
  shows "guarded P (logf e m)" "guarded P (onProcessUpdate k v m)" "guarded P (onProcessEvent ev m)"
    and "guarded P (snd (run_check info m))" "guarded P (snd (in_world f m))"
  using assms
  by (simp_all add: guarded_def, simp_all add: logf_def onProcessUpdate_def onProcessEvent_def run_check_def
      callbacks_keep_def check_keeps_def split_beta Let_def split: option.split)

lemma guarded_updates [simp]:
  "guarded P (m\<lparr>mirror := mm\<rparr>) = guarded P m" "guarded P (m\<lparr>eventCounter := c\<rparr>) = guarded P m"
  "guarded P (m\<lparr>installedCommRules := r\<rparr>) = guarded P m" "guarded P (m\<lparr>policyGeneration := g\<rparr>) = guarded P m"
  "guarded P (m\<lparr>generation := g\<rparr>) = guarded P m" "guarded P (m\<lparr>kernelPolicy := p\<rparr>) = guarded P m"
  by (simp_all add: guarded_def)

lemma guarded_values [simp]:
  assumes "guarded P m"
  shows "guarded P (syncKernel k v m)" "guarded P (snd (newProcessValue p mk ex m))"
    and "guarded P (snd (newNoMarkProcessValue v m))" "guarded P (snd (inheritedValue v m))"
  using assms
  by (auto simp: syncKernel_def newProcessValue_def newNoMarkProcessValue_def inheritedValue_def split_beta Let_def
      split: option.split)

lemma guarded_upsert [simp]:
  "guarded P m \<Longrightarrow> guarded P (upsertProcessWithLog k v b m)" "guarded P m \<Longrightarrow> guarded P (upsertProcess k v m)"
  "guarded P m \<Longrightarrow> guarded P (setProcessMark k p mk m)"
  by (auto simp: upsertProcess_def setProcessMark_def upsertProcessWithLog_def split_beta Let_def split: option.split)

section \<open>Traversal\<close>

lemma guarded_visit [simp]: "guarded P m \<Longrightarrow> guarded P (snd (visit info pv m))"
  by (auto simp: visit_def split_beta Let_def split: option.split)

lemma guarded_walk: "guarded P (snd s) \<Longrightarrow> guarded P (snd (walk tab infos pv s))"
proof (induction tab infos pv s rule: walk.induct)
  case (2 tab info infos pv s)
  obtain cur m where visit: "visit info pv (snd s) = (cur, m)" by fastforce
  with 2 guarded_visit [of P "snd s" info pv] show ?case by (simp add: walk.simps(2))
qed simp

lemma guarded_walk_rest: "guarded P (snd s) \<Longrightarrow> guarded P (snd (walk_rest tab byPID procs s))"
  by (induction procs arbitrary: s) (auto simp: guarded_walk)

lemma guarded_traverse [simp]:
  "guarded P m \<Longrightarrow> guarded P (traverseProcessesLocked procs m)"
  "guarded P m \<Longrightarrow> guarded P (snd (traverseProcessTreeLocked m))"
proof -
  have sync: "guarded P m \<Longrightarrow> guarded P (sync_all repairs m)" for repairs m
    by (induction repairs arbitrary: m) auto
  show walk: "guarded P m \<Longrightarrow> guarded P (traverseProcessesLocked procs m)" for procs m
    by (simp add: traverseProcessesLocked_def walk_all_def Let_def guarded_walk guarded_walk_rest)
  have "guarded P m \<Longrightarrow> guarded P (snd (refreshMirrorFromKernelLocked m))"
    by (simp add: refreshMirrorFromKernelLocked_def split_beta Let_def sync)
  then show "guarded P m \<Longrightarrow> guarded P (snd (traverseProcessTreeLocked m))"
    by (simp add: traverseProcessTreeLocked_def split_beta Let_def walk split: sum.split)
qed

section \<open>Events and collections\<close>

lemma guarded_fork [simp]:
  assumes "guarded P m"
  shows "guarded P (snd (fork_known event m))" "guarded P (snd (fork_demote event known m))"
    and "guarded P (snd (fork_decide event info known m))"
  using assms
  by (auto simp: fork_known_def fork_demote_def fork_decide_def split_beta Let_def split: option.split)

lemma guarded_exec [simp]:
  assumes "guarded P m"
  shows "guarded P (snd (exec_known event m))" "guarded P (snd (exec_decide event info known m))"
  using assms by (auto simp: exec_known_def exec_decide_def split_beta Let_def split: option.split)

lemma guarded_handleEvent [simp]: "guarded P m \<Longrightarrow> guarded P (handleEvent event m)"
  by (auto simp: handleEvent_def handleFork_def handleExit_def handleExec_def handleUnknown_def split_beta Let_def
      split: option.split)

lemma guarded_collect [simp]: "guarded P m \<Longrightarrow> guarded P (snd (collectTombstones m))"
proof -
  have dead: "guarded P m \<Longrightarrow> guarded P (snd (find_dead mm m))" for mm m
    by (induction mm arbitrary: m rule: gomap_induct) (simp_all add: split_beta Let_def)
  have tomb: "guarded P m \<Longrightarrow> guarded P (tombstone_all now d m)" for now d m
    by (induction d arbitrary: m) (simp_all add: Let_def)
  have fallback: "guarded P m \<Longrightarrow> guarded P (snd (fallback_delete keys m))" for keys m
    by (induction keys arbitrary: m) (simp_all add: split_beta Let_def split: option.split)
  have regular: "guarded P m \<Longrightarrow> guarded P (snd (regularCleanupLocked m))" for m
    by (simp add: regularCleanupLocked_def tombstoneDeadProcessesLocked_def split_beta Let_def dead tomb)
  show "guarded P m \<Longrightarrow> guarded P (snd (collectTombstones m))"
    by (simp add: collectTombstones_def delete_expired_def split_beta Let_def regular fallback split: option.split)
qed

lemma guarded_record [simp]: "guarded P m \<Longrightarrow> guarded P (process_record tcev event m)"
  by (simp add: process_record_def split_beta Let_def split: option.split)

section \<open>Policy transactions\<close>

lemma guarded_check [simp]: "guarded P m \<Longrightarrow> check_keeps P chk \<Longrightarrow> guarded P (m\<lparr>check := chk\<rparr>)"
  by (simp add: guarded_def)

lemma guarded_own_check: "guarded P m \<Longrightarrow> check_keeps P (check m)"
  by (simp add: guarded_def)

lemma guarded_rule_keys [simp]: "guarded P m \<Longrightarrow> guarded P (snd (delete_rule_keys entry keys m))"
  by (induction keys arbitrary: m) (simp_all add: split_beta Let_def split: option.split)

lemma guarded_rollback [simp]:
  "guarded P m \<Longrightarrow> guarded P (snd (deleteCommRuleKeys keys m))"
  "guarded P m \<Longrightarrow> guarded P (rememberUndeletedCommRules g keys m)"
  by (simp_all add: deleteCommRuleKeys_def rememberUndeletedCommRules_def)

lemma guarded_cleanup [simp]: "guarded P m \<Longrightarrow> guarded P (cleanupInactiveCommRulesLocked a m)"
proof -
  have "guarded P m \<Longrightarrow> guarded P (cleanup_loop a installed m)" for installed m
    by (induction installed arbitrary: m rule: gomap_induct)
      (simp_all add: cleanup_generation_def split_beta Let_def)
  then show "guarded P m \<Longrightarrow> guarded P (cleanupInactiveCommRulesLocked a m)"
    by (simp add: cleanupInactiveCommRulesLocked_def)
qed

lemma guarded_populate [simp]: "guarded P m \<Longrightarrow> guarded P (snd (populate_rules g rules keys m))"
  by (induction rules arbitrary: keys m) (simp_all add: split_beta Let_def split: sum.split option.split)

lemma guarded_activate [simp]:
  "guarded P m \<Longrightarrow> check_keeps P chk \<Longrightarrow> guarded P (snd (activate_policy policy chk g keys m))"
  by (simp add: activate_policy_def guarded_own_check split_beta Let_def split: option.split)

lemma guarded_finish [simp]: "guarded P m \<Longrightarrow> guarded P (finish_switch policy g keys m)"
  by (simp add: finish_switch_def split_beta Let_def split: option.split)

lemma guarded_switch [simp]:
  "guarded P m \<Longrightarrow> check_keeps P chk \<Longrightarrow> guarded P (snd (setKernelPolicyLocked policy chk m))"
  by (simp add: setKernelPolicyLocked_def split_beta Let_def split: sum.split option.split)

lemma guarded_policy [simp]:
  "guarded P m \<Longrightarrow> (\<And>f. chk = Some f \<Longrightarrow> check_keeps P f) \<Longrightarrow> guarded P (snd (setKernelPolicy policy chk m))"
  by (auto simp: setKernelPolicy_def check_keeps_def split: sum.split option.split)

lemma guarded_replay [simp]: "guarded P m \<Longrightarrow> guarded P (replayProcessUpdates sel m)"
proof -
  assume g: "guarded P m"
  have "P c \<Longrightarrow> P (replay_loop f sel mm c)" if "cb_ProcessUpdate (callbacks m) = Some f" for f mm c
    using that g by (induction mm arbitrary: c rule: gomap_induct)
      (auto simp: guarded_def callbacks_keep_def split: option.split)
  then show ?thesis using g by (auto simp: replayProcessUpdates_def guarded_def split: option.split)
qed

section \<open>The contract of an embedding program\<close>

text \<open>
  A program that gives the daemon callbacks and checkers that keep \<open>P\<close>. Whatever the daemon
  does between two calls of the program, \<open>P\<close> holds; the hooks may only be replaced by others
  that keep it.
\<close>

locale closure_client =
  fixes P :: "'c \<Rightarrow> bool" and cbs :: "'c callbacks" and chk :: "'c check_func"
  assumes callbacks_keep: "callbacks_keep P cbs"
    and check_keeps: "check_keeps P chk"
begin

lemma start: "P c \<Longrightarrow> cb_Check cbs = Some chk \<Longrightarrow> guarded P (snd (NewDaemon cbs tcev tttl w c))"
  using callbacks_keep check_keeps by (simp add: NewDaemon_def guarded_def Let_def)

lemma policy: "guarded P m \<Longrightarrow> guarded P (snd (setKernelPolicy policy (Some chk) m))"
  by (rule guarded_policy) (use check_keeps in auto)

lemma hooks: "guarded P m \<Longrightarrow> guarded P (updateHooks cbs m)"
  unfolding updateHooks_def
  by (rule guarded_replay) (use callbacks_keep in \<open>simp add: guarded_def callbacks_keep_def\<close>)

end

text \<open>The operations of the daemon that install no callback keep \<open>P\<close>.\<close>

lemma guarded_step:
  assumes "guarded P m"
  shows "guarded P (process_record tcev event m)" "guarded P (snd (traverseProcessTreeLocked m))"
    and "guarded P (setProcessMark key priority mark m)" "guarded P (stop_replay m)"
    and "guarded P (snd (bumpGeneration m))"
  using assms by (simp_all add: stop_replay_def bumpGeneration_def guarded_own_check)

section \<open>A policy switch keeps the callbacks\<close>

lemma callbacks_rule_ops [simp]:
  "callbacks (snd (delete_rule_keys entry keys m)) = callbacks m"
  "callbacks (cleanup_loop a installed m) = callbacks m"
proof -
  show del: "callbacks (snd (delete_rule_keys entry keys m)) = callbacks m" for entry keys m
    by (induction keys arbitrary: m) (simp_all add: split_beta Let_def split: option.split)
  show "callbacks (cleanup_loop a installed m) = callbacks m"
    by (induction installed arbitrary: m rule: gomap_induct) (simp_all add: cleanup_generation_def split_beta Let_def del)
qed

lemma callbacks_populate [simp]: "callbacks (snd (populate_rules g rules keys m)) = callbacks m"
  by (induction rules arbitrary: keys m)
    (simp_all add: deleteCommRuleKeys_def rememberUndeletedCommRules_def split_beta Let_def
      split: sum.split option.split)

lemma callbacks_rollback [simp]:
  "callbacks (snd (deleteCommRuleKeys keys m)) = callbacks m"
  "callbacks (rememberUndeletedCommRules g keys m) = callbacks m"
  "callbacks (cleanupInactiveCommRulesLocked a m) = callbacks m"
  by (simp_all add: deleteCommRuleKeys_def rememberUndeletedCommRules_def cleanupInactiveCommRulesLocked_def)

lemma callbacks_activate [simp]: "callbacks (snd (activate_policy policy chk g keys m)) = callbacks m"
  by (simp add: activate_policy_def split_beta Let_def split: option.split)

lemma callbacks_finish [simp]: "callbacks (finish_switch policy g keys m) = callbacks m"
  by (simp add: finish_switch_def split_beta Let_def split: option.split)

lemma callbacks_switch [simp]: "callbacks (snd (setKernelPolicyLocked policy chk m)) = callbacks m"
  by (simp add: setKernelPolicyLocked_def split_beta Let_def split: sum.split option.split)

lemma callbacks_policy [simp]: "callbacks (snd (setKernelPolicy policy chk m)) = callbacks m"
  by (simp add: setKernelPolicy_def split: sum.split)

section \<open>A policy switch reserves its generation\<close>

text \<open>What comes after the reservation, a rollback included, does not touch it.\<close>

lemma reserved_rule_ops [simp]:
  "policyGeneration (snd (delete_rule_keys entry keys m)) = policyGeneration m"
  "generation (snd (delete_rule_keys entry keys m)) = generation m"
  by (induction keys arbitrary: m) (simp_all add: split_beta Let_def split: option.split)

lemma reserved_cleanup [simp]:
  fixes m :: "'c marker"
  shows "policyGeneration (cleanupInactiveCommRulesLocked a m) = policyGeneration m"
  "generation (cleanupInactiveCommRulesLocked a m) = generation m"
proof -
  have "policyGeneration (cleanup_loop a installed m) = policyGeneration m \<and>
      generation (cleanup_loop a installed m) = generation m" for installed and m :: "'c marker"
    by (induction installed arbitrary: m rule: gomap_induct) (simp_all add: cleanup_generation_def split_beta Let_def)
  then show "policyGeneration (cleanupInactiveCommRulesLocked a m) = policyGeneration m"
    "generation (cleanupInactiveCommRulesLocked a m) = generation m"
    by (simp_all add: cleanupInactiveCommRulesLocked_def)
qed

lemma reserved_rollback [simp]:
  "policyGeneration (snd (deleteCommRuleKeys keys m)) = policyGeneration m"
  "policyGeneration (rememberUndeletedCommRules g keys m) = policyGeneration m"
  by (simp_all add: deleteCommRuleKeys_def rememberUndeletedCommRules_def)

lemma reserved_parts [simp]:
  "policyGeneration (snd (populate_rules g rules keys m)) = policyGeneration m"
  "policyGeneration (snd (activate_policy policy chk g keys m)) = policyGeneration m"
  "policyGeneration (finish_switch policy g keys m) = policyGeneration m"
proof -
  show "policyGeneration (snd (populate_rules g rules keys m)) = policyGeneration m"
    by (induction rules arbitrary: keys m) (simp_all add: split_beta Let_def split: sum.split option.split)
qed (simp_all add: activate_policy_def finish_switch_def split_beta Let_def split: option.split)

text \<open>A valid policy uses up a generation once the processes have been listed, whatever fails then.\<close>

lemma switch_reserves:
  assumes "generation m \<le> policyGeneration m"
  shows "policyGeneration (snd (setKernelPolicyLocked policy chk m)) =
    (if (\<exists>procs. fst (listProcesses (wld m)) = Inr procs) \<and> policyGeneration m \<noteq> - 1
     then policyGeneration m + 1 else policyGeneration m)"
proof -
  have "maxU64 (policyGeneration m) (generation m) = policyGeneration m"
    using assms by (auto simp: maxU64_def)
  then show ?thesis
    by (auto simp: setKernelPolicyLocked_def nextPolicyGeneration_def split_beta Let_def split: sum.split option.split)
qed

end
