(* ===== verification/Snapshot.thy ===== *)
theory Snapshot
  imports Cleanup
begin

text \<open>
  Snapshots of the pinned process map (\<^verbatim>\<open>GrabProcessMapState\<close> and \<^verbatim>\<open>readProcessMapState\<close> of
  \<^verbatim>\<open>mark.go\<close>), which the watcher and the control server read without the daemon's lock.
\<close>

record process_map_state =
  Alive :: nat
  Tombstones :: nat
  Latest :: u64
  Entries :: mirror_map
  Procs :: "process_info list"

datatype snapshot_error = ErrOpenPinned | ErrIterateMap | ErrListProcs proc_error

definition empty_snapshot :: process_map_state where
  "empty_snapshot = \<lparr>Alive = 0, Tombstones = 0, Latest = 0, Entries = [], Procs = []\<rparr>"

fun snapshot_loop :: "(process_key \<times> process_value) list \<Rightarrow> process_map_state \<Rightarrow> process_map_state" where
  "snapshot_loop [] s = s"
| "snapshot_loop ((key, v) # entries) s =
     (let s = s\<lparr>Entries := mput key v (Entries s)\<rparr>;
          s = (if Tombstone v then s\<lparr>Tombstones := Tombstones s + 1\<rparr> else s\<lparr>Alive := Alive s + 1\<rparr>);
          s = (if Timestamp v > Latest s then s\<lparr>Latest := Timestamp v\<rparr> else s)
      in snapshot_loop entries s)"

definition readProcessMapState :: "world \<Rightarrow> (snapshot_error + process_map_state) \<times> world" where
  "readProcessMapState w =
     (let ((entries, failed), w) = processes_Iterate w;
          snapshot = snapshot_loop entries empty_snapshot
      in if failed then (Inl ErrIterateMap, w)
         else let (res, w) = listProcesses w
              in case res of
                   Inl e \<Rightarrow> (Inl (ErrListProcs e), w)
                 | Inr procs \<Rightarrow> (Inr (snapshot\<lparr>Procs := procs\<rparr>), w))"

text \<open>Opening the pinned map is a system call that may fail.\<close>

definition GrabProcessMapState :: "world \<Rightarrow> (snapshot_error + process_map_state) \<times> world" where
  "GrabProcessMapState w =
     (let (fault, w) = syscall w in if fault then (Inl ErrOpenPinned, w) else readProcessMapState w)"

section \<open>What a snapshot holds\<close>

definition counts :: "mirror_map \<Rightarrow> process_map_state \<Rightarrow> bool" where
  "counts seen s \<longleftrightarrow>
     wfmap (Entries s) \<and> mget (Entries s) = mget seen \<and>
     Tombstones s = length (filter (\<lambda>(k, v). Tombstone v) seen) \<and>
     Alive s = length (filter (\<lambda>(k, v). \<not> Tombstone v) seen) \<and>
     (\<forall>(k, v) \<in> set seen. Timestamp v \<le> Latest s) \<and>
     (Latest s = 0 \<or> (\<exists>(k, v) \<in> set seen. Timestamp v = Latest s))"

lemma counts_step:
  assumes "counts seen s" "mget seen key = None"
  shows "counts (seen @ [(key, v)]) (snapshot_loop [(key, v)] s)"
proof -
  have get: "(mget seen)(key \<mapsto> v) = mget (seen @ [(key, v)])"
    using assms(2) by (auto simp: fun_eq_iff map_add_def split: option.split)
  show ?thesis
    using assms(1) by (auto simp: counts_def Let_def get [symmetric] not_less simp del: map_of_append intro: order.trans less_imp_le)
qed

lemma snapshot_loop_append:
  "snapshot_loop (xs @ ys) s = snapshot_loop ys (snapshot_loop xs s)"
  by (induction xs s rule: snapshot_loop.induct) (simp_all add: Let_def)

lemma snapshot_loop_counts: "wfmap entries \<Longrightarrow> counts entries (snapshot_loop entries empty_snapshot)"
proof (induction entries rule: rev_induct)
  case Nil
  then show ?case by (simp add: counts_def empty_snapshot_def)
next
  case (snoc entry entries)
  obtain k v where e: "entry = (k, v)" by fastforce
  have "mget entries k = None" using snoc.prems e by (auto simp: wfmap_def map_of_eq_None_iff)
  from counts_step [OF snoc.IH this] snoc.prems show ?case
    by (simp add: e snapshot_loop_append wfmap_def)
qed

text \<open>A snapshot counts the entries of the kernel map, and all of them.\<close>

theorem GrabProcessMapState_counts:
  assumes "wfmap (k_processes w)" "fst (GrabProcessMapState w) = Inr s"
  shows "counts (k_processes w) (s\<lparr>Procs := []\<rparr>)"
proof -
  let ?w = "snd (syscall w)"
  have w: "k_processes ?w = k_processes w" by (simp add: syscall_def)
  obtain entries where "fst (processes_Iterate ?w) = (entries, False)"
      "s\<lparr>Procs := []\<rparr> = snapshot_loop entries empty_snapshot\<lparr>Procs := []\<rparr>"
    using assms(2)
    by (auto simp: GrabProcessMapState_def readProcessMapState_def split_beta Let_def prod_eq_iff
        split: if_splits sum.splits)
  moreover from this have "entries = k_processes w"
    by (auto simp: processes_Iterate_def w split: option.splits)
  ultimately show ?thesis
    using snapshot_loop_counts [OF assms(1)] by (simp add: counts_def)
qed

end
