(* ===== verification/Control.thy ===== *)
theory Control
  imports Json GoNet Closures Snapshot
begin

text \<open>
  The command around the daemon (\<^verbatim>\<open>cmd/main.go\<close>): the manager of tracked rules, the parsing of
  requests, the handlers of the HTTP control server and the start of the program. The state
  the daemon's callbacks share is the manager and the log. A request comes with what the
  library makes of it: the decoded JSON body or the parsed form, \<^const>\<open>None\<close> for an error.
\<close>

section \<open>The manager of tracked rules\<close>

record multi_rule_manager =
  mm_tracker :: tracker
  mm_rules :: "(u64, default_check_rules) gomap"

definition newMultiRuleManager :: multi_rule_manager where
  "newMultiRuleManager = \<lparr>mm_tracker = New, mm_rules = []\<rparr>"

text \<open>The predicate of a registered rule.\<close>

definition tracked_rule :: "(nat \<Rightarrow> nat \<Rightarrow> bool) \<Rightarrow> default_check_matcher \<Rightarrow> process_info \<Rightarrow> bool" where
  "tracked_rule same matcher info \<longleftrightarrow> hasRules matcher \<and> matcher_matches same matcher info"

text \<open>\<^const>\<open>None\<close>: the search for an id does not return.\<close>

definition Register ::
    "(string \<Rightarrow> 'e + regexp) \<Rightarrow> (nat \<Rightarrow> nat \<Rightarrow> bool) \<Rightarrow> default_check_rules \<Rightarrow> multi_rule_manager \<Rightarrow>
     (('e rules_error + json_multi_rule) \<times> multi_rule_manager) option" where
  "Register parse same rules m =
     (case compileDefaultCheckRules parse rules of
        Inl err \<Rightarrow> Some (Inl err, m)
      | Inr matcher \<Rightarrow>
          (case RegisterRule (Some (tracked_rule same matcher)) (mm_tracker m) of
             None \<Rightarrow> None
           | Some (rid, t) \<Rightarrow>
               Some (Inr \<lparr>jr_ID = rid, jr_Rule = rules\<rparr>,
                     \<lparr>mm_tracker = t, mm_rules = mput rid rules (mm_rules m)\<rparr>)))"

definition Unregister :: "u64 \<Rightarrow> multi_rule_manager \<Rightarrow> bool \<times> multi_rule_manager" where
  "Unregister ruleID m =
     (let (found, t) = UnregisterRule ruleID (mm_tracker m)
      in if \<not> found then (False, m\<lparr>mm_tracker := t\<rparr>)
         else (True, \<lparr>mm_tracker = t, mm_rules = mdel ruleID (mm_rules m)\<rparr>))"

definition manager_ApplyProcessEvent :: "process_event \<Rightarrow> multi_rule_manager \<Rightarrow> multi_rule_manager" where
  "manager_ApplyProcessEvent event m = m\<lparr>mm_tracker := ApplyProcessEvent event (mm_tracker m)\<rparr>"

definition manager_Snapshot :: "multi_rule_manager \<Rightarrow> (process_key, u64 list) gomap" where
  "manager_Snapshot m = Snapshot (mm_tracker m)"

definition manager_List :: "multi_rule_manager \<Rightarrow> json_multi_rule list" where
  "manager_List m =
     sort_key jr_ID (map (\<lambda>(rid, rules). \<lparr>jr_ID = rid, jr_Rule = rules\<rparr>) (mm_rules m))"

section \<open>Requests\<close>

definition empty_rules :: default_check_rules where
  "empty_rules = \<lparr>RuleComm = '''', RuleCmd = '''', RuleExe = '''', RulePPID = ''''\<rparr>"

fun first_value :: "(string \<Rightarrow> string) \<Rightarrow> string list \<Rightarrow> string" where
  "first_value get [] = ''''"
| "first_value get (name # names) =
     (let v = TrimSpace (get name) in if v \<noteq> '''' then v else first_value get names)"

definition normalizeMultiRuleValues :: "(string \<Rightarrow> string) \<Rightarrow> default_check_rules" where
  "normalizeMultiRuleValues get =
     \<lparr>RuleComm = first_value get [''rule_comm'', ''comm''], RuleCmd = first_value get [''rule_cmd'', ''cmd''],
      RuleExe = first_value get [''rule_exe'', ''exe''], RulePPID = first_value get [''rule_ppid'', ''ppid'']\<rparr>"

text \<open>\<^const>\<open>None\<close>: the specification is a malformed query.\<close>

definition parseMultiRuleCLI :: "string \<Rightarrow> default_check_rules option" where
  "parseMultiRuleCLI spec =
     (let spec = TrimSpace spec
      in if spec = '''' then Some empty_rules
         else if CHR ''='' \<notin> set spec then Some (empty_rules\<lparr>RuleComm := spec\<rparr>)
         else (case ParseQuery spec of
                 None \<Rightarrow> None
               | Some vals \<Rightarrow> Some (normalizeMultiRuleValues (Values_Get vals))))"

record json_default_update =
  jq_rule_comm :: "string option"
  jq_rule_cmd :: "string option"
  jq_rule_exe :: "string option"
  jq_rule_ppid :: "string option"
  jq_mark_priority :: "i8 option"
  jq_mark_value :: "u64 option"

record http_request =
  rq_ContentType :: string
  rq_JSONUpdate :: "json_default_update option"
  rq_JSONStrings :: "(string \<times> string) list option"
  rq_Form :: "(string \<times> string) list option"

datatype 'e control_error =
    ErrDecodeJSON
  | ErrParseForm
  | ErrMarkValue num_error
  | ErrMarkPriority num_error
  | ErrRules "'e rules_error"
  | ErrInvalidID

abbreviation is_json :: "http_request \<Rightarrow> bool" where
  "is_json r \<equiv> starts_with ''application/json'' (rq_ContentType r)"

text \<open>The second normalisation trims the four fields again.\<close>

definition rules_field :: "default_check_rules \<Rightarrow> string \<Rightarrow> string" where
  "rules_field rules name =
     (if name = ''rule_comm'' then RuleComm rules
      else if name = ''rule_cmd'' then RuleCmd rules
      else if name = ''rule_exe'' then RuleExe rules
      else if name = ''rule_ppid'' then RulePPID rules
      else '''')"

definition parseMultiRuleUpdate :: "http_request \<Rightarrow> 'e control_error + default_check_rules" where
  "parseMultiRuleUpdate r =
     (case (if is_json r then
              (case rq_JSONStrings r of
                 None \<Rightarrow> Inl ErrDecodeJSON
               | Some raw \<Rightarrow> Inr (normalizeMultiRuleValues (Values_Get raw)))
            else
              (case rq_Form r of
                 None \<Rightarrow> Inl ErrParseForm
               | Some form \<Rightarrow> Inr (normalizeMultiRuleValues (Values_Get form)))) of
        Inl err \<Rightarrow> Inl err
      | Inr rules \<Rightarrow> Inr (normalizeMultiRuleValues (rules_field rules)))"

record default_check_update =
  du_Rules :: default_check_rules
  du_MarkPriority :: i8
  du_MarkValue :: u64

definition or_default :: "'a option \<Rightarrow> 'a \<Rightarrow> 'a" where
  "or_default x d = (case x of None \<Rightarrow> d | Some y \<Rightarrow> y)"

definition json_update :: "json_default_update \<Rightarrow> default_check_update \<Rightarrow> default_check_update" where
  "json_update j u =
     \<lparr>du_Rules = \<lparr>RuleComm = or_default (jq_rule_comm j) (RuleComm (du_Rules u)),
                  RuleCmd = or_default (jq_rule_cmd j) (RuleCmd (du_Rules u)),
                  RuleExe = or_default (jq_rule_exe j) (RuleExe (du_Rules u)),
                  RulePPID = or_default (jq_rule_ppid j) (RulePPID (du_Rules u))\<rparr>,
      du_MarkPriority = or_default (jq_mark_priority j) (du_MarkPriority u),
      du_MarkValue = or_default (jq_mark_value j) (du_MarkValue u)\<rparr>"

definition form_mark_value :: "(string \<times> string) list \<Rightarrow> default_check_update \<Rightarrow> 'e control_error + default_check_update" where
  "form_mark_value form u =
     (let raw = Values_Get form ''mark_value''
      in if raw = '''' then Inr u
         else (case ParseUint 10 64 raw of
                 Inl err \<Rightarrow> Inl (ErrMarkValue err)
               | Inr v \<Rightarrow> Inr (u\<lparr>du_MarkValue := of_nat v\<rparr>)))"

definition form_mark_priority :: "(string \<times> string) list \<Rightarrow> default_check_update \<Rightarrow> 'e control_error + default_check_update" where
  "form_mark_priority form u =
     (let raw = Values_Get form ''mark_priority''
      in if raw = '''' then Inr u
         else (case ParseInt 10 8 raw of
                 Inl err \<Rightarrow> Inl (ErrMarkPriority err)
               | Inr p \<Rightarrow> Inr (u\<lparr>du_MarkPriority := of_int p\<rparr>)))"

definition form_update :: "(string \<times> string) list \<Rightarrow> default_check_update \<Rightarrow> 'e control_error + default_check_update" where
  "form_update form u =
     (let u = u\<lparr>du_Rules := \<lparr>RuleComm = Values_Get form ''rule_comm'', RuleCmd = Values_Get form ''rule_cmd'',
                            RuleExe = Values_Get form ''rule_exe'', RulePPID = Values_Get form ''rule_ppid''\<rparr>\<rparr>
      in case form_mark_value form u of Inl err \<Rightarrow> Inl err | Inr u \<Rightarrow> form_mark_priority form u)"

definition trim_rules :: "default_check_rules \<Rightarrow> default_check_rules" where
  "trim_rules rules =
     \<lparr>RuleComm = TrimSpace (RuleComm rules), RuleCmd = TrimSpace (RuleCmd rules),
      RuleExe = TrimSpace (RuleExe rules), RulePPID = TrimSpace (RulePPID rules)\<rparr>"

definition parseDefaultCheckUpdate :: "http_request \<Rightarrow> i8 \<Rightarrow> u64 \<Rightarrow> 'e control_error + default_check_update" where
  "parseDefaultCheckUpdate r defaultMarkPriority defaultMarkValue =
     (let update = \<lparr>du_Rules = empty_rules, du_MarkPriority = defaultMarkPriority, du_MarkValue = defaultMarkValue\<rparr>
      in case (if is_json r then
                 (case rq_JSONUpdate r of None \<Rightarrow> Inl ErrDecodeJSON | Some j \<Rightarrow> Inr (json_update j update))
               else
                 (case rq_Form r of None \<Rightarrow> Inl ErrParseForm | Some form \<Rightarrow> form_update form update)) of
           Inl err \<Rightarrow> Inl err
         | Inr update \<Rightarrow> Inr (update\<lparr>du_Rules := trim_rules (du_Rules update)\<rparr>))"

section \<open>Parsing facts\<close>

text \<open>Only trimmed values leave the parsers.\<close>

lemma parse_update_defaults:
  assumes "\<not> is_json r" "rq_Form r = Some form" "Values_Get form ''mark_value'' = ''''"
    "Values_Get form ''mark_priority'' = ''''"
  shows "parseDefaultCheckUpdate r p v =
    Inr \<lparr>du_Rules = \<lparr>RuleComm = TrimSpace (Values_Get form ''rule_comm''),
             RuleCmd = TrimSpace (Values_Get form ''rule_cmd''), RuleExe = TrimSpace (Values_Get form ''rule_exe''),
             RulePPID = TrimSpace (Values_Get form ''rule_ppid'')\<rparr>,
         du_MarkPriority = p, du_MarkValue = v\<rparr>"
  using assms
  by (simp add: parseDefaultCheckUpdate_def form_update_def form_mark_value_def form_mark_priority_def
      trim_rules_def Let_def)

lemma form_mark_value_format:
  "Values_Get form ''mark_value'' = dec (unat v) \<Longrightarrow>
   form_mark_value form u = Inr (u\<lparr>du_MarkValue := v\<rparr>)"
  using ParseUint_format [of 10 "unat v" 64] unsigned_less [where ?'a = nat and w = v]
  by (simp add: form_mark_value_def)

section \<open>The manager's invariant\<close>

text \<open>
  The tracker holds a rule for every listed specification and no other: its predicate is the
  compiled specification.
\<close>

definition compiles_to ::
    "(string \<Rightarrow> 'e + regexp) \<Rightarrow> (nat \<Rightarrow> nat \<Rightarrow> bool) \<Rightarrow> default_check_rules \<Rightarrow> rule \<Rightarrow> bool" where
  "compiles_to parse same rules rule \<longleftrightarrow>
     (\<exists>matcher. compileDefaultCheckRules parse rules = Inr matcher \<and> rule = tracked_rule same matcher)"

definition mgr_ok ::
    "(string \<Rightarrow> 'e + regexp) \<Rightarrow> (nat \<Rightarrow> nat \<Rightarrow> bool) \<Rightarrow> multi_rule_manager \<Rightarrow> bool" where
  "mgr_ok parse same m \<longleftrightarrow>
     tracker_ok (mm_tracker m) \<and> wfmap (mm_rules m) \<and>
     (\<forall>rid. rel_option (compiles_to parse same) (mget (mm_rules m) rid)
        (mget (tr_rules (mm_tracker m)) rid))"

lemma mgr_ok_new: "mgr_ok parse same newMultiRuleManager"
  using tracker_ok_New by (simp add: mgr_ok_def newMultiRuleManager_def New_def)

lemma mgr_ok_rules_frame:
  "mgr_ok parse same m \<Longrightarrow> tracker_ok t \<Longrightarrow> tr_rules t = tr_rules (mm_tracker m) \<Longrightarrow>
   mgr_ok parse same (m\<lparr>mm_tracker := t\<rparr>)"
  by (simp add: mgr_ok_def)

lemma ApplyProcess_rules [simp]: "tr_rules (ApplyProcess info t) = tr_rules t"
  by (simp add: ApplyProcess_def Let_def)

lemma ApplyProcessEvent_rules [simp]: "tr_rules (ApplyProcessEvent event t) = tr_rules t"
  by (simp add: ApplyProcessEvent_def)

lemma mgr_ok_observe:
  "mgr_ok parse same m \<Longrightarrow> mgr_ok parse same (m\<lparr>mm_tracker := ApplyProcess info (mm_tracker m)\<rparr>)"
  "mgr_ok parse same m \<Longrightarrow> mgr_ok parse same (manager_ApplyProcessEvent event m)"
  by (auto simp: manager_ApplyProcessEvent_def mgr_ok_def [of _ _ m]
      intro!: mgr_ok_rules_frame tracker_ok_ApplyProcess tracker_ok_ApplyProcessEvent)

text \<open>A registration that succeeds adds one fresh id; one that fails changes nothing.\<close>

lemma Register_cases:
  assumes "Register parse same rules m = Some (res, m')"
  obtains (rejected) err where "compileDefaultCheckRules parse rules = Inl err" "res = Inl err" "m' = m"
  | (registered) matcher rid t where "compileDefaultCheckRules parse rules = Inr matcher"
      "RegisterRule (Some (tracked_rule same matcher)) (mm_tracker m) = Some (rid, t)"
      "res = Inr \<lparr>jr_ID = rid, jr_Rule = rules\<rparr>"
      "m' = \<lparr>mm_tracker = t, mm_rules = mput rid rules (mm_rules m)\<rparr>"
  using assms by (auto simp: Register_def split: sum.splits option.splits)

lemma mgr_ok_Register:
  assumes ok: "mgr_ok parse same m" and run: "Register parse same rules m = Some (res, m')"
  shows "mgr_ok parse same m'"
  using run
proof (cases rule: Register_cases)
  case (registered matcher rid t)
  have tr: "tracker_ok (mm_tracker m)" using ok by (simp add: mgr_ok_def)
  show ?thesis
    using ok registered(1,4) tracker_ok_RegisterRule [OF tr registered(2)]
      RegisterRule_result(2) [OF tr registered(2)]
    by (simp add: mgr_ok_def compiles_to_def)
qed (use ok in simp)

lemma mgr_ok_Unregister:
  assumes ok: "mgr_ok parse same m"
  shows "mgr_ok parse same (snd (Unregister ruleID m))"
    and "fst (Unregister ruleID m) \<longleftrightarrow> mget (mm_rules m) ruleID \<noteq> None"
proof -
  have tr: "tracker_ok (snd (UnregisterRule ruleID (mm_tracker m)))"
    using ok by (intro tracker_ok_UnregisterRule) (simp add: mgr_ok_def)
  have known: "mget (tr_rules (mm_tracker m)) ruleID = None \<longleftrightarrow> mget (mm_rules m) ruleID = None"
    using ok by (metis mgr_ok_def option.rel_distinct(1) option.rel_distinct(2) not_None_eq)
  then show "fst (Unregister ruleID m) \<longleftrightarrow> mget (mm_rules m) ruleID \<noteq> None"
    by (simp add: Unregister_def UnregisterRule_def)
  show "mgr_ok parse same (snd (Unregister ruleID m))"
    using ok tr by (auto simp: Unregister_def UnregisterRule_def mgr_ok_def)
qed

section \<open>The list\<close>

lemma manager_List_rules:
  "mgr_ok parse same m \<Longrightarrow> rule \<in> set (manager_List m) \<longleftrightarrow> mget (mm_rules m) (jr_ID rule) = Some (jr_Rule rule)"
  by (cases rule) (force simp: manager_List_def mgr_ok_def wfmap_get_iff)

lemma manager_List_sorted:
  assumes "mgr_ok parse same m"
  shows "sorted_wrt (<) (map jr_ID (manager_List m))"
proof -
  let ?rows = "map (\<lambda>(rid, rules). \<lparr>jr_ID = rid, jr_Rule = rules\<rparr>) (mm_rules m)"
  have "map jr_ID ?rows = mkeys (mm_rules m)" by (simp add: case_prod_beta comp_def)
  moreover have "distinct (mkeys (mm_rules m))" using assms by (simp add: mgr_ok_def wfmap_def)
  ultimately have "distinct (map jr_ID ?rows)" by (rule ssubst)
  then show ?thesis
    by (simp only: manager_List_def strict_sorted_iff sorted_sort_key distinct_map distinct_sort set_sort simp_thms)
qed

section \<open>A removal during a registration\<close>

text \<open>
  \<open>Register\<close> is one step here, while the code lists the rule under a second lock, after the tracker
  has it. A removal of the rule between the two finds it, and then the rule is listed for ever: the
  tracker does not know it any more, so that every later removal fails.
\<close>

lemma removal_during_Register:
  fixes rules :: default_check_rules
  assumes "tracker_ok (mm_tracker m)" "RegisterRule (Some rule) (mm_tracker m) = Some (rid, t)"
  defines "removed \<equiv> Unregister rid (m\<lparr>mm_tracker := t\<rparr>)"
  defines "late \<equiv> (snd removed)\<lparr>mm_rules := mput rid rules (mm_rules (snd removed))\<rparr>"
  shows "fst removed" "mget (mm_rules late) rid = Some rules" "\<not> fst (Unregister rid late)"
  using RegisterRule_result(2) [OF assms(1,2)]
  by (simp_all add: removed_def late_def Unregister_def UnregisterRule_def Let_def split_beta)

end
