(* ===== verification/Lifecycle.thy ===== *)
theory Lifecycle
  imports Daemon
begin

text \<open>
  What the daemon acquires and releases (\<^verbatim>\<open>NewDaemon\<close>, \<^verbatim>\<open>Run\<close>, \<^verbatim>\<open>Stop\<close>, \<^verbatim>\<open>Close\<close>, the end of
  \<^verbatim>\<open>runEvents\<close> and \<^verbatim>\<open>removePinnedMaps\<close> of \<^verbatim>\<open>mark.go\<close>), with the calls it makes as a trace.
  Each call is answered by its environment; a link or a reader is known by the position in the
  trace of the call that opened it. A path joined of a directory and a name is given as the two.
  The life of a daemon is any order of these operations, \<^verbatim>\<open>Run\<close> after \<^verbatim>\<open>Close\<close> included: the code does
  not forbid it, and if it succeeds then its links are lost (\<open>late_run_leaks\<close>).
\<close>

section \<open>Calls\<close>

datatype bpf_program = ForkProgram | ExitProgram | ExecProgram

datatype resource_call =
    MkdirAll string
  | Remove string string
  | RemoveMemlock
  | LoadObjects string
  | AttachTracing bpf_program
  | NewReader
  | AttachCgroup string string
  | CloseHandle nat
  | CloseObjects

datatype 'e os_error = NotExist | OSError 'e

record 'e calls =
  ca_log :: "resource_call list"
  ca_answer :: "nat \<Rightarrow> 'e os_error option"

definition issue :: "resource_call \<Rightarrow> 'e calls \<Rightarrow> 'e os_error option \<times> 'e calls" where
  "issue call s = (ca_answer s (length (ca_log s)), s\<lparr>ca_log := ca_log s @ [call]\<rparr>)"

definition acquire :: "resource_call \<Rightarrow> 'e calls \<Rightarrow> ('e os_error + nat) \<times> 'e calls" where
  "acquire call s =
     (let (err, s') = issue call s
      in (case err of None \<Rightarrow> Inr (length (ca_log s)) | Some e \<Rightarrow> Inl e, s'))"

text \<open>\<^verbatim>\<open>Close\<close> of a handle that may be \<^verbatim>\<open>nil\<close>, with the errors to join.\<close>

definition close_handle :: "nat option \<Rightarrow> 'e calls \<Rightarrow> 'e os_error list \<times> 'e calls" where
  "close_handle handle s =
     (case handle of
        None \<Rightarrow> ([], s)
      | Some h \<Rightarrow>
          (let (err, s) = issue (CloseHandle h) s
           in (case err of None \<Rightarrow> [] | Some e \<Rightarrow> [e], s)))"

section \<open>Pinned maps\<close>

definition pinnedMapNames :: "string list" where
  "pinnedMapNames = [''processes'', ''comm_rules'', ''active_policy'', ''events'']"

text \<open>A map that is not there is as good as removed; any other error ends the loop.\<close>

fun removePinnedMaps :: "string \<Rightarrow> string list \<Rightarrow> 'e calls \<Rightarrow> 'e os_error list \<times> 'e calls" where
  "removePinnedMaps pinPath [] s = ([], s)"
| "removePinnedMaps pinPath (name # names) s =
     (let (err, s) = issue (Remove pinPath name) s
      in case err of
           Some (OSError e) \<Rightarrow> ([OSError e], s)
         | _ \<Rightarrow> removePinnedMaps pinPath names s)"

section \<open>The daemon\<close>

text \<open>
  The fields of \<^verbatim>\<open>Daemon\<close>; the objects and their maps are in the marker. \<open>dm_looping\<close> says that
  the goroutine of \<^verbatim>\<open>runEvents\<close> is running, \<open>dm_done\<close> what the channel holds, \<open>dm_doneClosed\<close>
  that it is closed.
\<close>

record ('c, 'e) daemon =
  dm_marker :: "'c marker"
  dm_pinPath :: string
  dm_rd :: "nat option"
  dm_forkLink :: "nat option"
  dm_exitLink :: "nat option"
  dm_execLink :: "nat option"
  dm_looping :: bool
  dm_done :: "'e os_error list list"
  dm_doneClosed :: bool
  dm_stopOnce :: bool
  dm_closeOnce :: bool
  dm_tombCollectionEvents :: u64
  dm_calls :: "'e calls"

datatype 'e daemon_error =
    ErrCreatePinPath "'e os_error"
  | ErrRemoveOldMaps "'e os_error"
  | ErrRemoveMemlock "'e os_error"
  | ErrLoadObjects "'e os_error"
  | ErrAttachFork "'e os_error"
  | ErrAttachExit "'e os_error"
  | ErrAttachExec "'e os_error"
  | ErrOpenRing "'e os_error"

definition on_calls :: "('e calls \<Rightarrow> 'a \<times> 'e calls) \<Rightarrow> ('c, 'e) daemon \<Rightarrow> 'a \<times> ('c, 'e) daemon" where
  "on_calls f d = (let (a, s) = f (dm_calls d) in (a, d\<lparr>dm_calls := s\<rparr>))"

definition prepare :: "string \<Rightarrow> 'e calls \<Rightarrow> 'e daemon_error option \<times> 'e calls" where
  "prepare pinPath s =
     (let (err, s) = issue (MkdirAll pinPath) s
      in case err of Some e \<Rightarrow> (Some (ErrCreatePinPath e), s)
       | None \<Rightarrow>
           (let (errs, s) = removePinnedMaps pinPath pinnedMapNames s
            in case errs of e # _ \<Rightarrow> (Some (ErrRemoveOldMaps e), s)
             | [] \<Rightarrow>
                 (let (err, s) = issue RemoveMemlock s
                  in case err of Some e \<Rightarrow> (Some (ErrRemoveMemlock e), s)
                   | None \<Rightarrow>
                       (let (err, s) = issue (LoadObjects pinPath) s
                        in (map_option ErrLoadObjects err, s)))))"

definition open_daemon ::
    "string \<Rightarrow> 'c callbacks \<Rightarrow> u64 \<Rightarrow> 64 word \<Rightarrow> world \<Rightarrow> 'c \<Rightarrow> 'e calls \<Rightarrow>
     'e daemon_error + ('c, 'e) daemon" where
  "open_daemon pinPath cbs tcev tttl w c s =
     (let (err, s) = prepare pinPath s
      in case err of Some e \<Rightarrow> Inl e
       | None \<Rightarrow>
           (let (tombCollectionEvents, m) = NewDaemon cbs tcev tttl w c
            in Inr \<lparr>dm_marker = m, dm_pinPath = pinPath, dm_rd = None, dm_forkLink = None,
                    dm_exitLink = None, dm_execLink = None, dm_looping = False, dm_done = [],
                    dm_doneClosed = False, dm_stopOnce = False, dm_closeOnce = False,
                    dm_tombCollectionEvents = tombCollectionEvents, dm_calls = s\<rparr>))"

section \<open>Running\<close>

definition run_traversal :: "bool \<Rightarrow> 'c marker \<Rightarrow> 'c marker" where
  "run_traversal attached m =
     (let (err, m) = traverseProcessTreeLocked m
      in case err of None \<Rightarrow> m | Some e \<Rightarrow> logf (LogInitialTraversal attached e) m)"

definition drop_fork :: "('c, 'e) daemon \<Rightarrow> ('c, 'e) daemon" where
  "drop_fork d = (snd (on_calls (close_handle (dm_forkLink d)) d))\<lparr>dm_forkLink := None\<rparr>"

definition drop_exit :: "('c, 'e) daemon \<Rightarrow> ('c, 'e) daemon" where
  "drop_exit d = (snd (on_calls (close_handle (dm_exitLink d)) d))\<lparr>dm_exitLink := None\<rparr>"

definition drop_exec :: "('c, 'e) daemon \<Rightarrow> ('c, 'e) daemon" where
  "drop_exec d = (snd (on_calls (close_handle (dm_execLink d)) d))\<lparr>dm_execLink := None\<rparr>"

definition Run :: "('c, 'e) daemon \<Rightarrow> 'e daemon_error option \<times> ('c, 'e) daemon" where
  "Run d =
     (if dm_rd d \<noteq> None then (None, d)
      else
        (let d = d\<lparr>dm_marker := run_traversal False (dm_marker d)\<rparr>;
             (res, d) = on_calls (acquire (AttachTracing ForkProgram)) d
         in case res of Inl e \<Rightarrow> (Some (ErrAttachFork e), d)
          | Inr forkLink \<Rightarrow>
        (let d = d\<lparr>dm_forkLink := Some forkLink\<rparr>;
             (res, d) = on_calls (acquire (AttachTracing ExitProgram)) d
         in case res of Inl e \<Rightarrow> (Some (ErrAttachExit e), drop_fork d)
          | Inr exitLink \<Rightarrow>
        (let d = d\<lparr>dm_exitLink := Some exitLink\<rparr>;
             (res, d) = on_calls (acquire (AttachTracing ExecProgram)) d
         in case res of Inl e \<Rightarrow> (Some (ErrAttachExec e), drop_fork (drop_exit d))
          | Inr execLink \<Rightarrow>
        (let d = d\<lparr>dm_execLink := Some execLink, dm_marker := run_traversal True (dm_marker d)\<rparr>;
             (res, d) = on_calls (acquire NewReader) d
         in case res of Inl e \<Rightarrow> (Some (ErrOpenRing e), drop_fork (drop_exit (drop_exec d)))
          | Inr rd \<Rightarrow> (None, d\<lparr>dm_rd := Some rd, dm_looping := True\<rparr>))))))"

section \<open>Stopping\<close>

definition Close :: "('c, 'e) daemon \<Rightarrow> 'e os_error list \<times> ('c, 'e) daemon" where
  "Close d =
     (if dm_closeOnce d then ([], d)
      else
        (let d = d\<lparr>dm_closeOnce := True\<rparr>;
             (rd_err, d) = on_calls (close_handle (dm_rd d)) d;
             (exit_err, d) = on_calls (close_handle (dm_exitLink d)) d;
             (exec_err, d) = on_calls (close_handle (dm_execLink d)) d;
             (fork_err, d) = on_calls (close_handle (dm_forkLink d)) d;
             (objs_err, d) = on_calls (issue CloseObjects) d;
             (pin_err, d) =
               (if dm_pinPath d \<noteq> '''' then on_calls (removePinnedMaps (dm_pinPath d) pinnedMapNames) d
                else ([], d))
         in (rd_err @ exit_err @ exec_err @ fork_err @
             (case objs_err of None \<Rightarrow> [] | Some e \<Rightarrow> [e]) @ pin_err, d)))"

text \<open>
  The goroutine: it reads, and when it finds its reader closed it returns, with the daemon closed
  and the word of it in the channel. Nothing else that it reads makes it return.
\<close>

definition loop_end :: "('c, 'e) daemon \<Rightarrow> ('c, 'e) daemon" where
  "loop_end d =
     (let (err, d) = Close d
      in d\<lparr>dm_looping := False, dm_done := dm_done d @ [err], dm_doneClosed := True\<rparr>)"

definition loop :: "ring_read list \<Rightarrow> ('c, 'e) daemon \<Rightarrow> ('c, 'e) daemon" where
  "loop reads d =
     (if \<not> dm_looping d then d
      else
        (let (returned, m) = runEvents (dm_tombCollectionEvents d) reads (dm_marker d);
             d = d\<lparr>dm_marker := m\<rparr>
         in if returned then loop_end d else d))"

text \<open>A receive from \<^verbatim>\<open>done\<close>, if it does not block.\<close>

definition receive :: "('c, 'e) daemon \<Rightarrow> ('e os_error list \<times> ('c, 'e) daemon) option" where
  "receive d =
     (case dm_done d of
        err # errs \<Rightarrow> Some (err, d\<lparr>dm_done := errs\<rparr>)
      | [] \<Rightarrow> if dm_doneClosed d then Some ([], d) else None)"

text \<open>
  \<^verbatim>\<open>Stop\<close>. While it waits, the goroutine, if it runs, reads what is left (\<open>reads\<close>) until it finds
  the reader closed. \<open>None\<close> is a wait that never ends.
\<close>

definition Stop :: "ring_read list \<Rightarrow> ('c, 'e) daemon \<Rightarrow> ('e os_error list \<times> ('c, 'e) daemon) option" where
  "Stop reads d =
     (if dm_stopOnce d then Some ([], d)
      else
        (let d = d\<lparr>dm_stopOnce := True\<rparr>;
             (err, d) = on_calls (close_handle (dm_rd d)) d;
             d = loop (reads @ [RingClosed]) d
         in case receive d of
              None \<Rightarrow> None
            | Some (doneErr, d) \<Rightarrow>
                Some (if err = [] then doneErr else err, d\<lparr>dm_marker := stop_replay (dm_marker d)\<rparr>)))"

section \<open>What a trace opens and closes\<close>

definition opens :: "resource_call \<Rightarrow> bool" where
  "opens call \<longleftrightarrow> (case call of AttachTracing _ \<Rightarrow> True | AttachCgroup _ _ \<Rightarrow> True | NewReader \<Rightarrow> True | _ \<Rightarrow> False)"

lemma opens_simps [simp]:
  "opens (AttachTracing p)" "opens NewReader" "opens (AttachCgroup path name)" "\<not> opens (CloseHandle h)"
  "\<not> opens CloseObjects" "\<not> opens (Remove dir name)" "\<not> opens (MkdirAll dir)" "\<not> opens RemoveMemlock"
  "\<not> opens (LoadObjects dir)"
  by (simp_all add: opens_def)

fun opened_from :: "(nat \<Rightarrow> 'a option) \<Rightarrow> nat \<Rightarrow> resource_call list \<Rightarrow> nat set" where
  "opened_from ans n [] = {}"
| "opened_from ans n (call # log) =
     (if opens call \<and> ans n = None then {n} else {}) \<union> opened_from ans (Suc n) log"

fun closes_of :: "resource_call list \<Rightarrow> nat list" where
  "closes_of [] = []"
| "closes_of (call # log) = (case call of CloseHandle h \<Rightarrow> [h] | _ \<Rightarrow> []) @ closes_of log"

lemma opened_from_append [simp]:
  "opened_from ans n (log @ log') = opened_from ans n log \<union> opened_from ans (n + length log) log'"
  by (induction log arbitrary: n) auto

lemma closes_of_append [simp]: "closes_of (log @ log') = closes_of log @ closes_of log'"
  by (induction log) (auto split: resource_call.split)

lemma opened_from_bound: "h \<in> opened_from ans n log \<Longrightarrow> n \<le> h \<and> h < n + length log"
  by (induction ans n log rule: opened_from.induct) (auto split: if_splits)

abbreviation opened :: "'e calls \<Rightarrow> nat set" where
  "opened s \<equiv> opened_from (ca_answer s) 0 (ca_log s)"

abbreviation closes :: "'e calls \<Rightarrow> nat list" where
  "closes s \<equiv> closes_of (ca_log s)"

text \<open>Something is opened after the objects were closed.\<close>

definition late_opening :: "resource_call list \<Rightarrow> bool" where
  "late_opening log \<longleftrightarrow> list_ex opens (dropWhile (\<lambda>call. call \<noteq> CloseObjects) log)"

lemma late_opening_append:
  "late_opening (log @ log') \<longleftrightarrow>
     (if CloseObjects \<in> set log then late_opening log \<or> list_ex opens log' else late_opening log')"
  by (induction log) (auto simp: late_opening_def)

lemma late_opening_harmless: "\<not> list_ex opens log' \<Longrightarrow> late_opening (log @ log') = late_opening log"
  by (induction log) (auto simp: late_opening_def list_ex_iff dest: set_dropWhileD)

lemma late_opening_none: "CloseObjects \<notin> set log \<Longrightarrow> \<not> late_opening log"
  by (induction log) (auto simp: late_opening_def)

definition objects_closed :: "'e calls \<Rightarrow> nat" where
  "objects_closed s = length (filter (\<lambda>call. call = CloseObjects) (ca_log s))"

lemma issue_simps [simp]:
  "fst (issue call s) = ca_answer s (length (ca_log s))"
  "ca_log (snd (issue call s)) = ca_log s @ [call]" "ca_answer (snd (issue call s)) = ca_answer s"
  by (simp_all add: issue_def)

definition handle_list :: "nat option \<Rightarrow> nat list" where
  "handle_list handle = (case handle of None \<Rightarrow> [] | Some h \<Rightarrow> [h])"

lemma handle_list_simps [simp]:
  "handle_list None = []" "handle_list (Some h) = [h]" "set (handle_list handle) = set_option handle"
  by (simp_all add: handle_list_def) (cases handle; simp)

lemma close_handle_simps [simp]:
  "ca_log (snd (close_handle handle s)) = ca_log s @ map CloseHandle (handle_list handle)"
  "ca_answer (snd (close_handle handle s)) = ca_answer s"
  by (simp_all add: close_handle_def split_beta Let_def split: option.split)

lemma closing_calls [simp]:
  "opened_from ans n (map CloseHandle hs) = {}" "closes_of (map CloseHandle hs) = hs"
  "filter (\<lambda>call. call = CloseObjects) (map CloseHandle hs) = []"
  by (induction hs arbitrary: n) auto

text \<open>Removing the pins opens and closes nothing, and removes a prefix of the names.\<close>

lemma removePinnedMaps_calls:
  "\<exists>k. snd (removePinnedMaps dir names s) = s\<lparr>ca_log := ca_log s @ map (Remove dir) (take k names)\<rparr> \<and>
     (fst (removePinnedMaps dir names s) = [] \<longrightarrow> length names \<le> k)"
proof (induction names arbitrary: s)
  case (Cons name names)
  obtain k where k: "snd (removePinnedMaps dir names (snd (issue (Remove dir name) s))) =
      s\<lparr>ca_log := ca_log s @ map (Remove dir) (take (Suc k) (name # names))\<rparr>"
    "fst (removePinnedMaps dir names (snd (issue (Remove dir name) s))) = [] \<Longrightarrow> length names \<le> k"
    using Cons.IH [of "snd (issue (Remove dir name) s)"] by (auto simp: issue_def)
  show ?case
  proof (cases "ca_answer s (length (ca_log s))")
    case None
    then show ?thesis using k by (intro exI [of _ "Suc k"]) (simp add: split_beta Let_def)
  next
    case (Some e)
    then show ?thesis
    proof (cases e)
      case NotExist
      with Some show ?thesis using k by (intro exI [of _ "Suc k"]) (simp add: split_beta Let_def)
    next
      case (OSError x)
      with Some show ?thesis by (intro exI [of _ 1]) (simp add: split_beta Let_def issue_def)
    qed
  qed
qed simp

lemma removing_calls [simp]:
  "opened_from ans n (map (Remove dir) names) = {}" "closes_of (map (Remove dir) names) = []"
  "filter (\<lambda>call. call = CloseObjects) (map (Remove dir) names) = []"
  by (induction names arbitrary: n) auto

lemma harmless_calls [simp]:
  "\<not> list_ex opens (map CloseHandle hs)" "\<not> list_ex opens (map (Remove dir) names)"
  by (simp_all add: list_ex_iff)

section \<open>What the operations do to the trace\<close>

definition with_log :: "resource_call list \<Rightarrow> ('c, 'e) daemon \<Rightarrow> ('c, 'e) daemon" where
  "with_log log d = d\<lparr>dm_calls := (dm_calls d)\<lparr>ca_log := ca_log (dm_calls d) @ log\<rparr>\<rparr>"

lemma with_log_fields [simp]:
  "ca_log (dm_calls (with_log log d)) = ca_log (dm_calls d) @ log"
  "ca_answer (dm_calls (with_log log d)) = ca_answer (dm_calls d)"
  "dm_rd (with_log log d) = dm_rd d" "dm_forkLink (with_log log d) = dm_forkLink d"
  "dm_exitLink (with_log log d) = dm_exitLink d" "dm_execLink (with_log log d) = dm_execLink d"
  "dm_looping (with_log log d) = dm_looping d" "dm_done (with_log log d) = dm_done d"
  "dm_doneClosed (with_log log d) = dm_doneClosed d" "dm_stopOnce (with_log log d) = dm_stopOnce d"
  "dm_closeOnce (with_log log d) = dm_closeOnce d" "dm_pinPath (with_log log d) = dm_pinPath d"
  "dm_marker (with_log log d) = dm_marker d"
  by (simp_all add: with_log_def)

lemma with_log_append: "with_log log' (with_log log d) = with_log (log @ log') d"
  by (simp add: with_log_def)

lemma close_handle_log: "snd (close_handle handle s) = s\<lparr>ca_log := ca_log s @ map CloseHandle (handle_list handle)\<rparr>"
  by (simp add: close_handle_def issue_def split_beta Let_def split: option.split)

lemma on_close: "snd (on_calls (close_handle handle) d) = with_log (map CloseHandle (handle_list handle)) d"
  by (simp add: on_calls_def with_log_def close_handle_log split_beta Let_def)

lemma on_issue: "snd (on_calls (issue call) d) = with_log [call] d"
  by (simp add: on_calls_def with_log_def issue_def)

lemma on_acquire: "on_calls (acquire call) d =
   (case ca_answer (dm_calls d) (length (ca_log (dm_calls d))) of
      None \<Rightarrow> Inr (length (ca_log (dm_calls d))) | Some e \<Rightarrow> Inl e, with_log [call] d)"
  by (simp add: on_calls_def acquire_def issue_def with_log_def split: option.split)

definition links :: "('c, 'e) daemon \<Rightarrow> nat list" where
  "links d = handle_list (dm_exitLink d) @ handle_list (dm_execLink d) @ handle_list (dm_forkLink d)"

lemma links_with_log [simp]: "links (with_log log d) = links d"
  by (simp add: links_def)

lemma Close_log:
  assumes "\<not> dm_closeOnce d"
  shows "\<exists>names. snd (Close d) = (with_log (map CloseHandle (handle_list (dm_rd d) @ links d) @ CloseObjects #
    map (Remove (dm_pinPath d)) names) d)\<lparr>dm_closeOnce := True\<rparr>"
proof -
  define d1 where "d1 = with_log (map CloseHandle (handle_list (dm_rd d) @ links d) @ [CloseObjects]) (d\<lparr>dm_closeOnce := True\<rparr>)"
  have eq: "snd (Close d) = (if dm_pinPath d \<noteq> '''' then snd (on_calls (removePinnedMaps (dm_pinPath d) pinnedMapNames) d1) else d1)"
    using assms
    by (simp add: Close_def split_beta Let_def on_close on_issue with_log_append d1_def links_def)
  obtain k where "snd (removePinnedMaps (dm_pinPath d) pinnedMapNames (dm_calls d1)) =
      (dm_calls d1)\<lparr>ca_log := ca_log (dm_calls d1) @ map (Remove (dm_pinPath d)) (take k pinnedMapNames)\<rparr>"
    using removePinnedMaps_calls by blast
  then have "snd (on_calls (removePinnedMaps (dm_pinPath d) pinnedMapNames) d1) =
      with_log (map (Remove (dm_pinPath d)) (take k pinnedMapNames)) d1"
    by (simp add: on_calls_def with_log_def split_beta Let_def)
  then have "snd (Close d) =
      with_log (map (Remove (dm_pinPath d)) (if dm_pinPath d \<noteq> '''' then take k pinnedMapNames else [])) d1"
    using eq by (simp add: with_log_def)
  then show ?thesis
    by (intro exI [of _ "if dm_pinPath d \<noteq> '''' then take k pinnedMapNames else []"])
      (simp add: d1_def with_log_def)
qed

lemma Close_again: "dm_closeOnce d \<Longrightarrow> Close d = ([], d)"
  by (simp add: Close_def)

text \<open>The four attempts of \<open>Run\<close>: each failure gives back what the earlier ones acquired, in reverse order.\<close>

lemma Run_log:
  assumes "dm_rd d = None" "links d = []"
  defines "n \<equiv> length (ca_log (dm_calls d))"
    and "d1 \<equiv> d\<lparr>dm_marker := run_traversal False (dm_marker d)\<rparr>"
    and "d2 \<equiv> d\<lparr>dm_marker := run_traversal True (run_traversal False (dm_marker d))\<rparr>"
    and "F \<equiv> AttachTracing ForkProgram" and "X \<equiv> AttachTracing ExitProgram" and "E \<equiv> AttachTracing ExecProgram"
  shows "Run d =
    (case ca_answer (dm_calls d) n of
       Some e \<Rightarrow> (Some (ErrAttachFork e), with_log [F] d1)
     | None \<Rightarrow> case ca_answer (dm_calls d) (Suc n) of
       Some e \<Rightarrow> (Some (ErrAttachExit e), with_log [F, X, CloseHandle n] d1)
     | None \<Rightarrow> case ca_answer (dm_calls d) (Suc (Suc n)) of
       Some e \<Rightarrow> (Some (ErrAttachExec e), with_log [F, X, E, CloseHandle (Suc n), CloseHandle n] d1)
     | None \<Rightarrow> case ca_answer (dm_calls d) (Suc (Suc (Suc n))) of
       Some e \<Rightarrow> (Some (ErrOpenRing e),
         with_log [F, X, E, NewReader, CloseHandle (Suc (Suc n)), CloseHandle (Suc n), CloseHandle n] d2)
     | None \<Rightarrow> (None, (with_log [F, X, E, NewReader] d2)
         \<lparr>dm_forkLink := Some n, dm_exitLink := Some (Suc n), dm_execLink := Some (Suc (Suc n)),
          dm_rd := Some (Suc (Suc (Suc n))), dm_looping := True\<rparr>))"
proof -
  have none: "dm_forkLink d = None" "dm_exitLink d = None" "dm_execLink d = None"
    using assms(2) by (auto simp: links_def handle_list_def split: option.splits)
  show ?thesis
    using assms(1) none
    by (cases "ca_answer (dm_calls d) n"; cases "ca_answer (dm_calls d) (Suc n)";
        cases "ca_answer (dm_calls d) (Suc (Suc n))"; cases "ca_answer (dm_calls d) (Suc (Suc (Suc n)))")
      (simp_all add: Run_def on_acquire drop_fork_def drop_exit_def drop_exec_def on_close Let_def
        n_def d1_def d2_def F_def X_def E_def with_log_def)
qed

section \<open>Nothing is lost, nothing is closed twice\<close>

definition life_inv :: "('c, 'e) daemon \<Rightarrow> bool" where
  "life_inv d \<longleftrightarrow>
     opened (dm_calls d) \<subseteq> set (closes (dm_calls d)) \<union> set (links d) \<union> set_option (dm_rd d) \<and>
     set (closes (dm_calls d)) \<union> set (links d) \<union> set_option (dm_rd d) \<subseteq> opened (dm_calls d) \<and>
     (dm_closeOnce d \<and> \<not> late_opening (ca_log (dm_calls d)) \<longrightarrow> opened (dm_calls d) \<subseteq> set (closes (dm_calls d))) \<and>
     objects_closed (dm_calls d) = (if dm_closeOnce d then 1 else 0) \<and>
     distinct (filter (\<lambda>h. Some h \<noteq> dm_rd d) (closes (dm_calls d))) \<and>
     (\<not> dm_closeOnce d \<longrightarrow> set (links d) \<inter> set (closes (dm_calls d)) = {}) \<and>
     distinct (links d) \<and> set_option (dm_rd d) \<inter> set (links d) = {} \<and>
     (dm_rd d = None \<longrightarrow> links d = [] \<and> \<not> dm_looping d \<and> dm_done d = [] \<and> \<not> dm_doneClosed d) \<and>
     (dm_rd d \<noteq> None \<longrightarrow> dm_looping d \<or> dm_doneClosed d)"

lemma no_objects: "objects_closed s = 0 \<longleftrightarrow> CloseObjects \<notin> set (ca_log s)"
  by (auto simp: objects_closed_def filter_empty_conv)

lemma life_inv_late:
  "life_inv d \<Longrightarrow> late_opening (ca_log (dm_calls d) @ log) \<longleftrightarrow>
     (if dm_closeOnce d then late_opening (ca_log (dm_calls d)) \<or> list_ex opens log else late_opening log)"
  using no_objects [of "dm_calls d"] by (auto simp: life_inv_def late_opening_append split: if_splits)

lemma life_inv_same:
  assumes "life_inv d" "dm_calls d' = dm_calls d" "dm_rd d' = dm_rd d" "links d' = links d"
    and "dm_closeOnce d' = dm_closeOnce d"
    and "dm_rd d \<noteq> None \<Longrightarrow> dm_looping d' \<or> dm_doneClosed d'"
    and "dm_rd d = None \<Longrightarrow> \<not> dm_looping d' \<and> dm_done d' = [] \<and> \<not> dm_doneClosed d'"
  shows "life_inv d'"
  using assms by (simp add: life_inv_def)

lemma opened_bound: "h \<in> opened s \<Longrightarrow> h < length (ca_log s)"
  by (auto dest: opened_from_bound)

lemma life_inv_rd:
  assumes "life_inv d"
  shows "life_inv (with_log (map CloseHandle (handle_list (dm_rd d))) d)"
  using assms life_inv_late [OF assms, of "map CloseHandle (handle_list (dm_rd d))"]
  by (cases "dm_rd d") (auto simp: life_inv_def objects_closed_def)

lemma life_inv_Close:
  assumes inv: "life_inv d"
  shows "life_inv (snd (Close d))"
proof (cases "dm_closeOnce d")
  case True
  then show ?thesis using inv by (simp add: Close_again)
next
  case False
  then obtain names where "snd (Close d) = (with_log (map CloseHandle (handle_list (dm_rd d) @ links d) @ CloseObjects #
    map (Remove (dm_pinPath d)) names) d)\<lparr>dm_closeOnce := True\<rparr>" using Close_log by blast
  moreover have "filter (\<lambda>h. Some h \<noteq> dm_rd d) (handle_list (dm_rd d)) = []" by (cases "dm_rd d") simp_all
  moreover have "distinct (filter (\<lambda>h. Some h \<noteq> dm_rd d) (links d))" using inv by (simp add: life_inv_def)
  ultimately show ?thesis
    using inv False by (auto simp: life_inv_def objects_closed_def links_def)
qed

text \<open>A run that ends up with nothing but what it opened itself, all given back, or all held.\<close>

lemma gave_back:
  assumes inv: "life_inv d" "dm_rd d = None"
    and hs: "opened_from (ca_answer (dm_calls d)) (length (ca_log (dm_calls d))) log = set hs"
      "closes_of log = hs" "distinct hs" "CloseObjects \<notin> set log"
  shows "life_inv (with_log log (d\<lparr>dm_marker := m\<rparr>))"
proof -
  have "set hs \<inter> opened (dm_calls d) = {}"
    using opened_from_bound [of _ "ca_answer (dm_calls d)" "length (ca_log (dm_calls d))" log] hs(1) opened_bound
    by fastforce
  moreover have "filter (\<lambda>call. call = CloseObjects) log = []" using hs(4) by (auto simp: filter_empty_conv)
  ultimately show ?thesis
    using inv hs by (auto simp: life_inv_def objects_closed_def links_def)
qed

lemma held_on:
  assumes inv: "life_inv d" "dm_rd d = None"
    and hs: "opened_from (ca_answer (dm_calls d)) (length (ca_log (dm_calls d))) log = insert r (set (links d'))"
      "closes_of log = []" "distinct (r # links d')" "CloseObjects \<notin> set log" "list_ex opens log"
    and d': "dm_calls d' = dm_calls (with_log log d)" "dm_rd d' = Some r" "dm_looping d'"
      "dm_closeOnce d' = dm_closeOnce d"
  shows "life_inv d'"
proof -
  have "insert r (set (links d')) \<inter> opened (dm_calls d) = {}"
    using opened_from_bound [of _ "ca_answer (dm_calls d)" "length (ca_log (dm_calls d))" log] hs(1) opened_bound
    by fastforce
  moreover have "filter (\<lambda>call. call = CloseObjects) log = []" using hs(4) by (auto simp: filter_empty_conv)
  moreover have "opened (dm_calls d) = set (closes (dm_calls d))" "distinct (closes (dm_calls d))" "links d = []"
    using inv by (auto simp: life_inv_def)
  ultimately show ?thesis
    using inv hs d' life_inv_late [OF inv(1), of log] by (auto simp: life_inv_def objects_closed_def)
qed

lemma life_inv_Run:
  assumes inv: "life_inv d"
  shows "life_inv (snd (Run d))"
proof (cases "dm_rd d")
  case None
  let ?n = "length (ca_log (dm_calls d))"
  have ld: "links d = []" using inv None by (simp add: life_inv_def)
  note given = gave_back [OF inv None] and run = Run_log [OF None ld]
  show ?thesis
  proof (cases "ca_answer (dm_calls d) ?n")
    case (Some e)
    then show ?thesis by (simp add: run given [of _ "[]"])
  next
    case n0: None
    show ?thesis
    proof (cases "ca_answer (dm_calls d) (Suc ?n)")
      case (Some e)
      then show ?thesis using n0 by (simp add: run given [of _ "[?n]"])
    next
      case n1: None
      show ?thesis
      proof (cases "ca_answer (dm_calls d) (Suc (Suc ?n))")
        case (Some e)
        then show ?thesis using n0 n1 by (simp add: run) (rule given [of _ "[Suc ?n, ?n]"]; auto)
      next
        case n2: None
        show ?thesis
        proof (cases "ca_answer (dm_calls d) (Suc (Suc (Suc ?n)))")
          case (Some e)
          then show ?thesis
            using n0 n1 n2 by (simp add: run) (rule given [of _ "[Suc (Suc ?n), Suc ?n, ?n]"]; auto)
        next
          case n3: None
          show ?thesis
            using n0 n1 n2 n3
            by (simp add: run)
              (rule held_on [OF inv None, where r = "Suc (Suc (Suc ?n))" and
                log = "[AttachTracing ForkProgram, AttachTracing ExitProgram, AttachTracing ExecProgram, NewReader]"];
               auto simp: links_def with_log_def)
        qed
      qed
    qed
  qed
qed (simp add: Run_def inv)

section \<open>The life of a daemon\<close>

text \<open>
  Any call at any time. The goroutine reads as long as it runs, and a read says that the reader is
  closed only when it is.
\<close>

inductive life_step :: "('c, 'e) daemon \<Rightarrow> ('c, 'e) daemon \<Rightarrow> bool" where
  life_run: "life_step d (snd (Run d))"
| life_loop: "(RingClosed \<in> set reads \<Longrightarrow> \<exists>h. dm_rd d = Some h \<and> CloseHandle h \<in> set (ca_log (dm_calls d))) \<Longrightarrow>
    life_step d (loop reads d)"
| life_stop: "Stop reads d = Some (err, d') \<Longrightarrow> life_step d d'"
| life_close: "life_step d (snd (Close d))"
| life_done: "receive d = Some (err, d') \<Longrightarrow> life_step d d'"

inductive life_steps :: "('c, 'e) daemon \<Rightarrow> ('c, 'e) daemon \<Rightarrow> bool" where
  lifes_refl: "life_steps d d"
| lifes_step: "life_steps d d' \<Longrightarrow> life_step d' d'' \<Longrightarrow> life_steps d d''"

lemma Close_fields:
  "dm_rd (snd (Close d)) = dm_rd d" "links (snd (Close d)) = links d" "dm_closeOnce (snd (Close d))"
  "dm_stopOnce (snd (Close d)) = dm_stopOnce d" "dm_marker (snd (Close d)) = dm_marker d"
  "dm_looping (snd (Close d)) = dm_looping d" "dm_doneClosed (snd (Close d)) = dm_doneClosed d"
proof -
  have "dm_rd (snd (Close d)) = dm_rd d \<and> links (snd (Close d)) = links d \<and> dm_closeOnce (snd (Close d)) \<and>
    dm_stopOnce (snd (Close d)) = dm_stopOnce d \<and> dm_marker (snd (Close d)) = dm_marker d \<and>
    dm_looping (snd (Close d)) = dm_looping d \<and> dm_doneClosed (snd (Close d)) = dm_doneClosed d"
  proof (cases "dm_closeOnce d")
    case True
    then show ?thesis by (simp add: Close_again)
  next
    case False
    then show ?thesis using Close_log [OF False] by (elim exE) (simp add: links_def)
  qed
  then show "dm_rd (snd (Close d)) = dm_rd d" "links (snd (Close d)) = links d" "dm_closeOnce (snd (Close d))"
    "dm_stopOnce (snd (Close d)) = dm_stopOnce d" "dm_marker (snd (Close d)) = dm_marker d"
    "dm_looping (snd (Close d)) = dm_looping d" "dm_doneClosed (snd (Close d)) = dm_doneClosed d" by simp_all
qed

lemma life_inv_end:
  assumes inv: "life_inv d" and looping: "dm_looping d"
  shows "life_inv (loop_end d)"
proof -
  have "dm_rd d \<noteq> None" using assms by (auto simp: life_inv_def)
  then show ?thesis
    by (intro life_inv_same [OF life_inv_Close [OF inv]])
      (simp_all add: loop_end_def links_def split_beta Let_def Close_fields)
qed

lemma life_inv_marker: "life_inv (d\<lparr>dm_marker := m\<rparr>) = life_inv d"
  by (simp add: life_inv_def links_def)

lemma life_inv_loop: "life_inv d \<Longrightarrow> life_inv (loop reads d)"
  by (simp add: loop_def life_inv_end life_inv_marker split_beta Let_def)

text \<open>The loop reads on unless it is told that its reader is closed.\<close>

lemma loop_reads:
  "dm_looping d \<Longrightarrow> RingClosed \<notin> set reads \<Longrightarrow>
   loop reads d = d\<lparr>dm_marker := snd (runEvents (dm_tombCollectionEvents d) reads (dm_marker d))\<rparr>"
  by (simp add: loop_def runEvents_returns split_beta Let_def)

lemma loop_returns:
  "dm_looping d \<Longrightarrow> RingClosed \<in> set reads \<Longrightarrow>
   loop reads d = loop_end (d\<lparr>dm_marker := snd (runEvents (dm_tombCollectionEvents d) reads (dm_marker d))\<rparr>)"
  by (simp add: loop_def runEvents_returns split_beta Let_def)

lemma loop_fields:
  fixes d :: "('c, 'e) daemon"
  shows "dm_rd (loop reads d) = dm_rd d" "dm_stopOnce (loop reads d) = dm_stopOnce d" "links (loop reads d) = links d"
  "dm_marker (loop reads d) =
     (if dm_looping d then snd (runEvents (dm_tombCollectionEvents d) reads (dm_marker d)) else dm_marker d)"
proof -
  have "links (d\<lparr>dm_looping := b, dm_done := x, dm_doneClosed := c\<rparr>) = links d"
    "links (d\<lparr>dm_marker := m\<rparr>) = links d" for d :: "('c, 'e) daemon" and b x c m
    by (simp_all add: links_def)
  then show "dm_rd (loop reads d) = dm_rd d" "dm_stopOnce (loop reads d) = dm_stopOnce d" "links (loop reads d) = links d"
    "dm_marker (loop reads d) =
       (if dm_looping d then snd (runEvents (dm_tombCollectionEvents d) reads (dm_marker d)) else dm_marker d)"
    by (simp_all add: loop_def loop_end_def Close_fields split_beta Let_def)
qed

lemma receive_fields:
  assumes "receive d = Some (err, d')"
  shows "dm_calls d' = dm_calls d" "dm_rd d' = dm_rd d" "links d' = links d" "dm_closeOnce d' = dm_closeOnce d"
    "dm_looping d' = dm_looping d" "dm_doneClosed d' = dm_doneClosed d" "dm_done d = [] \<Longrightarrow> dm_doneClosed d"
    "dm_stopOnce d' = dm_stopOnce d"
  using assms by (auto simp: receive_def links_def split: list.splits if_splits)

lemma life_inv_receive:
  assumes "life_inv d" "receive d = Some (err, d')"
  shows "life_inv d'"
  using assms(1) receive_fields [OF assms(2)] by (intro life_inv_same [OF assms(1)]) (auto simp: life_inv_def)

text \<open>What \<open>Stop\<close> waits in.\<close>

definition stopping :: "ring_read list \<Rightarrow> ('c, 'e) daemon \<Rightarrow> ('c, 'e) daemon" where
  "stopping reads d =
     (let d = with_log (map CloseHandle (handle_list (dm_rd d))) (d\<lparr>dm_stopOnce := True\<rparr>)
      in loop (reads @ [RingClosed]) d)"

lemma Stop_receive:
  assumes "\<not> dm_stopOnce d"
  shows "Stop reads d = None \<longleftrightarrow> receive (stopping reads d) = None"
    and "Stop reads d = Some (err, d') \<Longrightarrow>
      \<exists>e d1. receive (stopping reads d) = Some (e, d1) \<and> d' = d1\<lparr>dm_marker := stop_replay (dm_marker d1)\<rparr>"
  using assms
  by (auto simp: Stop_def stopping_def on_close split_beta Let_def split: option.splits)

lemma life_inv_stopping:
  assumes inv: "life_inv d"
  shows "life_inv (stopping reads d)"
proof -
  let ?d = "d\<lparr>dm_stopOnce := True\<rparr>"
  have "life_inv ?d" by (rule life_inv_same [OF inv]) (use inv in \<open>auto simp: links_def life_inv_def\<close>)
  from life_inv_rd [OF this]
  have "life_inv (with_log (map CloseHandle (handle_list (dm_rd d))) ?d)" by simp
  then show ?thesis by (simp add: stopping_def life_inv_loop Let_def)
qed

lemma life_inv_Stop:
  assumes inv: "life_inv d" and stop: "Stop reads d = Some (err, d')"
  shows "life_inv d'"
proof (cases "dm_stopOnce d")
  case True
  then show ?thesis using inv stop by (simp add: Stop_def)
next
  case False
  obtain e d1 where d1: "receive (stopping reads d) = Some (e, d1)" "d' = d1\<lparr>dm_marker := stop_replay (dm_marker d1)\<rparr>"
    using Stop_receive(2) [OF False stop] by blast
  have i: "life_inv d1" by (rule life_inv_receive [OF life_inv_stopping [OF inv] d1(1)])
  show ?thesis by (rule life_inv_same [OF i]) (use i in \<open>auto simp: d1(2) links_def life_inv_def\<close>)
qed

lemma life_step_inv: "life_step d d' \<Longrightarrow> life_inv d \<Longrightarrow> life_inv d'"
  by (induction rule: life_step.induct)
    (auto intro: life_inv_Run life_inv_loop life_inv_Stop life_inv_Close life_inv_receive)

lemma life_steps_inv: "life_steps d d' \<Longrightarrow> life_inv d \<Longrightarrow> life_inv d'"
  by (induction rule: life_steps.induct) (auto intro: life_step_inv)

lemma open_daemon_inv:
  assumes "open_daemon pinPath cbs tcev tttl w c s = Inr d" "ca_log s = []"
  shows "life_inv d"
proof -
  obtain k where pins: "snd (removePinnedMaps pinPath pinnedMapNames (snd (issue (MkdirAll pinPath) s))) =
      (snd (issue (MkdirAll pinPath) s))\<lparr>ca_log := ca_log (snd (issue (MkdirAll pinPath) s)) @
        map (Remove pinPath) (take k pinnedMapNames)\<rparr>"
    using removePinnedMaps_calls by blast
  then show ?thesis
    using assms
    by (auto simp: open_daemon_def prepare_def life_inv_def links_def objects_closed_def split_beta Let_def
        split: option.splits list.splits)
qed

section \<open>What follows\<close>

lemma nothing_lost: "life_inv d \<Longrightarrow> opened (dm_calls d) = set (closes (dm_calls d)) \<union> set (links d) \<union> set_option (dm_rd d)"
  by (auto simp: life_inv_def)

lemma all_closed:
  "life_inv d \<Longrightarrow> dm_closeOnce d \<Longrightarrow> \<not> late_opening (ca_log (dm_calls d)) \<Longrightarrow>
   set (closes (dm_calls d)) = opened (dm_calls d)"
  by (auto simp: life_inv_def)

lemma closed_once: "life_inv d \<Longrightarrow> distinct (filter (\<lambda>h. Some h \<noteq> dm_rd d) (closes (dm_calls d)))"
  by (simp add: life_inv_def)

text \<open>A failed \<open>Run\<close> leaves no handle.\<close>

lemma Run_failed:
  assumes inv: "life_inv d" and run: "Run d = (Some e, d')"
  shows "dm_rd d' = None" "links d' = []" "set (closes (dm_calls d')) = opened (dm_calls d')"
proof -
  have none: "dm_rd d = None" using run by (auto simp: Run_def split: if_splits)
  have "links d = []" using inv none by (simp add: life_inv_def)
  then show d': "dm_rd d' = None" "links d' = []"
    using run none by (auto simp: Run_log links_def split: option.splits)
  have "life_inv d'" using life_inv_Run [OF inv] run by simp
  then show "set (closes (dm_calls d')) = opened (dm_calls d')" using d' by (auto simp: life_inv_def)
qed

text \<open>\<open>Stop\<close> returns if there was a goroutine to wait for, and it waits for ever if there was none.\<close>

lemma Stop_returns:
  assumes inv: "life_inv d"
  shows "Stop reads d = None \<longleftrightarrow> dm_rd d = None \<and> \<not> dm_stopOnce d"
proof (cases "dm_stopOnce d")
  case True
  then show ?thesis by (simp add: Stop_def)
next
  case False
  note i = life_inv_stopping [OF inv, of reads]
  have rd: "dm_rd (stopping reads d) = dm_rd d"
    by (simp add: stopping_def loop_fields Let_def)
  have "receive (stopping reads d) = None \<longleftrightarrow> dm_rd d = None"
  proof (cases "dm_rd d")
    case None
    then show ?thesis using i rd by (simp add: life_inv_def receive_def)
  next
    case (Some h)
    have "dm_looping d \<or> dm_doneClosed d" using inv Some by (simp add: life_inv_def)
    then have "dm_doneClosed (stopping reads d)"
      by (cases "dm_looping d")
        (simp_all add: stopping_def loop_returns, simp_all add: loop_def loop_end_def split_beta Let_def)
    then show ?thesis using Some by (simp add: receive_def split: list.split)
  qed
  then show ?thesis using Stop_receive(1) [OF False] False by simp
qed

text \<open>Nothing is opened on the way down.\<close>

abbreviation opened_late :: "('c, 'e) daemon \<Rightarrow> bool" where
  "opened_late d \<equiv> late_opening (ca_log (dm_calls d))"

lemma Close_late: "opened_late (snd (Close d)) = opened_late d"
proof (cases "dm_closeOnce d")
  case False
  obtain names where "snd (Close d) = (with_log (map CloseHandle (handle_list (dm_rd d) @ links d) @ CloseObjects #
      map (Remove (dm_pinPath d)) names) d)\<lparr>dm_closeOnce := True\<rparr>" using Close_log [OF False] by blast
  then show ?thesis by (simp add: late_opening_harmless del: map_append)
qed (simp add: Close_again)

lemma loop_late: "opened_late (loop reads d) = opened_late d"
  by (simp add: loop_def loop_end_def Close_late split_beta Let_def)

text \<open>After \<open>Stop\<close> a daemon that ran is closed, and with it all it opened before.\<close>

lemma loop_closed: "dm_closeOnce (loop reads d) \<longleftrightarrow> dm_closeOnce d \<or> dm_looping d \<and> RingClosed \<in> set reads"
  by (auto simp: loop_def loop_end_def Close_fields runEvents_returns split_beta Let_def)

lemma Stop_closes:
  assumes inv: "life_inv d" and stop: "Stop reads d = Some (err, d')" "\<not> dm_stopOnce d"
    and ran: "dm_looping d \<or> dm_closeOnce d" and late: "\<not> opened_late d"
  shows "dm_closeOnce d'" "set (closes (dm_calls d')) = opened (dm_calls d')"
proof -
  obtain e d1 where d1: "receive (stopping reads d) = Some (e, d1)" "d' = d1\<lparr>dm_marker := stop_replay (dm_marker d1)\<rparr>"
    using Stop_receive(2) [OF stop(2,1)] by blast
  note f = receive_fields [OF d1(1)]
  show c: "dm_closeOnce d'" using f ran by (auto simp: d1(2) stopping_def loop_closed Let_def)
  have "\<not> opened_late d'" using f late by (simp add: d1(2) stopping_def loop_late late_opening_harmless Let_def)
  then show "set (closes (dm_calls d')) = opened (dm_calls d')"
    by (rule all_closed [OF life_inv_Stop [OF inv stop(1)] c])
qed

text \<open>
  A \<open>Run\<close> that succeeds on a daemon closed before leaves its links open for ever: the one closing
  there is has been used up.
\<close>

definition leaking :: "nat list \<Rightarrow> ('c, 'e) daemon \<Rightarrow> bool" where
  "leaking hs d \<longleftrightarrow>
     dm_closeOnce d \<and> links d = hs \<and> (\<exists>r. dm_rd d = Some r \<and> r \<notin> set hs) \<and> set hs \<inter> set (closes (dm_calls d)) = {}"

lemma leaking_Close: "leaking hs d \<Longrightarrow> leaking hs (snd (Close d))"
  by (simp add: Close_again leaking_def)

lemma leaking_loop: "leaking hs d \<Longrightarrow> leaking hs (loop reads d)"
  using leaking_Close [of hs "d\<lparr>dm_marker := snd (runEvents (dm_tombCollectionEvents d) reads (dm_marker d))\<rparr>"]
  by (simp add: loop_def loop_end_def leaking_def links_def split_beta Let_def)

lemma leaking_stopping: "leaking hs d \<Longrightarrow> leaking hs (stopping reads d)"
  unfolding stopping_def Let_def by (rule leaking_loop) (auto simp: leaking_def links_def)

lemma leaking_receive: "leaking hs d \<Longrightarrow> receive d = Some (err, d') \<Longrightarrow> leaking hs d'"
  by (simp add: leaking_def receive_fields)

lemma leaking_Stop:
  assumes "leaking hs d" "Stop reads d = Some (err, d')"
  shows "leaking hs d'"
proof (cases "dm_stopOnce d")
  case False
  obtain e d1 where d1: "receive (stopping reads d) = Some (e, d1)" "d' = d1\<lparr>dm_marker := stop_replay (dm_marker d1)\<rparr>"
    using Stop_receive(2) [OF False assms(2)] by blast
  have "leaking hs d1" by (rule leaking_receive [OF leaking_stopping [OF assms(1)] d1(1)])
  then show ?thesis by (simp add: d1(2) leaking_def links_def)
qed (use assms in \<open>simp add: Stop_def\<close>)

lemma leaking_step: "life_step d d' \<Longrightarrow> leaking hs d \<Longrightarrow> leaking hs d'"
proof (induction rule: life_step.induct)
  case (life_run d)
  then have "Run d = (None, d)" by (auto simp: Run_def leaking_def)
  with life_run show ?case by simp
qed (blast intro: leaking_loop leaking_Stop leaking_Close leaking_receive)+

lemma leaking_steps: "life_steps d d' \<Longrightarrow> leaking hs d \<Longrightarrow> leaking hs d'"
  by (induction rule: life_steps.induct) (auto intro: leaking_step)

lemma late_run_leaks:
  assumes inv: "life_inv d" and closed: "dm_closeOnce d" "dm_rd d = None" and run: "Run d = (None, d1)"
  shows "leaking (links d1) d1" "length (links d1) = 3"
proof -
  have none: "links d = []" using inv closed(2) by (simp add: life_inv_def)
  have "h < length (ca_log (dm_calls d))" if "h \<in> set (closes (dm_calls d))" for h
    using inv that opened_bound [of h "dm_calls d"] by (auto simp: life_inv_def)
  then have fresh: "length (ca_log (dm_calls d)) + i \<notin> set (closes (dm_calls d))" for i by fastforce
  then show "leaking (links d1) d1" "length (links d1) = 3"
    using run closed Run_log [OF closed(2) none] fresh [of 0] fresh [of 1] fresh [of 2]
    by (auto simp: leaking_def links_def split: option.splits)
qed

end
