(* ===== verification/Server.thy ===== *)
theory Server
  imports Control Lifecycle "HOL-Library.Multiset"
begin

text \<open>
  The daemon and the HTTP control server together (\<^verbatim>\<open>main\<close>, \<^verbatim>\<open>combinedCheck\<close> and
  \<^verbatim>\<open>startDaemonControlServer\<close> of \<^verbatim>\<open>cmd/main.go\<close>): the closures the daemon is given, the start,
  and one operation for each handler. The invariant ties the three states together: the
  configuration the server shows, the policy the daemon runs and the rules the tracker keeps.
\<close>

section \<open>State\<close>

record closure_env =
  ce_rules :: multi_rule_manager
  ce_log :: "log_line list"

record control =
  ct_config :: daemon_control_config
  ct_daemon :: "closure_env marker"

text \<open>The state of the manager, as the handlers use it.\<close>

definition manager :: "control \<Rightarrow> multi_rule_manager" where
  "manager s = ce_rules (env (ct_daemon s))"

definition set_manager :: "multi_rule_manager \<Rightarrow> control \<Rightarrow> control" where
  "set_manager mgr s =
     s\<lparr>ct_daemon := (ct_daemon s)\<lparr>env := (env (ct_daemon s))\<lparr>ce_rules := mgr\<rparr>\<rparr>\<rparr>"

section \<open>Closures\<close>

text \<open>The first argument tells whether there is a rule tracker.\<close>

definition combinedCheck ::
    "bool \<Rightarrow> (process_info \<Rightarrow> i8 \<times> u64 \<times> bool) option \<Rightarrow> closure_env check_func" where
  "combinedCheck withTracker markCheck =
     (let markCheck = (case markCheck of None \<Rightarrow> (\<lambda>info. (0, 0, False)) | Some f \<Rightarrow> f)
      in (\<lambda>info c.
            (markCheck info,
             if withTracker
             then c\<lparr>ce_rules := (ce_rules c)\<lparr>mm_tracker := ApplyProcess info (mm_tracker (ce_rules c))\<rparr>\<rparr>
             else c)))"

definition log_to :: "log_line \<Rightarrow> closure_env \<Rightarrow> closure_env" where
  "log_to line c = c\<lparr>ce_log := ce_log c @ [line]\<rparr>"

definition processEvent :: "process_event \<Rightarrow> closure_env \<Rightarrow> closure_env" where
  "processEvent event c =
     log_to (logProcessEvent event) (c\<lparr>ce_rules := manager_ApplyProcessEvent event (ce_rules c)\<rparr>)"

definition main_callbacks :: "closure_env check_func \<Rightarrow> closure_env callbacks" where
  "main_callbacks chk =
     \<lparr>cb_Check = Some chk, cb_ProcessEvent = Some processEvent,
      cb_ProcessUpdate = Some (\<lambda>update. log_to (logProcessUpdate update)),
      cb_Logf = Some (\<lambda>entry. log_to (DaemonLine entry))\<rparr>"

section \<open>Start\<close>

record main_flags =
  fl_pinPath :: string
  fl_rules :: default_check_rules
  fl_priority :: i8
  fl_markValue :: u64
  fl_multiRules :: "string list"
  fl_httpAddr :: string
  fl_fwmark :: bool

datatype 'e main_error =
    FatalPolicy "'e rules_error"
  | FatalParseMultiRule string
  | FatalRegister string "'e rules_error"
  | FatalInstall go_error

fun register_cli ::
    "(string \<Rightarrow> 'e + regexp) \<Rightarrow> (nat \<Rightarrow> nat \<Rightarrow> bool) \<Rightarrow> string list \<Rightarrow> multi_rule_manager \<Rightarrow>
     ('e main_error + multi_rule_manager) option" where
  "register_cli parse same [] mgr = Some (Inr mgr)"
| "register_cli parse same (spec # specs) mgr =
     (case parseMultiRuleCLI spec of
        None \<Rightarrow> Some (Inl (FatalParseMultiRule spec))
      | Some rules \<Rightarrow>
          (case Register parse same rules mgr of
             None \<Rightarrow> None
           | Some (Inl err, _) \<Rightarrow> Some (Inl (FatalRegister spec err))
           | Some (Inr _, mgr) \<Rightarrow> register_cli parse same specs mgr))"

definition main_config :: "main_flags \<Rightarrow> daemon_control_config" where
  "main_config flags =
     \<lparr>cc_PinPath = fl_pinPath flags, cc_HTTPAddr = fl_httpAddr flags, cc_FWMarkEnabled = fl_fwmark flags,
      cc_Rules = fl_rules flags, cc_MarkPriority = fl_priority flags, cc_MarkValue = fl_markValue flags\<rparr>"

text \<open>The daemon is created with the checker and given the policy; \<^verbatim>\<open>Run\<close> traverses twice.\<close>

definition install_policy ::
    "compiled_policy \<Rightarrow> multi_rule_manager \<Rightarrow> world \<Rightarrow> go_error option \<times> closure_env marker" where
  "install_policy compiled mgr w =
     (let chk = combinedCheck True (Some (cp_Check compiled));
          m = snd (NewDaemon (main_callbacks chk) 0 0 w \<lparr>ce_rules = mgr, ce_log = []\<rparr>);
          ((_, err), m) = setKernelPolicy (cp_Policy compiled) (Some chk) m
      in (err, m))"

definition main_start ::
    "(string \<Rightarrow> 'e + regexp) \<Rightarrow> (nat \<Rightarrow> nat \<Rightarrow> bool) \<Rightarrow> main_flags \<Rightarrow> world \<Rightarrow> ('e main_error + control) option" where
  "main_start parse same flags w =
     (case compileDefaultKernelPolicy parse same (fl_rules flags) (fl_priority flags) (fl_markValue flags) of
        Inl err \<Rightarrow> Some (Inl (FatalPolicy err))
      | Inr compiled \<Rightarrow>
          (case register_cli parse same (fl_multiRules flags) newMultiRuleManager of
             None \<Rightarrow> None
           | Some (Inl err) \<Rightarrow> Some (Inl err)
           | Some (Inr mgr) \<Rightarrow>
               (let (err, m) = install_policy compiled mgr w
                in case err of
                     Some e \<Rightarrow> Some (Inl (FatalInstall e))
                   | None \<Rightarrow> Some (Inr \<lparr>ct_config = main_config flags, ct_daemon = run_traversal True (run_traversal False m)\<rparr>))))"

section \<open>The state document\<close>

text \<open>\<^verbatim>\<open>GET /state\<close>: the time stamp of the document is given as its text.\<close>

definition matched_rules :: "(process_key, u64 list) gomap \<Rightarrow> process_key \<Rightarrow> u64 list" where
  "matched_rules ruleMatches key = (case mget ruleMatches key of None \<Rightarrow> [] | Some ids \<Rightarrow> ids)"

definition json_before :: "json_process_key \<Rightarrow> u32 \<times> u64" where
  "json_before key = (jk_TGID key, jk_StartTime key)"

definition state_entries ::
    "(process_key, u64 list) gomap \<Rightarrow> process_map_state \<Rightarrow> json_process_map_entry list" where
  "state_entries ruleMatches snapshot =
     sort_key (\<lambda>e. json_before (jx_Key e))
       (map (\<lambda>(key, v). \<lparr>jx_Key = jsonKey key, jx_Value = jsonValue v,
                        jx_MatchedRules = matched_rules ruleMatches key\<rparr>) (Entries snapshot))"

definition state_procs ::
    "(process_key, u64 list) gomap \<Rightarrow> process_map_state \<Rightarrow> json_observed_process list" where
  "state_procs ruleMatches snapshot =
     sort_key (\<lambda>p. json_before (jo_Key p))
       (map (\<lambda>proc. \<lparr>jo_Key = jsonKey (pi_Key proc), jo_Info = jsonProc proc,
                     jo_MatchedRules = matched_rules ruleMatches (pi_Key proc)\<rparr>) (Procs snapshot))"

datatype 'e state_error = ErrSnapshot snapshot_error | ErrStateRules "'e rules_error"

definition daemonControlState ::
    "(string \<Rightarrow> 'e + regexp) \<Rightarrow> (nat \<Rightarrow> nat \<Rightarrow> bool) \<Rightarrow> string \<Rightarrow> control \<Rightarrow>
     ('e state_error + json_daemon_state) \<times> control" where
  "daemonControlState parse same refreshedAt s =
     (let (res, m) = in_world GrabProcessMapState (ct_daemon s); s = s\<lparr>ct_daemon := m\<rparr>
      in case res of
           Inl e \<Rightarrow> (Inl (ErrSnapshot e), s)
         | Inr snapshot \<Rightarrow>
             (let ruleMatches = manager_Snapshot (manager s);
                  policy = kernelPolicyState m;
                  config = ct_config s
              in case compileDefaultKernelPolicy parse same (cc_Rules config) (cc_MarkPriority config)
                        (cc_MarkValue config) of
                   Inl err \<Rightarrow> (Inl (ErrStateRules err), s)
                 | Inr compiled \<Rightarrow>
                     (Inr \<lparr>jt_Type = ''daemon_state'', jt_RefreshedAt = refreshedAt, jt_Config = config,
                        jt_Dynamic = \<lparr>jd_Generation = st_Generation policy,
                          jd_KernelPolicy = \<lparr>jp_Mode = mode_String (st_Mode policy),
                            jp_Generation = st_Generation policy, jp_RuleCount = st_RuleCount policy,
                            jp_PromotedComm = cp_Promoted compiled, jp_FallbackRules = cp_Fallback compiled\<rparr>,
                          jd_ProcessMap = \<lparr>js_Alive = Alive snapshot, js_Tombstones = Tombstones snapshot,
                            js_Latest = Latest snapshot, js_Entries = state_entries ruleMatches snapshot\<rparr>,
                          jd_Processes = state_procs ruleMatches snapshot,
                          jd_MultiRules = manager_List (manager s)\<rparr>\<rparr>, s)))"

section \<open>Handlers\<close>

datatype 'e response =
    OkState json_daemon_state
  | OkUpdate default_check_update
  | OkList "json_multi_rule list"
  | Created json_multi_rule
  | NoContent
  | BadRequest "'e control_error"
  | NotFound
  | InternalError go_error
  | StateError "'e state_error"

text \<open>The section of \<^verbatim>\<open>POST /rules\<close> under the server's lock.\<close>

definition applyRuleUpdate ::
    "default_check_update \<Rightarrow> compiled_policy \<Rightarrow> control \<Rightarrow> go_error option \<times> control" where
  "applyRuleUpdate update nextPolicy s =
     (let ((_, err), m) = setKernelPolicy (cp_Policy nextPolicy)
            (Some (combinedCheck True (Some (cp_Check nextPolicy)))) (ct_daemon s);
          s = s\<lparr>ct_daemon := m\<rparr>
      in case err of
           Some e \<Rightarrow> (Some e, s)
         | None \<Rightarrow>
             (None, s\<lparr>ct_config := (ct_config s)\<lparr>cc_Rules := du_Rules update,
                        cc_MarkPriority := du_MarkPriority update, cc_MarkValue := du_MarkValue update\<rparr>\<rparr>))"

text \<open>
  \<^verbatim>\<open>POST /rules\<close>. The priority and the mark that stand in for missing ones were read from the
  configuration earlier, under the lock but apart from the section above.
\<close>

definition handleRuleUpdate ::
    "(string \<Rightarrow> 'e + regexp) \<Rightarrow> (nat \<Rightarrow> nat \<Rightarrow> bool) \<Rightarrow> http_request \<Rightarrow> i8 \<Rightarrow> u64 \<Rightarrow> control \<Rightarrow>
     'e response \<times> control" where
  "handleRuleUpdate parse same r currentMarkPriority currentMarkValue s =
     (case parseDefaultCheckUpdate r currentMarkPriority currentMarkValue of
        Inl err \<Rightarrow> (BadRequest err, s)
      | Inr update \<Rightarrow>
          (case compileDefaultKernelPolicy parse same (du_Rules update) (du_MarkPriority update)
                  (du_MarkValue update) of
             Inl err \<Rightarrow> (BadRequest (ErrRules err), s)
           | Inr nextPolicy \<Rightarrow>
               (let (err, s) = applyRuleUpdate update nextPolicy s
                in case err of Some e \<Rightarrow> (InternalError e, s) | None \<Rightarrow> (OkUpdate update, s))))"

definition handleState ::
    "(string \<Rightarrow> 'e + regexp) \<Rightarrow> (nat \<Rightarrow> nat \<Rightarrow> bool) \<Rightarrow> string \<Rightarrow> control \<Rightarrow> 'e response \<times> control" where
  "handleState parse same refreshedAt s =
     (let (res, s) = daemonControlState parse same refreshedAt s
      in (case res of Inl e \<Rightarrow> StateError e | Inr state \<Rightarrow> OkState state, s))"

definition handleList :: "control \<Rightarrow> 'e response" where
  "handleList s = OkList (manager_List (manager s))"

definition forceTraversal :: "control \<Rightarrow> go_error option \<times> control" where
  "forceTraversal s =
     (let (err, m) = traverseProcessTreeLocked (ct_daemon s) in (err, s\<lparr>ct_daemon := m\<rparr>))"

text \<open>\<^verbatim>\<open>POST /multirules\<close> and \<^verbatim>\<open>DELETE /multirules/{id}\<close>.\<close>

definition handleRegister ::
    "(string \<Rightarrow> 'e + regexp) \<Rightarrow> (nat \<Rightarrow> nat \<Rightarrow> bool) \<Rightarrow> http_request \<Rightarrow> control \<Rightarrow>
     ('e response \<times> control) option" where
  "handleRegister parse same r s =
     (case parseMultiRuleUpdate r of
        Inl err \<Rightarrow> Some (BadRequest err, s)
      | Inr rules \<Rightarrow>
          (case Register parse same rules (manager s) of
             None \<Rightarrow> None
           | Some (Inl err, _) \<Rightarrow> Some (BadRequest (ErrRules err), s)
           | Some (Inr rule, mgr) \<Rightarrow>
               (let (err, s) = forceTraversal (set_manager mgr s)
                in case err of
                     Some e \<Rightarrow>
                       Some (InternalError e, set_manager (snd (Unregister (jr_ID rule) (manager s))) s)
                   | None \<Rightarrow> Some (Created rule, s))))"

definition handleUnregister :: "string \<Rightarrow> control \<Rightarrow> 'e response \<times> control" where
  "handleUnregister idText s =
     (case ParseUint 10 64 idText of
        Inl _ \<Rightarrow> (BadRequest ErrInvalidID, s)
      | Inr ruleID \<Rightarrow>
          (let (found, mgr) = Unregister (of_nat ruleID) (manager s)
           in if \<not> found then (NotFound, s)
              else (let (err, s) = forceTraversal (set_manager mgr s)
                    in case err of Some e \<Rightarrow> (InternalError e, s) | None \<Rightarrow> (NoContent, s))))"

section \<open>Steps\<close>

text \<open>
  What happens to the running program, in any order: an event, a diagnostic of the event loop,
  a rule update with the priority and the mark it read at some earlier time, and the parts of
  the other handlers, between which anything may happen.

  Two of the parts are taken as one step although the code leaves a lock in the middle: \<open>Register\<close>
  puts the rule into the tracker and then, under the lock of the list, on the list (what a removal
  between the two does is \<open>removal_during_Register\<close>); and the document of \<^verbatim>\<open>GET /state\<close> is put together
  from the process map, the tracker, the daemon and the list one after the other.
\<close>

inductive control_step ::
    "(string \<Rightarrow> 'e + regexp) \<Rightarrow> (nat \<Rightarrow> nat \<Rightarrow> bool) \<Rightarrow> control \<Rightarrow> control \<Rightarrow> bool"
  for parse :: "string \<Rightarrow> 'e + regexp" and same :: "nat \<Rightarrow> nat \<Rightarrow> bool" where
  ctl_event: "control_step parse same s (s\<lparr>ct_daemon := process_record tcev event (ct_daemon s)\<rparr>)"
| ctl_log: "control_step parse same s (s\<lparr>ct_daemon := logf entry (ct_daemon s)\<rparr>)"
| ctl_rules: "control_step parse same s (snd (handleRuleUpdate parse same r priority mark s))"
| ctl_register: "Register parse same rules (manager s) = Some (res, mgr) \<Longrightarrow>
    control_step parse same s (set_manager mgr s)"
| ctl_unregister: "control_step parse same s (set_manager (snd (Unregister ruleID (manager s))) s)"
| ctl_traverse: "control_step parse same s (snd (forceTraversal s))"
| ctl_state: "control_step parse same s (snd (handleState parse same refreshedAt s))"

inductive control_steps ::
    "(string \<Rightarrow> 'e + regexp) \<Rightarrow> (nat \<Rightarrow> nat \<Rightarrow> bool) \<Rightarrow> control \<Rightarrow> control \<Rightarrow> bool"
  for parse :: "string \<Rightarrow> 'e + regexp" and same :: "nat \<Rightarrow> nat \<Rightarrow> bool" where
  ctls_refl: "control_steps parse same s s"
| ctls_step: "control_steps parse same s s' \<Longrightarrow> control_step parse same s' s'' \<Longrightarrow> control_steps parse same s s''"

lemma set_manager_same [simp]: "set_manager (manager s) s = s"
  by (simp add: set_manager_def manager_def)

lemma handler_steps:
  "handleRegister parse same r s = Some (resp, s') \<Longrightarrow> control_steps parse same s s'"
  "handleUnregister idText s = (resp, s') \<Longrightarrow> control_steps parse same s s'"
proof -
  assume run: "handleRegister parse same r s = Some (resp, s')"
  show "control_steps parse same s s'"
  proof (cases "s' = s")
    case False
    then obtain rules rule mgr where reg: "Register parse same rules (manager s) = Some (Inr rule, mgr)"
      and fin: "s' = snd (forceTraversal (set_manager mgr s)) \<or>
        s' = set_manager (snd (Unregister (jr_ID rule) (manager (snd (forceTraversal (set_manager mgr s))))))
          (snd (forceTraversal (set_manager mgr s)))"
      using run
      by (auto simp: handleRegister_def split_beta Let_def split: sum.splits option.splits)
    have "control_steps parse same s (snd (forceTraversal (set_manager mgr s)))"
      using ctls_refl ctl_register [OF reg] ctl_traverse by (metis ctls_step)
    then show ?thesis using fin ctl_unregister by (metis ctls_step)
  qed (simp add: ctls_refl)
next
  assume run: "handleUnregister idText s = (resp, s')"
  show "control_steps parse same s s'"
  proof (cases "s' = s")
    case False
    then obtain ruleID where "s' = snd (forceTraversal (set_manager (snd (Unregister ruleID (manager s))) s))"
      using run by (auto simp: handleUnregister_def split_beta Let_def split: sum.splits option.splits if_splits)
    then show ?thesis using ctls_refl ctl_unregister ctl_traverse by (metis ctls_step)
  qed (simp add: ctls_refl)
qed

section \<open>The invariant\<close>

abbreviation env_ok :: "(string \<Rightarrow> 'e + regexp) \<Rightarrow> (nat \<Rightarrow> nat \<Rightarrow> bool) \<Rightarrow> closure_env \<Rightarrow> bool" where
  "env_ok parse same c \<equiv> mgr_ok parse same (ce_rules c)"

lemma log_to_rules [simp]: "ce_rules (log_to line c) = ce_rules c"
  by (simp add: log_to_def)

lemma combinedCheck_keeps: "check_keeps (env_ok parse same) (combinedCheck withTracker f)"
  by (auto simp: check_keeps_def combinedCheck_def Let_def intro: mgr_ok_observe(1))

lemma combinedCheck_result: "fst (combinedCheck withTracker (Some f) info c) = f info"
  by (simp add: combinedCheck_def Let_def)

interpretation main: closure_client "env_ok parse same" "main_callbacks (combinedCheck True (Some f))"
    "combinedCheck True (Some f)" for parse same f
  by unfold_locales
    (auto simp: callbacks_keep_def main_callbacks_def processEvent_def intro: mgr_ok_observe(2) combinedCheck_keeps)

definition installed ::
    "(string \<Rightarrow> 'e + regexp) \<Rightarrow> (nat \<Rightarrow> nat \<Rightarrow> bool) \<Rightarrow> daemon_control_config \<Rightarrow> closure_env marker \<Rightarrow> bool" where
  "installed parse same config m \<longleftrightarrow>
     (\<exists>c. compileDefaultKernelPolicy parse same (cc_Rules config) (cc_MarkPriority config) (cc_MarkValue config) = Inr c \<and>
        validateAndNormalizeKernelPolicy (cp_Policy c) = Inr (kernelPolicy m) \<and>
        check m = combinedCheck True (Some (cp_Check c)))"

definition control_inv ::
    "(string \<Rightarrow> 'e + regexp) \<Rightarrow> (nat \<Rightarrow> nat \<Rightarrow> bool) \<Rightarrow> control \<Rightarrow> bool" where
  "control_inv parse same s \<longleftrightarrow>
     rules_inv (ct_daemon s) \<and> guarded (env_ok parse same) (ct_daemon s) \<and>
     (\<exists>f. callbacks (ct_daemon s) = main_callbacks f) \<and>
     installed parse same (ct_config s) (ct_daemon s)"

lemma installed_frame:
  "settings m' = settings m \<Longrightarrow> installed parse same config m' = installed parse same config m"
  using settingsD [of m' m] by (simp add: installed_def)

lemma installed_record: "installed parse same config (process_record tcev event m) = installed parse same config m"
proof -
  have "installed parse same config (m\<lparr>eventCounter := n\<rparr>) = installed parse same config m" for n m
    by (simp add: installed_def)
  then show ?thesis
    by (simp add: process_record_def split_beta Let_def installed_frame [OF handleEvent_frame]
        installed_frame [OF collectTombstones_frame] installed_frame [OF logf_frame(1)] split: option.split)
qed

lemma callbacks_record: "callbacks (process_record tcev event m) = callbacks m"
  using settingsD [OF handleEvent_frame, of event m] settingsD [OF collectTombstones_frame]
  by (simp add: process_record_def split_beta Let_def split: option.split)

text \<open>A policy switch that succeeds installs the policy and the checker it was given.\<close>

lemma switch_installs:
  assumes inv: "rules_inv m" and run: "setKernelPolicy policy (Some chk) m = ((g, err), m')"
  shows "case err of
      None \<Rightarrow> validateAndNormalizeKernelPolicy policy = Inr (kernelPolicy m') \<and> check m' = chk
    | Some e \<Rightarrow> kernelPolicy m' = kernelPolicy m \<and> check m' = check m"
proof (cases "validateAndNormalizeKernelPolicy policy")
  case (Inl e)
  then show ?thesis using run by (auto simp: setKernelPolicy_def)
next
  case (Inr p)
  then have "setKernelPolicyLocked p chk m = ((g, err), m')" using run by (simp add: setKernelPolicy_def)
  from setKernelPolicyLocked_spec(2) [OF inv normalize_normal(1) [OF Inr] this] show ?thesis
    by (auto simp: switch_done_def switch_refused_def Inr split: option.splits)
qed

lemma rules_inv_set_manager [simp]: "rules_inv (ct_daemon (set_manager mgr s)) = rules_inv (ct_daemon s)"
  by (simp add: set_manager_def rules_inv_cong [of "(ct_daemon s)\<lparr>env := c\<rparr>" "ct_daemon s" for c])

lemma control_inv_set_manager:
  "control_inv parse same s \<Longrightarrow> mgr_ok parse same mgr \<Longrightarrow> control_inv parse same (set_manager mgr s)"
  by (simp add: control_inv_def) (simp add: set_manager_def guarded_def installed_def)

lemma control_inv_manager: "control_inv parse same s \<Longrightarrow> mgr_ok parse same (manager s)"
  by (simp add: control_inv_def guarded_def manager_def)

lemma control_inv_traverse:
  assumes "control_inv parse same s"
  shows "control_inv parse same (snd (forceTraversal s))"
  using assms
  by (simp add: control_inv_def forceTraversal_def split_beta Let_def
      rules_inv_cong [of "snd (traverseProcessTreeLocked (ct_daemon s))" "ct_daemon s"]
      installed_frame [OF traverseProcessTreeLocked_frame])

lemma control_inv_apply:
  assumes inv: "control_inv parse same s"
    and comp: "compileDefaultKernelPolicy parse same (du_Rules update) (du_MarkPriority update) (du_MarkValue update) = Inr c"
  shows "control_inv parse same (snd (applyRuleUpdate update c s))"
proof -
  let ?d = "ct_daemon s"
  have d: "rules_inv ?d" "guarded (env_ok parse same) ?d" "installed parse same (ct_config s) ?d"
    and cbs: "\<exists>f. callbacks ?d = main_callbacks f"
    using inv by (simp_all add: control_inv_def)
  obtain g err m where run: "setKernelPolicy (cp_Policy c) (Some (combinedCheck True (Some (cp_Check c)))) ?d = ((g, err), m)"
    by (metis prod.exhaust)
  have keep: "rules_inv m" "guarded (env_ok parse same) m"
    using rules_inv_policy [OF d(1), of "cp_Policy c" "Some (combinedCheck True (Some (cp_Check c)))"]
      main.policy [OF d(2), of "cp_Policy c" "cp_Check c"] run by simp_all
  have "callbacks m = callbacks ?d"
    using callbacks_policy [of "cp_Policy c" "Some (combinedCheck True (Some (cp_Check c)))" ?d] run by simp
  then show ?thesis
    using switch_installs [OF d(1) run] keep d(3) comp cbs
    by (auto simp: applyRuleUpdate_def run control_inv_def installed_def split: option.splits)
qed

lemma handleRuleUpdate_cases:
  obtains (refused) "snd (handleRuleUpdate parse same r priority mark s) = s"
  | (applied) update c where
      "compileDefaultKernelPolicy parse same (du_Rules update) (du_MarkPriority update) (du_MarkValue update) = Inr c"
      "snd (handleRuleUpdate parse same r priority mark s) = snd (applyRuleUpdate update c s)"
  by (fastforce simp: handleRuleUpdate_def split_beta Let_def split: sum.splits option.splits)

lemma control_inv_rule_update:
  "control_inv parse same s \<Longrightarrow> control_inv parse same (snd (handleRuleUpdate parse same r priority mark s))"
  by (rule handleRuleUpdate_cases [of parse same r priority mark s]) (simp_all add: control_inv_apply)

text \<open>Reading the state touches nothing but the record of the system calls.\<close>

lemma GrabProcessMapState_tables: "policy_tables (snd (GrabProcessMapState w)) = policy_tables w"
  by (simp add: GrabProcessMapState_def readProcessMapState_def processes_Iterate_def syscall_def split_beta Let_def
      still_policy_tables [OF listProcesses_still] policy_tables_def split: sum.split option.split)

lemma handleState_frame:
  "ct_config (snd (handleState parse same refreshedAt s)) = ct_config s"
  "settings (ct_daemon (snd (handleState parse same refreshedAt s))) = settings (ct_daemon s)"
  "env (ct_daemon (snd (handleState parse same refreshedAt s))) = env (ct_daemon s)"
  "policy_tables (wld (ct_daemon (snd (handleState parse same refreshedAt s)))) = policy_tables (wld (ct_daemon s))"
  by (simp_all add: handleState_def daemonControlState_def split_beta Let_def GrabProcessMapState_tables
      split: sum.split)

lemma control_inv_state: "control_inv parse same s \<Longrightarrow> control_inv parse same (snd (handleState parse same refreshedAt s))"
  using handleState_frame [of parse same refreshedAt s]
    settingsD [OF handleState_frame(2) [of parse same refreshedAt s]]
    rules_inv_cong [OF handleState_frame(2,4) [of parse same refreshedAt s]]
    guardedI [OF _ handleState_frame(2) [of parse same refreshedAt s], of "env_ok parse same"]
    installed_frame [OF handleState_frame(2) [of parse same refreshedAt s], of parse same "ct_config s"]
  by (simp add: control_inv_def guarded_def)

lemma control_step_inv: "control_step parse same s s' \<Longrightarrow> control_inv parse same s \<Longrightarrow> control_inv parse same s'"
proof (induction rule: control_step.induct)
  case (ctl_event s tcev event)
  then show ?case by (simp add: control_inv_def rules_inv_process_record installed_record callbacks_record)
next
  case (ctl_log s entry)
  then show ?case
    by (simp add: control_inv_def rules_inv_cong [OF logf_frame(1)] installed_frame [OF logf_frame(1)])
qed (auto intro: control_inv_state control_inv_rule_update control_inv_set_manager control_inv_traverse control_inv_manager
    mgr_ok_Register mgr_ok_Unregister(1))

lemma control_steps_inv: "control_steps parse same s s' \<Longrightarrow> control_inv parse same s \<Longrightarrow> control_inv parse same s'"
  by (induction rule: control_steps.induct) (auto intro: control_step_inv)

section \<open>The start establishes it\<close>

lemma register_cli_ok:
  "register_cli parse same specs mgr = Some (Inr mgr') \<Longrightarrow> mgr_ok parse same mgr \<Longrightarrow> mgr_ok parse same mgr'"
  by (induction specs arbitrary: mgr) (auto dest: mgr_ok_Register split: option.splits sum.splits prod.splits)

lemma install_policy_inv:
  assumes fresh: "fresh_tables w" and mgr: "mgr_ok parse same mgr"
    and run: "install_policy c mgr w = (None, m)"
  shows "rules_inv m" "guarded (env_ok parse same) m"
    and "validateAndNormalizeKernelPolicy (cp_Policy c) = Inr (kernelPolicy m)"
    and "check m = combinedCheck True (Some (cp_Check c))"
    and "\<exists>f. callbacks m = main_callbacks f"
proof -
  let ?chk = "combinedCheck True (Some (cp_Check c))"
  let ?m0 = "snd (NewDaemon (main_callbacks ?chk) 0 0 w \<lparr>ce_rules = mgr, ce_log = []\<rparr>)"
  obtain g where switch: "setKernelPolicy (cp_Policy c) (Some ?chk) ?m0 = ((g, None), m)"
    using run by (auto simp: install_policy_def Let_def split: prod.splits)
  have inv0: "rules_inv ?m0" by (rule NewDaemon_rules_inv [OF fresh])
  have "guarded (env_ok parse same) ?m0"
    using mgr by (intro main.start) (simp_all add: main_callbacks_def)
  from main.policy [OF this, of "cp_Policy c" "cp_Check c"] switch
  show "guarded (env_ok parse same) m" by simp
  show "rules_inv m" using rules_inv_policy [OF inv0, of "cp_Policy c" "Some ?chk"] switch by simp
  show "validateAndNormalizeKernelPolicy (cp_Policy c) = Inr (kernelPolicy m)" "check m = ?chk"
    using switch_installs [OF inv0 switch] by simp_all
  have "callbacks m = callbacks ?m0"
    using callbacks_policy [of "cp_Policy c" "Some ?chk" ?m0] switch by simp
  then show "\<exists>f. callbacks m = main_callbacks f" by (auto simp: NewDaemon_def Let_def)
qed

lemma run_traversal_frame [simp]:
  "settings (run_traversal b m) = settings m"
  "policy_tables (wld (run_traversal b m)) = policy_tables (wld m)"
  "guarded P m \<Longrightarrow> guarded P (run_traversal b m)"
  by (simp_all add: run_traversal_def split_beta Let_def split: option.split)

lemma run_traversals_frame:
  "settings (run_traversal b (run_traversal b' m)) = settings m"
  "policy_tables (wld (run_traversal b (run_traversal b' m))) = policy_tables (wld m)"
  by simp_all

theorem main_start_inv:
  assumes fresh: "fresh_tables w" and run: "main_start parse same flags w = Some (Inr s)"
  shows "control_inv parse same s"
proof -
  obtain c mgr m where c: "compileDefaultKernelPolicy parse same (fl_rules flags) (fl_priority flags) (fl_markValue flags) = Inr c"
    and mgr: "register_cli parse same (fl_multiRules flags) newMultiRuleManager = Some (Inr mgr)"
    and inst: "install_policy c mgr w = (None, m)"
    and s: "s = \<lparr>ct_config = main_config flags, ct_daemon = run_traversal True (run_traversal False m)\<rparr>"
    using run by (auto simp: main_start_def split: sum.splits option.splits prod.splits)
  note m = install_policy_inv [OF fresh register_cli_ok [OF mgr mgr_ok_new] inst]
  have "installed parse same (main_config flags) m"
    using c m(3,4) by (simp add: installed_def main_config_def)
  then show ?thesis
    using m(1,2,5) settingsD [OF run_traversals_frame(1) [of True False m]]
    by (simp add: s control_inv_def installed_frame [OF run_traversals_frame(1)]
        rules_inv_cong [OF run_traversals_frame(1,2)])
qed

section \<open>What the invariant says\<close>

text \<open>The kernel tables decide as the configured rules do.\<close>

lemma control_inv_kernel:
  assumes "control_inv parse same s" "makeCommRuleKey (generation (ct_daemon s)) (pi_Comm info) = Inr key"
  obtains c where
    "compileDefaultKernelPolicy parse same (cc_Rules (ct_config s)) (cc_MarkPriority (ct_config s))
       (cc_MarkValue (ct_config s)) = Inr c"
    "ps_Mode (k_active_policy (wld (ct_daemon s))) = kp_Mode (cp_Policy c)"
    "exactCommCheck (kp_CommRules (cp_Policy c)) info =
      (case mget (k_comm_rules (wld (ct_daemon s))) key of
         None \<Rightarrow> (0, 0, False) | Some v \<Rightarrow> (rv_Priority v, rv_Mark v, True))"
    "check (ct_daemon s) = combinedCheck True (Some (cp_Check c))"
proof -
  let ?d = "ct_daemon s"
  obtain c where c: "compileDefaultKernelPolicy parse same (cc_Rules (ct_config s)) (cc_MarkPriority (ct_config s))
       (cc_MarkValue (ct_config s)) = Inr c"
    and norm: "validateAndNormalizeKernelPolicy (cp_Policy c) = Inr (kernelPolicy ?d)"
    and chk: "check ?d = combinedCheck True (Some (cp_Check c))"
    using assms(1) by (auto simp: control_inv_def installed_def)
  have act: "active_complete ?d" using assms(1) by (simp add: control_inv_def rules_inv_def)
  note normal = normalize_normal [OF norm]
  have valid: "validateExactComm (pi_Comm info) = None"
    using assms(2) by (auto simp: makeCommRuleKey_def split: option.splits)
  then have key: "key = \<lparr>rk_Generation = generation ?d, rk_Comm = comm_bytes (pi_Comm info)\<rparr>"
    using assms(2) by (simp add: makeCommRuleKey_ok)
  have "mget (k_comm_rules (wld ?d)) key = mget (rule_entries (generation ?d) (kp_CommRules (kernelPolicy ?d))) key"
    using act by (simp add: active_complete_def complete_generation_def key)
  also have "\<dots> = map_option rule_value (deciding_rule (pi_Comm info) (kp_CommRules (kernelPolicy ?d)))"
    using normal(1) valid by (simp add: key rule_entries_lookup deciding_rule_distinct normal_policy_def)
  finally have lookup: "exactCommCheck (kp_CommRules (cp_Policy c)) info =
      (case mget (k_comm_rules (wld ?d)) key of None \<Rightarrow> (0, 0, False) | Some v \<Rightarrow> (rv_Priority v, rv_Mark v, True))"
    using normal(3) [of "pi_Comm info"]
    by (auto simp: exactCommCheck_decision rule_value_def split: option.split)
  have "ps_Mode (k_active_policy (wld ?d)) = kp_Mode (cp_Policy c)"
    using act normal(2) by (auto simp: active_complete_def)
  then show thesis using that c lookup chk by blast
qed

text \<open>Every id a process carries is one of a listed rule.\<close>

lemma control_inv_ids:
  assumes "control_inv parse same s" "rid \<in> set (RuleIDs key (mm_tracker (manager s)))"
  shows "\<exists>rule \<in> set (manager_List (manager s)). jr_ID rule = rid"
proof -
  have ok: "mgr_ok parse same (manager s)" by (rule control_inv_manager [OF assms(1)])
  then have "tracker_ok (mm_tracker (manager s))" by (simp add: mgr_ok_def)
  then obtain entry where "mget (tr_processes (mm_tracker (manager s))) key = Some entry" "rid \<in> en_ids entry"
    using assms(2) by (auto simp: RuleIDs_Matches Matches_def split: option.splits)
  then have "rid \<in> fst ` set (tr_rules (mm_tracker (manager s)))"
    using ok by (auto simp: mgr_ok_def tracker_ok_def entries_ok_def)
  then have "mget (tr_rules (mm_tracker (manager s))) rid \<noteq> None" by (simp add: map_of_eq_None_iff)
  then obtain rules where "mget (mm_rules (manager s)) rid = Some rules"
    using ok by (metis mgr_ok_def option.rel_distinct(1) not_None_eq)
  then show ?thesis using manager_List_rules [OF ok, of "\<lparr>jr_ID = rid, jr_Rule = rules\<rparr>"] by force
qed

section \<open>The state document\<close>

lemma json_before_key: "json_before (jsonKey k) \<le> json_before (jsonKey l) \<longleftrightarrow> k \<le> l"
  by (auto simp: json_before_def jsonKey_def less_eq_process_key_ext_def)

lemma matched_rules_ids:
  "matched_rules (manager_Snapshot mgr) key = RuleIDs key (mm_tracker mgr)"
proof -
  have "mget (map (\<lambda>(key, entry). (key, sortedIDs (en_ids entry))) procs) key =
      map_option (\<lambda>entry. sortedIDs (en_ids entry)) (mget procs key)" for procs :: entry_map
    by (induction procs) auto
  then show ?thesis
    by (simp add: matched_rules_def manager_Snapshot_def Snapshot_def RuleIDs_def split: option.split)
qed

lemma sorted_map_unique:
  fixes f :: "'a \<Rightarrow> 'b::linorder"
  assumes "inj_on f (set xs)" "sorted (map f xs)" "sorted (map f ys)" "mset xs = mset ys"
  shows "xs = ys"
proof -
  have "sort (map f ys) = map f xs" using assms(2,4) by (intro properties_for_sort) simp_all
  then have "map f xs = map f ys" using assms(3) by (simp add: sorted_sort_id)
  moreover have "set ys = set xs" using assms(4) by (rule mset_eq_setD [symmetric])
  ultimately show ?thesis using assms(1) by (intro map_inj_on [of f]) simp_all
qed

text \<open>The rows of the process map: one for each entry, by ascending identity.\<close>

definition state_row :: "(process_key, u64 list) gomap \<Rightarrow> mirror_map \<Rightarrow> process_key \<Rightarrow> json_process_map_entry" where
  "state_row ruleMatches entries key =
     \<lparr>jx_Key = jsonKey key, jx_Value = jsonValue (the (mget entries key)),
      jx_MatchedRules = matched_rules ruleMatches key\<rparr>"

lemma state_entries_rows:
  assumes "wfmap (Entries snapshot)"
  shows "state_entries ruleMatches snapshot =
    map (state_row ruleMatches (Entries snapshot)) (sort (mkeys (Entries snapshot)))"
proof -
  let ?es = "Entries snapshot"
  let ?row = "state_row ruleMatches ?es"
  let ?f = "\<lambda>e. json_before (jx_Key e)"
  have "map (\<lambda>(key, v). \<lparr>jx_Key = jsonKey key, jx_Value = jsonValue v, jx_MatchedRules = matched_rules ruleMatches key\<rparr>) ?es
      = map (\<lambda>p. ?row (fst p)) ?es"
    using assms by (auto simp: state_row_def wfmap_get_iff [symmetric])
  then have rows: "state_entries ruleMatches snapshot = sort_key ?f (map ?row (mkeys ?es))"
    by (simp only: state_entries_def map_map comp_def)
  have f: "?f (?row k) \<le> ?f (?row l) \<longleftrightarrow> k \<le> l" for k l by (simp add: state_row_def json_before_key)
  show ?thesis
    unfolding rows
  proof (rule sorted_map_unique [where f = ?f])
    show "inj_on ?f (set (sort_key ?f (map ?row (mkeys ?es))))"
    proof (rule inj_onI)
      fix x y assume "x \<in> set (sort_key ?f (map ?row (mkeys ?es)))" "y \<in> set (sort_key ?f (map ?row (mkeys ?es)))"
        and eq: "?f x = ?f y"
      then obtain k l where "x = ?row k" "y = ?row l" by auto
      then show "x = y" using f [of k l] f [of l k] eq by simp
    qed
    show "sorted (map ?f (map ?row (sort (mkeys ?es))))"
      using sorted_sort [of "mkeys ?es"] by (simp add: sorted_map sorted_wrt_map f)
    show "mset (sort_key ?f (map ?row (mkeys ?es))) = mset (map ?row (sort (mkeys ?es)))"
      by (simp only: mset_sort mset_map)
  qed (rule sorted_sort_key)
qed

text \<open>What the document shows is the kernel map, the policy the daemon runs and the rules it tracks.\<close>

lemma GrabProcessMapState_entries:
  assumes "wfmap (k_processes w)" "fst (GrabProcessMapState w) = Inr snapshot"
  shows "wfmap (Entries snapshot)" "mget (Entries snapshot) = mget (k_processes w)"
    and "sort (mkeys (Entries snapshot)) = sort (mkeys (k_processes w))"
proof -
  show e: "wfmap (Entries snapshot)" "mget (Entries snapshot) = mget (k_processes w)"
    using GrabProcessMapState_counts [OF assms] by (simp_all add: counts_def)
  then have "set (mkeys (Entries snapshot)) = set (mkeys (k_processes w))"
    by (simp add: dom_map_of_conv_image_fst [symmetric])
  then have "mset (mkeys (Entries snapshot)) = mset (mkeys (k_processes w))"
    using e(1) assms(1) unfolding wfmap_def by (simp only: set_eq_iff_mset_eq_distinct)
  then show "sort (mkeys (Entries snapshot)) = sort (mkeys (k_processes w))"
    by (intro properties_for_sort) simp_all
qed

lemma daemonControlState_document:
  assumes inv: "control_inv parse same s" and wf: "wfmap (k_processes (wld (ct_daemon s)))"
    and run: "daemonControlState parse same refreshedAt s = (Inr doc, s')"
  shows "js_Entries (jd_ProcessMap (jt_Dynamic doc)) =
      map (\<lambda>key. \<lparr>jx_Key = jsonKey key, jx_Value = jsonValue (the (mget (k_processes (wld (ct_daemon s))) key)),
                  jx_MatchedRules = RuleIDs key (mm_tracker (manager s))\<rparr>)
        (sort (mkeys (k_processes (wld (ct_daemon s)))))"
    and "jp_Mode (jd_KernelPolicy (jt_Dynamic doc)) = mode_String (ps_Mode (k_active_policy (wld (ct_daemon s))))"
    and "jd_MultiRules (jt_Dynamic doc) = manager_List (manager s)"
    and "jt_Config doc = ct_config s"
proof -
  obtain snapshot where snap: "fst (GrabProcessMapState (wld (ct_daemon s))) = Inr snapshot"
    and doc: "jt_Config doc = ct_config s" "jd_MultiRules (jt_Dynamic doc) = manager_List (manager s)"
      "js_Entries (jd_ProcessMap (jt_Dynamic doc)) = state_entries (manager_Snapshot (manager s)) snapshot"
      "jp_Mode (jd_KernelPolicy (jt_Dynamic doc)) = mode_String (kp_Mode (kernelPolicy (ct_daemon s)))"
    using run
    by (auto simp: daemonControlState_def split_beta Let_def kernelPolicyState_def manager_def prod_eq_iff
        split: sum.splits)
  note entries = GrabProcessMapState_entries [OF wf snap]
  show "js_Entries (jd_ProcessMap (jt_Dynamic doc)) =
      map (\<lambda>key. \<lparr>jx_Key = jsonKey key, jx_Value = jsonValue (the (mget (k_processes (wld (ct_daemon s))) key)),
                  jx_MatchedRules = RuleIDs key (mm_tracker (manager s))\<rparr>)
        (sort (mkeys (k_processes (wld (ct_daemon s)))))"
    by (simp add: doc state_entries_rows [OF entries(1)] state_row_def entries(2,3) matched_rules_ids)
  show "jp_Mode (jd_KernelPolicy (jt_Dynamic doc)) = mode_String (ps_Mode (k_active_policy (wld (ct_daemon s))))"
    using inv doc(4) by (auto simp: control_inv_def rules_inv_def active_complete_def)
  show "jd_MultiRules (jt_Dynamic doc) = manager_List (manager s)" "jt_Config doc = ct_config s" by (rule doc)+
qed

section \<open>The rule handlers\<close>

text \<open>Only the handlers change the list of rules: the daemon's callbacks keep it.\<close>

interpretation listed: closure_client "\<lambda>c. mm_rules (ce_rules c) = R" "main_callbacks (combinedCheck True (Some f))"
    "combinedCheck True (Some f)" for R f
  by unfold_locales
    (auto simp: callbacks_keep_def check_keeps_def main_callbacks_def processEvent_def combinedCheck_def
      manager_ApplyProcessEvent_def Let_def)

lemma rules_guarded:
  assumes "control_inv parse same s"
  shows "guarded (\<lambda>c. mm_rules (ce_rules c) = mm_rules (manager s)) (ct_daemon s)"
proof -
  let ?P = "\<lambda>c. mm_rules (ce_rules c) = mm_rules (manager s)"
  obtain f g where "callbacks (ct_daemon s) = main_callbacks f" "check (ct_daemon s) = combinedCheck True (Some g)"
    using assms by (auto simp: control_inv_def installed_def)
  moreover have "callbacks_keep ?P (main_callbacks f)"
    using listed.callbacks_keep by (simp add: main_callbacks_def callbacks_keep_def)
  ultimately show ?thesis using listed.check_keeps by (simp add: guarded_def manager_def)
qed

lemma traversal_keeps_rules:
  assumes "control_inv parse same s"
  shows "mm_rules (manager (snd (forceTraversal s))) = mm_rules (manager s)"
proof -
  have "guarded (\<lambda>c. mm_rules (ce_rules c) = mm_rules (manager s)) (snd (traverseProcessTreeLocked (ct_daemon s)))"
    using rules_guarded [OF assms] by simp
  then show ?thesis by (simp add: guarded_def forceTraversal_def manager_def split_beta Let_def)
qed

text \<open>A rule update changes none of the tracked rules, and the configuration only if it is answered with the update.\<close>

lemma rule_update_keeps:
  assumes inv: "control_inv parse same s"
    and run: "handleRuleUpdate parse same r priority mark s = (resp, s')"
  shows "mm_rules (manager s') = mm_rules (manager s)"
    and "(\<exists>update. resp = OkUpdate update) \<or> ct_config s' = ct_config s"
proof -
  have "mm_rules (manager (snd (applyRuleUpdate update c s))) = mm_rules (manager s)" for update c
  proof -
    let ?run = "setKernelPolicy (cp_Policy c) (Some (combinedCheck True (Some (cp_Check c)))) (ct_daemon s)"
    have "guarded (\<lambda>x. mm_rules (ce_rules x) = mm_rules (manager s)) (snd ?run)"
      by (rule listed.policy [OF rules_guarded [OF inv]])
    then show ?thesis
      by (simp add: applyRuleUpdate_def guarded_def manager_def split_beta Let_def split: option.split)
  qed
  then show "mm_rules (manager s') = mm_rules (manager s)"
    using handleRuleUpdate_cases [of parse same r priority mark s] run by (metis snd_conv)
  show "(\<exists>update. resp = OkUpdate update) \<or> ct_config s' = ct_config s"
    using run
    by (auto simp: handleRuleUpdate_def applyRuleUpdate_def split_beta Let_def split: sum.splits option.splits)
qed

lemma Unregister_list:
  "mgr_ok parse same m \<Longrightarrow> mget (mm_rules (snd (Unregister ruleID m))) = (mget (mm_rules m))(ruleID := None)"
  using mgr_ok_Unregister(2) [of parse same m ruleID]
  by (auto simp: Unregister_def UnregisterRule_def fun_eq_iff split: if_splits)

lemma manager_set_manager [simp]: "manager (set_manager mgr s) = mgr"
  by (simp add: manager_def set_manager_def)

lemma Register_list:
  assumes "mgr_ok parse same m" "Register parse same rules m = Some (Inr rule, m')"
  shows "jr_Rule rule = rules" "mget (mm_rules m) (jr_ID rule) = None"
    and "mget (mm_rules m') = (mget (mm_rules m))(jr_ID rule \<mapsto> rules)"
proof -
  have tr: "tracker_ok (mm_tracker m)" using assms(1) by (simp add: mgr_ok_def)
  obtain matcher rid t where reg: "RegisterRule (Some (tracked_rule same matcher)) (mm_tracker m) = Some (rid, t)"
    "rule = \<lparr>jr_ID = rid, jr_Rule = rules\<rparr>" "m' = \<lparr>mm_tracker = t, mm_rules = mput rid rules (mm_rules m)\<rparr>"
    using assms(2) by (cases rule: Register_cases) auto
  show "jr_Rule rule = rules" "mget (mm_rules m') = (mget (mm_rules m))(jr_ID rule \<mapsto> rules)"
    by (simp_all add: reg)
  have "mget (tr_rules (mm_tracker m)) rid = None" by (rule RegisterRule_result(1) [OF tr reg(1)])
  then show "mget (mm_rules m) (jr_ID rule) = None"
    using assms(1) by (metis reg(2) json_multi_rule.select_convs(1) mgr_ok_def option.rel_distinct(2) not_None_eq)
qed

lemma handleRegister_outcome:
  fixes parse :: "string \<Rightarrow> 'e + regexp"
  assumes inv: "control_inv parse same s" and run: "handleRegister parse same r s = Some (resp, s')"
  shows "case resp of
      Created rule \<Rightarrow> (parseMultiRuleUpdate r :: 'e control_error + default_check_rules) = Inr (jr_Rule rule) \<and>
        mget (mm_rules (manager s)) (jr_ID rule) = None \<and>
        mget (mm_rules (manager s')) = (mget (mm_rules (manager s)))(jr_ID rule \<mapsto> jr_Rule rule)
    | _ \<Rightarrow> mget (mm_rules (manager s')) = mget (mm_rules (manager s))"
proof -
  have ok: "mgr_ok parse same (manager s)" by (rule control_inv_manager [OF inv])
  consider (refused) e where "resp = BadRequest e" "s' = s"
    | (ran) rules rule mgr err s2 where "(parseMultiRuleUpdate r :: 'e control_error + default_check_rules) = Inr rules"
        "Register parse same rules (manager s) = Some (Inr rule, mgr)"
        "forceTraversal (set_manager mgr s) = (err, s2)"
        "err = None \<and> resp = Created rule \<and> s' = s2 \<or>
         (\<exists>e. err = Some e \<and> resp = InternalError e \<and>
           s' = set_manager (snd (Unregister (jr_ID rule) (manager s2))) s2)"
    using run unfolding handleRegister_def
    by (cases "parseMultiRuleUpdate r :: 'e control_error + default_check_rules")
      (auto split: option.splits sum.splits prod.splits)
  then show ?thesis
  proof cases
    case refused
    then show ?thesis by simp
  next
    case (ran rules rule mgr err s2)
    note list = Register_list [OF ok ran(2)]
    have inv1: "control_inv parse same (set_manager mgr s)"
      by (rule control_inv_set_manager [OF inv mgr_ok_Register [OF ok ran(2)]])
    have rules2: "mm_rules (manager s2) = mm_rules mgr"
      using traversal_keeps_rules [OF inv1] ran(3) by simp
    have "mgr_ok parse same (manager s2)"
      using control_inv_manager [OF control_inv_traverse [OF inv1]] ran(3) by simp
    from Unregister_list [OF this, of "jr_ID rule"] list rules2 ran(1,4) show ?thesis
      by (auto simp: fun_eq_iff)
  qed
qed

text \<open>A rule that is found is no longer listed, whatever the traversal after that reports.\<close>

lemma handleUnregister_outcome:
  assumes inv: "control_inv parse same s" and run: "handleUnregister idText s = (resp, s')"
  shows "s' = s \<or>
    (\<exists>ruleID. ParseUint 10 64 idText = Inr ruleID \<and> mget (mm_rules (manager s)) (of_nat ruleID) \<noteq> None \<and>
       mget (mm_rules (manager s')) = (mget (mm_rules (manager s)))(of_nat ruleID := None) \<and>
       ct_config s' = ct_config s \<and> (resp = NoContent \<or> (\<exists>e. resp = InternalError e)))"
proof (cases "s' = s")
  case False
  have ok: "mgr_ok parse same (manager s)" by (rule control_inv_manager [OF inv])
  obtain ruleID where id': "ParseUint 10 64 idText = Inr ruleID" by (cases "ParseUint 10 64 idText") (use run False in \<open>auto simp: handleUnregister_def\<close>)
  let ?mgr = "snd (Unregister (of_nat ruleID) (manager s))"
  have found: "fst (Unregister (of_nat ruleID) (manager s))"
    and s': "s' = snd (forceTraversal (set_manager ?mgr s))"
    and resp: "resp = NoContent \<or> (\<exists>e. resp = InternalError e)"
    using run False by (auto simp: handleUnregister_def id' split_beta Let_def split: if_splits option.splits)
  have inv1: "control_inv parse same (set_manager ?mgr s)"
    by (rule control_inv_set_manager [OF inv mgr_ok_Unregister(1) [OF ok]])
  have "mm_rules (manager s') = mm_rules ?mgr" using traversal_keeps_rules [OF inv1] s' by simp
  then have "mget (mm_rules (manager s')) = (mget (mm_rules (manager s)))(of_nat ruleID := None)"
    using Unregister_list [OF ok] by simp
  moreover have "mget (mm_rules (manager s)) (of_nat ruleID) \<noteq> None"
    using mgr_ok_Unregister(2) [OF ok, of "of_nat ruleID"] found by simp
  moreover have "ct_config s' = ct_config s" by (simp add: s' forceTraversal_def set_manager_def split_beta Let_def)
  ultimately show ?thesis using id' resp by blast
qed simp

text \<open>A listed rule compiles.\<close>

lemma listed_compiles:
  assumes "mgr_ok parse same mgr" "rule \<in> set (manager_List mgr)"
  shows "\<exists>matcher. compileDefaultCheckRules parse (jr_Rule rule) = Inr matcher"
proof -
  have "mget (mm_rules mgr) (jr_ID rule) = Some (jr_Rule rule)"
    using manager_List_rules [OF assms(1)] assms(2) by simp
  then have "rel_option (compiles_to parse same) (Some (jr_Rule rule)) (mget (tr_rules (mm_tracker mgr)) (jr_ID rule))"
    using assms(1) by (metis mgr_ok_def)
  then show ?thesis by (auto simp: option_rel_Some1 compiles_to_def)
qed

text \<open>The start lists the rules of the command line.\<close>

lemma main_start_rules:
  assumes "main_start parse same flags w = Some (Inr s)"
    and "register_cli parse same (fl_multiRules flags) newMultiRuleManager = Some (Inr mgr)"
  shows "mm_rules (manager s) = mm_rules mgr"
proof -
  let ?P = "\<lambda>c. mm_rules (ce_rules c) = mm_rules mgr"
  obtain c m where inst: "install_policy c mgr w = (None, m)" and s: "ct_daemon s = run_traversal True (run_traversal False m)"
    using assms by (auto simp: main_start_def split: sum.splits option.splits prod.splits)
  let ?chk = "combinedCheck True (Some (cp_Check c))"
  have "guarded ?P (snd (NewDaemon (main_callbacks ?chk) 0 0 w \<lparr>ce_rules = mgr, ce_log = []\<rparr>))"
    by (intro listed.start) (simp_all add: main_callbacks_def)
  from listed.policy [OF this, of "cp_Policy c" "cp_Check c"] inst have "guarded ?P m"
    by (auto simp: install_policy_def Let_def split: prod.splits)
  then have "guarded ?P (run_traversal True (run_traversal False m))" by simp
  then show ?thesis by (simp add: guarded_def manager_def s)
qed

text \<open>The outcome in terms of the list.\<close>

lemma manager_List_set:
  "mgr_ok parse same m \<Longrightarrow> set (manager_List m) = {rule. mget (mm_rules m) (jr_ID rule) = Some (jr_Rule rule)}"
  using manager_List_rules by blast

lemma listed_insert:
  "F (jr_ID rule) = None \<Longrightarrow>
   {r. (F(jr_ID rule \<mapsto> jr_Rule rule)) (jr_ID r) = Some (jr_Rule r)} =
   insert rule {r. F (jr_ID r) = Some (jr_Rule r)}" for rule :: json_multi_rule
proof -
  assume F: "F (jr_ID rule) = None"
  have eq: "r = rule \<longleftrightarrow> jr_ID r = jr_ID rule \<and> jr_Rule r = jr_Rule rule" for r
    by (auto intro: json_multi_rule.equality)
  show ?thesis using F by (auto simp: set_eq_iff eq)
qed

lemma handleRegister_list:
  fixes parse :: "string \<Rightarrow> 'e + regexp"
  assumes inv: "control_inv parse same s" and run: "handleRegister parse same r s = Some (resp, s')"
  shows "case resp of
      Created rule \<Rightarrow> (parseMultiRuleUpdate r :: 'e control_error + default_check_rules) = Inr (jr_Rule rule) \<and>
        jr_ID rule \<notin> jr_ID ` set (manager_List (manager s)) \<and>
        set (manager_List (manager s')) = insert rule (set (manager_List (manager s)))
    | _ \<Rightarrow> set (manager_List (manager s')) = set (manager_List (manager s))"
proof -
  have inv': "control_inv parse same s'" by (rule control_steps_inv [OF handler_steps(1) [OF run] inv])
  note out = handleRegister_outcome [OF inv run]
  note rows = manager_List_set [OF control_inv_manager [OF inv]] manager_List_set [OF control_inv_manager [OF inv']]
  show ?thesis
  proof (cases resp)
    case (Created rule)
    then show ?thesis using out unfolding rows by (auto simp: listed_insert)
  qed (use out in \<open>simp_all add: rows\<close>)
qed

end
