(* ===== verification/Examples.thy ===== *)
theory Examples
  imports Daemon
begin

text \<open>
  Concrete states the witnesses of the properties are evaluated at: a machine with an init
  process and a shell below it, the daemon \<^verbatim>\<open>NewDaemon\<close> starts on it, and a tracker that
  observed both processes.
\<close>

definition init_stat :: string where
  "init_stat = ''1 (init) S 0 1 1 0 -1 4 0 0 0 0 0 0 0 0 20 0 1 0 3 0 0''"

definition shell_stat :: string where
  "shell_stat = ''42 (my (sh)) S 1 42 42 0 -1 4 0 0 0 0 0 0 0 0 20 0 1 0 77 0 0''"

definition demo_fs :: procfs where
  "demo_fs =
     \<lparr>fs_dir = Some [(''1'', True), (''42'', True), (''uptime'', False)],
      fs_file = (\<lambda>path.
        if path = ''/proc/1/stat'' then Some init_stat
        else if path = ''/proc/42/stat'' then Some shell_stat
        else if path = ''/proc/1/comm'' then Some ''init''
        else if path = ''/proc/42/comm'' then Some ''sh''
        else None),
      fs_link = (\<lambda>path. None)\<rparr>"

definition demo_world :: world where
  "demo_world =
     \<lparr>os_clock = (\<lambda>n. Some (word_of_nat (1000 + n))), os_uptime = (\<lambda>n. 0), os_ticks = 0,
      os_fs = (\<lambda>n. demo_fs), os_looks = 0, os_fault = (\<lambda>n. False), os_abort = (\<lambda>n. None),
      os_calls = 0, k_processes = [], k_comm_rules = [],
      k_active_policy = \<lparr>ps_Generation = 0, ps_Mode = 0\<rparr>\<rparr>"

lemma demo_fresh: "fresh_world demo_world"
  by (simp add: fresh_world_def fresh_tables_def demo_world_def no_faults_def)

lemma demo_static: "static_fs demo_fs demo_world"
  by (simp add: static_fs_def demo_world_def)

text \<open>A checker that marks the shell, and the daemon that was given it.\<close>

definition demo_check :: "process_info \<Rightarrow> i8 \<times> u64 \<times> bool" where
  "demo_check info = (if pi_Comm info = ''sh'' then (5, 7, True) else (0, 0, False))"

definition demo_callbacks :: "process_event list callbacks" where
  "demo_callbacks =
     \<lparr>cb_Check = Some (\<lambda>info c. (demo_check info, c)), cb_ProcessEvent = Some (\<lambda>e c. c @ [e]),
      cb_ProcessUpdate = None, cb_Logf = None\<rparr>"

definition demo_daemon :: "process_event list marker" where
  "demo_daemon = snd (NewDaemon demo_callbacks 0 0 demo_world [])"

lemma demo_daemon_eq:
  "demo_daemon = \<lparr>processes = True, commRules = True, activePolicy = True, mirror = [],
     check = (\<lambda>info c. (demo_check info, c)), generation = 1, policyGeneration = 1,
     kernelPolicy = \<lparr>kp_Mode = 0, kp_CommRules = []\<rparr>, callbacks = demo_callbacks,
     eventCounter = 0, installedCommRules = [], tombTTL = 60000000000, wld = demo_world, env = []\<rparr>"
  by (simp add: demo_daemon_def NewDaemon_def demo_callbacks_def DefaultTombTTL_def)

definition demo_policy :: kernel_policy where
  "demo_policy = \<lparr>kp_Mode = 1, kp_CommRules = [\<lparr>cr_Comm = ''sh'', cr_Priority = 5, cr_Mark = 7\<rparr>]\<rparr>"

lemma demo_policy_normal: "validateAndNormalizeKernelPolicy demo_policy = Inr demo_policy"
  by (simp add: validateAndNormalizeKernelPolicy_def demo_policy_def validateExactComm_def)

abbreviation init_key :: process_key where
  "init_key \<equiv> \<lparr>Tgid = 1, StartTime = 3\<rparr>"

abbreviation shell_key :: process_key where
  "shell_key \<equiv> \<lparr>Tgid = 42, StartTime = 77\<rparr>"

abbreviation init_info :: process_info where
  "init_info \<equiv> \<lparr>pi_Key = init_key, pi_PPID = 0, pi_Comm = ''init'', pi_Cmdline = '''', pi_Exe = ''''\<rparr>"

abbreviation shell_info :: process_info where
  "shell_info \<equiv> \<lparr>pi_Key = shell_key, pi_PPID = 1, pi_Comm = ''sh'', pi_Cmdline = '''', pi_Exe = ''''\<rparr>"

lemmas number_eval = ParseUint_def digit_val_def format_digits.simps digit_char_def

lemmas stat_eval = parseProcStat_def Fields_def space_len_def go_spaces_def starts_with_def
  flush_field_def number_eval

lemma init_stat_parse: "parseProcStat init_stat = Inr (0, 3)"
  by (simp add: init_stat_def stat_eval)

lemma shell_stat_parse: "parseProcStat shell_stat = Inr (1, 77)"
  by (simp add: shell_stat_def stat_eval)

lemma digit_chars: "char_of (49::nat) = CHR ''1''" "char_of (50::nat) = CHR ''2''"
  "char_of (52::nat) = CHR ''4''"
  by (simp_all add: char_of_def bit_0)

lemma demo_paths:
  "proc_path 1 name = ''/proc/1/'' @ name" "proc_path 42 name = ''/proc/42/'' @ name"
  by (simp_all add: proc_path_def number_eval digit_chars)

lemma demo_init_proc: "proc_of demo_fs 1 = Inr init_info"
  by (simp add: proc_of_def demo_fs_def demo_paths init_stat_parse trimProcLine_def TrimSuffix_def suffix_to_prefix)

lemma demo_shell_proc: "proc_of demo_fs 42 = Inr shell_info"
  by (simp add: proc_of_def demo_fs_def demo_paths shell_stat_parse trimProcLine_def TrimSuffix_def suffix_to_prefix)

lemma demo_listed: "listed demo_fs = Some [init_info, shell_info]"
proof -
  have "ParseUint 10 32 ''1'' = Inr 1" "ParseUint 10 32 ''42'' = Inr 42"
    by (simp_all add: number_eval)
  moreover have "fs_dir demo_fs = Some [(''1'', True), (''42'', True), (''uptime'', False)]"
    by (simp add: demo_fs_def)
  ultimately show ?thesis by (simp add: listed_def demo_init_proc demo_shell_proc)
qed

section \<open>States with tracked processes\<close>

definition shell_value :: process_value where
  "shell_value = \<lparr>Tombstone = False, Inheritance = True, HasMark = True, Priority = 5,
     Generation = 1, Mark = 7, Timestamp = 900\<rparr>"

definition shell_tomb :: process_value where
  "shell_tomb = shell_value\<lparr>Tombstone := True, Timestamp := 950\<rparr>"

text \<open>The daemon after it marked the shell, and after the shell has exited.\<close>

definition demo_marked :: "process_event list marker" where
  "demo_marked = demo_daemon\<lparr>mirror := [(shell_key, shell_value)],
     wld := demo_world\<lparr>k_processes := [(shell_key, shell_value)]\<rparr>\<rparr>"

definition demo_exited :: "process_event list marker" where
  "demo_exited = demo_daemon\<lparr>mirror := [(shell_key, shell_tomb)],
     wld := demo_world\<lparr>k_processes := [(shell_key, shell_tomb)]\<rparr>\<rparr>"

abbreviation child_key :: process_key where
  "child_key \<equiv> \<lparr>Tgid = 43, StartTime = 80\<rparr>"

definition demo_event :: "u32 \<Rightarrow> process_key \<Rightarrow> process_key \<Rightarrow> mark_event" where
  "demo_event type key parent =
     \<lparr>ev_Type = type, ev_Key = key, ev_ParentKey = parent, ev_Pid = Tgid key, ev_Ppid = Tgid parent,
      ev_HasMark = False, ev_Value = zero_value, ev_Comm = []\<rparr>"

lemma demo_event_fields [simp]:
  "ev_Type (demo_event type key parent) = type" "ev_Key (demo_event type key parent) = key"
  "ev_ParentKey (demo_event type key parent) = parent"
  "ev_HasMark (demo_event type key parent) = False"
  "ev_Value (demo_event type key parent) = zero_value"
  by (simp_all add: demo_event_def)

lemma demo_observed: "observed demo_check demo_daemon" "observed demo_check demo_marked"
  "observed demo_check demo_exited"
  by (simp_all add: observed_def demo_marked_def demo_exited_def demo_daemon_eq demo_callbacks_def)

lemma demo_maps_ok: "maps_ok demo_marked" "maps_ok demo_exited"
  by (simp_all add: maps_ok_def synced_def demo_marked_def demo_exited_def demo_daemon_eq
      demo_world_def no_faults_def wfmap_def)

lemma demo_mirror [simp]:
  "mirror demo_daemon = []" "mirror demo_marked = [(shell_key, shell_value)]"
  "mirror demo_exited = [(shell_key, shell_tomb)]"
  "generation demo_daemon = 1" "generation demo_marked = 1" "generation demo_exited = 1"
  "env demo_daemon = []" "env demo_marked = []" "env demo_exited = []"
  "tombTTL demo_marked = 60000000000" "tombTTL demo_exited = 60000000000"
  by (simp_all add: demo_marked_def demo_exited_def demo_daemon_eq)

lemma demo_now: "fst (nowBootNS (wld demo_marked)) = 1000" "fst (nowBootNS (wld demo_exited)) = 1000"
  by (simp_all add: nowBootNS_def demo_marked_def demo_exited_def demo_world_def)

end
