(* ===== verification/Fwmark.thy ===== *)
theory Fwmark
  imports Cleanup
begin

text \<open>
  Linux socket marks (\<^verbatim>\<open>fwmark/fwmark.go\<close>, \<^verbatim>\<open>fwmark/fwmark.c\<close>): the two conversions between
  daemon marks and socket marks and their text form, the reconciliation of the open sockets of
  a process, and the cgroup programs that mark new ones. A socket is an open file description;
  its mark is state, and everything else the system calls report (file descriptors, errors)
  is given by the n-th view of the system, so that it may change between two calls.
\<close>

section \<open>Conversions\<close>

definition FromMark :: "u64 \<Rightarrow> u32" where
  "FromMark mark = ucast (drop_bit 32 mark)"

definition ToMark :: "u32 \<Rightarrow> u64" where
  "ToMark fwmark = push_bit 32 (ucast fwmark)"

text \<open>\<^verbatim>\<open>fmt.Sprintf("0x%08x", mark)\<close>.\<close>

definition Format :: "u32 \<Rightarrow> string" where
  "Format mark =
     (let digits = format_digits 16 (unat mark)
      in ''0x'' @ replicate (8 - length digits) CHR ''0'' @ digits)"

definition Parse :: "string \<Rightarrow> num_error + u32" where
  "Parse markStr =
     (let markStr = TrimSpace markStr;
          markStr = (if starts_with ''0x'' markStr \<or> starts_with ''0X'' markStr
                     then drop 2 markStr else markStr)
      in case ParseUint 16 32 markStr of
           Inl e \<Rightarrow> Inl e
         | Inr val \<Rightarrow> Inr (word_of_nat val))"

section \<open>Sockets\<close>

datatype errno = ENOENT | EPERM | EACCES | ESRCH | EBADF | ENOTSOCK | EOTHER nat

text \<open>
  A view: the names in \<^verbatim>\<open>/proc/<pid>/fd\<close>, the outcome of \<^verbatim>\<open>pidfd_open\<close>, the file description
  \<^verbatim>\<open>pidfd_getfd\<close> hands out for a descriptor of the process, and the errors of reading
  \<^verbatim>\<open>SO_TYPE\<close>, reading \<^verbatim>\<open>SO_MARK\<close> and setting it.
\<close>

record fd_view =
  fv_dir :: "u32 \<Rightarrow> errno + string list"
  fv_pidfd :: "u32 \<Rightarrow> errno option"
  fv_getfd :: "u32 \<Rightarrow> int \<Rightarrow> errno + nat"
  fv_type :: "nat \<Rightarrow> errno option"
  fv_get :: "nat \<Rightarrow> errno option"
  fv_set :: "nat \<Rightarrow> errno option"

record sockets =
  sk_view :: "nat \<Rightarrow> fd_view"
  sk_calls :: nat
  sk_mark :: "nat \<Rightarrow> u32"

definition ask :: "(fd_view \<Rightarrow> 'a) \<Rightarrow> sockets \<Rightarrow> 'a \<times> sockets" where
  "ask f s = (f (sk_view s (sk_calls s)), s\<lparr>sk_calls := Suc (sk_calls s)\<rparr>)"

record socket_mark_report =
  FDs :: nat
  Sockets :: nat
  Marked :: nat
  AlreadyMarked :: nat
  PermissionSkipped :: nat

definition empty_report :: socket_mark_report where
  "empty_report = \<lparr>FDs = 0, Sockets = 0, Marked = 0, AlreadyMarked = 0, PermissionSkipped = 0\<rparr>"

datatype set_fd_result =
  setFDMarkSkipped | setFDMarkSocket | setFDMarkMarked | setFDMarkAlreadyMarked |
  setFDMarkPermissionSkipped

datatype fd_error = ErrGetfd errno | ErrSoType errno | ErrGetMark errno | ErrSetMark errno

datatype fwmark_error = ErrReadFDs errno | ErrPidfdOpen errno | ErrFDs "(int \<times> fd_error) list"

definition setProcessFDMark ::
    "u32 \<Rightarrow> int \<Rightarrow> u32 \<Rightarrow> sockets \<Rightarrow> (set_fd_result \<times> fd_error option) \<times> sockets" where
  "setProcessFDMark pid targetFD mark s =
     (let (fd, s) = ask (\<lambda>v. fv_getfd v pid targetFD) s
      in case fd of
           Inl e \<Rightarrow>
             if e = EPERM \<or> e = EACCES then ((setFDMarkPermissionSkipped, None), s)
             else if e = EBADF then ((setFDMarkSkipped, None), s)
             else ((setFDMarkSkipped, Some (ErrGetfd e)), s)
         | Inr fd \<Rightarrow>
             (let (err, s) = ask (\<lambda>v. fv_type v fd) s
              in case err of
                   Some e \<Rightarrow>
                     if e = ENOTSOCK then ((setFDMarkSkipped, None), s)
                     else ((setFDMarkSkipped, Some (ErrSoType e)), s)
                 | None \<Rightarrow>
                     (let (err, s) = ask (\<lambda>v. fv_get v fd) s
                      in case err of
                           Some e \<Rightarrow> ((setFDMarkSocket, Some (ErrGetMark e)), s)
                         | None \<Rightarrow>
                             if sk_mark s fd = mark then ((setFDMarkAlreadyMarked, None), s)
                             else
                               (let (err, s) = ask (\<lambda>v. fv_set v fd) s
                                in case err of
                                     Some e \<Rightarrow> ((setFDMarkSocket, Some (ErrSetMark e)), s)
                                   | None \<Rightarrow>
                                       ((setFDMarkMarked, None),
                                        s\<lparr>sk_mark := (sk_mark s)(fd := mark)\<rparr>)))))"

definition count_result :: "set_fd_result \<Rightarrow> socket_mark_report \<Rightarrow> socket_mark_report" where
  "count_result result report =
     (case result of
        setFDMarkSkipped \<Rightarrow> report
      | setFDMarkSocket \<Rightarrow> report\<lparr>Sockets := Sockets report + 1\<rparr>
      | setFDMarkMarked \<Rightarrow>
          report\<lparr>Sockets := Sockets report + 1, Marked := Marked report + 1\<rparr>
      | setFDMarkAlreadyMarked \<Rightarrow>
          report\<lparr>Sockets := Sockets report + 1, AlreadyMarked := AlreadyMarked report + 1\<rparr>
      | setFDMarkPermissionSkipped \<Rightarrow>
          report\<lparr>PermissionSkipped := PermissionSkipped report + 1\<rparr>)"

fun fd_loop ::
    "u32 \<Rightarrow> u32 \<Rightarrow> string list \<Rightarrow> socket_mark_report \<Rightarrow> (int \<times> fd_error) list \<Rightarrow> sockets \<Rightarrow>
     (socket_mark_report \<times> (int \<times> fd_error) list) \<times> sockets" where
  "fd_loop pid mark [] report errs s = ((report, errs), s)"
| "fd_loop pid mark (fdName # fdNames) report errs s =
     (case Atoi fdName of
        Inl _ \<Rightarrow> fd_loop pid mark fdNames report errs s
      | Inr targetFD \<Rightarrow>
          (let ((result, err), s) = setProcessFDMark pid targetFD mark s
           in fd_loop pid mark fdNames (count_result result report)
                (case err of None \<Rightarrow> errs | Some e \<Rightarrow> errs @ [(targetFD, e)]) s))"

definition SetProcessSocketsMarkReport ::
    "u32 \<Rightarrow> u32 \<Rightarrow> sockets \<Rightarrow> (socket_mark_report \<times> fwmark_error option) \<times> sockets" where
  "SetProcessSocketsMarkReport pid mark s =
     (let (dir, s) = ask (\<lambda>v. fv_dir v pid) s
      in case dir of
           Inl e \<Rightarrow>
             if e = ENOENT \<or> e = EPERM \<or> e = EACCES then ((empty_report, None), s)
             else ((empty_report, Some (ErrReadFDs e)), s)
         | Inr fdNames \<Rightarrow>
             (let report = empty_report\<lparr>FDs := length fdNames\<rparr>;
                  (err, s) = ask (\<lambda>v. fv_pidfd v pid) s
              in case err of
                   Some e \<Rightarrow>
                     if e = ESRCH \<or> e = EPERM \<or> e = EACCES then ((report, None), s)
                     else ((report, Some (ErrPidfdOpen e)), s)
                 | None \<Rightarrow>
                     (let ((report, errs), s) = fd_loop pid mark fdNames report [] s
                      in ((report, if errs = [] then None else Some (ErrFDs errs)), s))))"

definition SetProcessSocketsMark :: "u32 \<Rightarrow> u32 \<Rightarrow> sockets \<Rightarrow> fwmark_error option \<times> sockets" where
  "SetProcessSocketsMark pid mark s =
     (let ((_, err), s) = SetProcessSocketsMarkReport pid mark s in (err, s))"

section \<open>Process updates\<close>

text \<open>The manager's view: \<^verbatim>\<open>/proc\<close> and the pinned process map, and the sockets.\<close>

record fw_state =
  fw_os :: world
  fw_sk :: sockets

datatype fwmark_log =
    LogReconciled u32 u32 socket_mark_report
  | LogUpdateFailed process_key fwmark_error

text \<open>The copy of the stat parser in this package.\<close>

definition fwmark_parseProcStat :: "string \<Rightarrow> proc_error + (u32 \<times> u64)" where
  "fwmark_parseProcStat stat =
     (case last_index (CHR '')'') stat of
        None \<Rightarrow> Inl ErrMalformedStat
      | Some end \<Rightarrow>
          if end + 2 \<ge> length stat then Inl ErrMalformedStat
          else
            (let fields = Fields (drop (end + 2) stat)
             in if length fields < 20 then Inl ErrShortStat
                else case ParseUint 10 32 (fields ! 1) of
                       Inl e \<Rightarrow> Inl (ErrNumber e)
                     | Inr ppid \<Rightarrow>
                         (case ParseUint 10 64 (fields ! 19) of
                            Inl e \<Rightarrow> Inl (ErrNumber e)
                          | Inr startTime \<Rightarrow> Inr (word_of_nat ppid, word_of_nat startTime))))"

definition processMatchesKey :: "process_key \<Rightarrow> world \<Rightarrow> bool \<times> world" where
  "processMatchesKey key w =
     (let (stat, w) = ReadFile (proc_path (Tgid key) ''stat'') w
      in case stat of
           None \<Rightarrow> (False, w)
         | Some text \<Rightarrow>
             (case fwmark_parseProcStat text of
                Inl _ \<Rightarrow> (False, w)
              | Inr (_, startTime) \<Rightarrow> (startTime = StartTime key, w)))"

definition update_mark :: "process_value \<Rightarrow> u32" where
  "update_mark value = (if HasMark value then FromMark (Mark value) else 0)"

definition applyProcessUpdate ::
    "process_key \<times> process_value \<Rightarrow> bool \<Rightarrow> fw_state \<Rightarrow>
     (fwmark_error option \<times> fwmark_log list) \<times> fw_state" where
  "applyProcessUpdate update logReport st =
     (let (key, value) = update
      in if Tombstone value then ((None, []), st)
         else
           (let (matches, os) = processMatchesKey key (fw_os st); st = st\<lparr>fw_os := os\<rparr>
            in if \<not> matches then ((None, []), st)
               else
                 (let mark = update_mark value;
                      ((report, err), sk) = SetProcessSocketsMarkReport (Tgid key) mark (fw_sk st);
                      logs = (if logReport \<and> (Marked report > 0 \<or> PermissionSkipped report > 0)
                              then [LogReconciled (Tgid key) mark report] else [])
                  in ((err, logs), st\<lparr>fw_sk := sk\<rparr>))))"

text \<open>The hook the command installs: an error is logged.\<close>

definition ProcessUpdateCallback ::
    "process_key \<times> process_value \<Rightarrow> fw_state \<Rightarrow> fwmark_log list \<times> fw_state" where
  "ProcessUpdateCallback update st =
     (let ((err, logs), st) = applyProcessUpdate update True st
      in (logs @ (case err of None \<Rightarrow> [] | Some e \<Rightarrow> [LogUpdateFailed (fst update) e]), st))"

text \<open>
  The reconciliation of all marked entries of the process map. The map is read as one snapshot;
  the errors are those of the processes and whether the iteration was cut short.
\<close>

fun reconcile_loop ::
    "(process_key \<times> process_value) list \<Rightarrow> fwmark_error list \<Rightarrow> fwmark_log list \<Rightarrow> fw_state \<Rightarrow>
     (fwmark_error list \<times> fwmark_log list) \<times> fw_state" where
  "reconcile_loop [] errs logs st = ((errs, logs), st)"
| "reconcile_loop ((key, value) # entries) errs logs st =
     (if Tombstone value \<or> \<not> HasMark value then reconcile_loop entries errs logs st
      else
        (let ((err, new), st) = applyProcessUpdate (key, value) True st
         in reconcile_loop entries
              (errs @ (case err of None \<Rightarrow> [] | Some e \<Rightarrow> [e])) (logs @ new) st))"

definition ReconcileMarkedProcesses ::
    "fw_state \<Rightarrow> ((fwmark_error list \<times> bool) \<times> fwmark_log list) \<times> fw_state" where
  "ReconcileMarkedProcesses st =
     (let ((entries, iterErr), os) = processes_Iterate (fw_os st);
          ((errs, logs), st) = reconcile_loop entries [] [] (st\<lparr>fw_os := os\<rparr>)
      in (((errs, iterErr), logs), st))"

section \<open>The cgroup programs\<close>

record task_struct =
  tk_tgid :: u32
  tk_start_boottime :: u64

definition current_process_key :: "task_struct \<Rightarrow> task_struct option \<Rightarrow> process_key" where
  "current_process_key task group_leader =
     (let leader = (case group_leader of None \<Rightarrow> task | Some l \<Rightarrow> l)
      in \<lparr>Tgid = tk_tgid leader, StartTime = tk_start_boottime leader div NSEC_PER_USER_TICK\<rparr>)"

definition current_process_fwmark ::
    "(process_key, process_value) gomap \<Rightarrow> process_key \<Rightarrow> bool \<times> u32" where
  "current_process_fwmark procs key =
     (case mget procs key of
        None \<Rightarrow> (False, 0)
      | Some value \<Rightarrow>
          if Tombstone value \<or> \<not> HasMark value then (False, 0)
          else (let fwmark = ucast (drop_bit 32 (Mark value)) in (fwmark \<noteq> 0, fwmark)))"

text \<open>The mark of a new socket, given the one the context holds.\<close>

definition fwmark_sock_create ::
    "(process_key, process_value) gomap \<Rightarrow> process_key \<Rightarrow> u32 \<Rightarrow> u32" where
  "fwmark_sock_create procs key mark =
     (let (found, fwmark) = current_process_fwmark procs key in if found then fwmark else mark)"

text \<open>
  Whether a connection is let through and the mark of its socket; the argument \<open>ok\<close> is the
  outcome of \<^verbatim>\<open>bpf_setsockopt\<close>.
\<close>

definition apply_current_process_fwmark ::
    "(process_key, process_value) gomap \<Rightarrow> process_key \<Rightarrow> bool \<Rightarrow> u32 \<Rightarrow> bool \<times> u32" where
  "apply_current_process_fwmark procs key ok mark =
     (let (found, fwmark) = current_process_fwmark procs key
      in if \<not> found then (True, mark) else if ok then (True, fwmark) else (False, mark))"

section \<open>Round trips\<close>

lemma FromMark_ToMark: "FromMark (ToMark fwmark) = fwmark"
  by (rule bit_word_eqI)
    (simp add: FromMark_def ToMark_def bit_ucast_iff bit_drop_bit_eq bit_push_bit_iff)

lemma ToMark_FromMark: "ToMark (FromMark mark) = mark AND NOT (mask 32)"
  by (rule bit_word_eqI)
    (auto simp: FromMark_def ToMark_def bit_ucast_iff bit_drop_bit_eq bit_push_bit_iff bit_mask_iff
      bit_and_iff bit_not_iff dest: bit_imp_le_length)

lemma Parse_Format: "Parse (Format mark) = Inr mark"
proof -
  let ?digits = "format_digits 16 (unat mark)"
  let ?zeros = "replicate (8 - length ?digits) CHR ''0''"
  have fmt: "Format mark = CHR ''0'' # CHR ''x'' # ?zeros @ ?digits" by (simp add: Format_def Let_def)
  have "\<forall>c \<in> set (Format mark). plain c"
    by (auto simp: fmt plain_def [of "CHR ''0''"] plain_def [of "CHR ''x''"]
        intro: plain_format_digits [of 16])
  then have trim: "TrimSpace (Format mark) = Format mark" by (rule TrimSpace_plain)
  have "unat mark < 2 ^ 32" using unsigned_less [of mark] by simp
  then have "parse_digits 16 32 0 (?zeros @ ?digits) = Inr (unat mark)"
    by (simp add: parse_digits_zeros parse_format_digits)
  moreover have "?zeros @ ?digits \<noteq> []" by simp
  ultimately show ?thesis
    by (simp add: Parse_def trim Let_def) (simp add: fmt starts_with_def ParseUint_def)
qed

section \<open>What reconciling a process does\<close>

definition static_fds :: "fd_view \<Rightarrow> sockets \<Rightarrow> bool" where
  "static_fds v s \<longleftrightarrow> (\<forall>n \<ge> sk_calls s. sk_view s n = v)"

lemma ask_static:
  "static_fds v s \<Longrightarrow> fst (ask f s) = f v" "static_fds v s \<Longrightarrow> static_fds v (snd (ask f s))"
  by (simp_all add: ask_def static_fds_def)

lemma ask_frame [simp]: "sk_mark (snd (ask f s)) = sk_mark s"
  by (simp_all add: ask_def static_fds_def)

lemma static_fds_mark [simp]: "static_fds v (s\<lparr>sk_mark := marks\<rparr>) = static_fds v s"
  by (simp add: static_fds_def)

text \<open>The sockets a process holds, by the descriptors its directory names.\<close>

definition process_sockets :: "fd_view \<Rightarrow> u32 \<Rightarrow> string list \<Rightarrow> nat set" where
  "process_sockets v pid names =
     {fd. \<exists>name \<in> set names. \<exists>n. Atoi name = Inr n \<and> fv_getfd v pid n = Inr fd \<and> fv_type v fd = None}"

text \<open>A view in which socket marks can be read and set.\<close>

definition markable :: "fd_view \<Rightarrow> bool" where
  "markable v \<longleftrightarrow> (\<forall>fd. fv_type v fd = None \<longrightarrow> fv_get v fd = None \<and> fv_set v fd = None)"

lemma setProcessFDMark_static:
  assumes "static_fds v s" "markable v"
  shows "static_fds v (snd (setProcessFDMark pid n mark s))"
    and "sk_mark (snd (setProcessFDMark pid n mark s)) =
      (case fv_getfd v pid n of
         Inl _ \<Rightarrow> sk_mark s
       | Inr fd \<Rightarrow> if fv_type v fd = None then (sk_mark s)(fd := mark) else sk_mark s)"
  using assms
  by (auto simp: setProcessFDMark_def markable_def ask_static [where v = v] split_beta Let_def fun_upd_idem
      split: sum.splits option.splits)

lemma process_sockets_Cons:
  "process_sockets v pid (name # names) =
     (case Atoi name of
        Inl _ \<Rightarrow> {}
      | Inr n \<Rightarrow> (case fv_getfd v pid n of
            Inl _ \<Rightarrow> {} | Inr fd \<Rightarrow> if fv_type v fd = None then {fd} else {})) \<union>
     process_sockets v pid names"
  by (auto simp: process_sockets_def split: sum.splits)

lemma fd_loop_marks:
  assumes "static_fds v s" "markable v"
  shows "sk_mark (snd (fd_loop pid mark names report errs s)) =
    (\<lambda>fd. if fd \<in> process_sockets v pid names then mark else sk_mark s fd)"
  using assms(1)
proof (induction names arbitrary: report errs s)
  case Nil
  then show ?case by (simp add: process_sockets_def)
next
  case (Cons name names)
  show ?case
  proof (cases "Atoi name")
    case (Inl e)
    then show ?thesis using Cons by (simp add: process_sockets_Cons)
  next
    case (Inr n)
    note step = setProcessFDMark_static [OF Cons.prems assms(2), of pid n mark]
    from Inr step Cons.IH [OF step(1)] show ?thesis
      by (auto simp: process_sockets_Cons split_beta split: sum.splits)
  qed
qed

text \<open>The counters, whatever the system calls return.\<close>

definition report_ok :: "nat \<Rightarrow> socket_mark_report \<Rightarrow> bool" where
  "report_ok n r \<longleftrightarrow> Sockets r + PermissionSkipped r \<le> n \<and> Marked r + AlreadyMarked r \<le> Sockets r"

lemma report_ok_count: "report_ok n r \<Longrightarrow> report_ok (Suc n) (count_result result r)"
  by (simp add: report_ok_def count_result_def split: set_fd_result.split)

lemma report_ok_Suc: "report_ok n r \<Longrightarrow> report_ok (Suc n) r"
  by (simp add: report_ok_def)

lemma fd_loop_report:
  "report_ok n r \<Longrightarrow> report_ok (n + length names) (fst (fst (fd_loop pid mark names r errs s)))"
proof (induction names arbitrary: n r errs s)
  case (Cons name names)
  show ?case
    using Cons.IH [OF report_ok_count [OF Cons.prems]] Cons.IH [OF report_ok_Suc [OF Cons.prems]]
    by (auto simp: split_beta split: sum.split)
qed simp

lemma fd_loop_FDs: "FDs (fst (fst (fd_loop pid mark names r errs s))) = FDs r"
  by (induction names arbitrary: r errs s)
    (auto simp: split_beta count_result_def split: sum.split set_fd_result.split)

lemma report_bounds:
  "report_ok (FDs (fst (fst (SetProcessSocketsMarkReport pid mark s))))
     (fst (fst (SetProcessSocketsMarkReport pid mark s)))"
proof -
  have "report_ok (length names) (fst (fst (fd_loop pid mark names
      (empty_report\<lparr>FDs := length names\<rparr>) [] s)))" for names s
    using fd_loop_report [of 0 "empty_report\<lparr>FDs := length names\<rparr>"]
    by (simp add: report_ok_def empty_report_def)
  then show ?thesis
    by (auto simp: SetProcessSocketsMarkReport_def split_beta Let_def fd_loop_FDs
        split: sum.split option.split) (simp_all add: report_ok_def empty_report_def)
qed

text \<open>A process whose sockets all bear the mark is left alone.\<close>

lemma fd_loop_idle:
  assumes "static_fds v s" "markable v" "\<forall>fd \<in> process_sockets v pid names. sk_mark s fd = mark"
  shows "Marked (fst (fst (fd_loop pid mark names r errs s))) = Marked r"
  using assms(1,3)
proof (induction names arbitrary: r errs s)
  case (Cons name names)
  show ?case
  proof (cases "Atoi name")
    case (Inl e)
    then show ?thesis using Cons by (simp add: process_sockets_Cons)
  next
    case (Inr n)
    note step = setProcessFDMark_static [OF Cons.prems(1) assms(2), of pid n mark]
    have rest: "\<forall>fd \<in> process_sockets v pid names.
        sk_mark (snd (setProcessFDMark pid n mark s)) fd = mark"
      using Cons.prems(2) step(2) by (auto simp: process_sockets_Cons split: sum.splits)
    have "fst (fst (setProcessFDMark pid n mark s)) \<noteq> setFDMarkMarked"
      using Cons.prems assms(2) Inr
      by (auto simp: setProcessFDMark_def process_sockets_Cons markable_def ask_static [where v = v] split_beta Let_def
          split: sum.splits option.splits)
    then have "Marked (count_result (fst (fst (setProcessFDMark pid n mark s))) r) = Marked r"
      by (simp add: count_result_def split: set_fd_result.split)
    with Inr Cons.IH [OF step(1) rest] show ?thesis by (simp add: split_beta)
  qed
qed simp

section \<open>What an update does\<close>

lemma fwmark_parse_same: "fwmark_parseProcStat = parseProcStat"
  by (simp add: fun_eq_iff fwmark_parseProcStat_def parseProcStat_def)

lemma processMatchesKey_static: "static_fs fs w \<Longrightarrow> fst (processMatchesKey key w) = shown fs key"
  by (auto simp: processMatchesKey_def shown_def fwmark_parse_same look_fs_static(1) [of fs]
      split_beta Let_def split: option.split sum.split)

lemma SetProcessSockets_marks:
  assumes "static_fds v s" "markable v" "fv_dir v pid = Inr names" "fv_pidfd v pid = None"
  shows "sk_mark (snd (SetProcessSocketsMarkReport pid mark s)) =
    (\<lambda>fd. if fd \<in> process_sockets v pid names then mark else sk_mark s fd)"
  using assms
  by (simp add: SetProcessSocketsMarkReport_def ask_static [where v = v] fd_loop_marks [of v]
      split_beta Let_def cong: if_cong)

lemma fd_loop_static:
  "static_fds v s \<Longrightarrow> markable v \<Longrightarrow> static_fds v (snd (fd_loop pid mark names r errs s))"
  by (induction names arbitrary: r errs s) (auto simp: split_beta setProcessFDMark_static(1) split: sum.split)

lemma SetProcessSockets_static:
  "static_fds v s \<Longrightarrow> markable v \<Longrightarrow> static_fds v (snd (SetProcessSocketsMarkReport pid mark s))"
  by (auto simp: SetProcessSocketsMarkReport_def ask_static [where v = v] fd_loop_static split_beta Let_def
      split: sum.split option.split)

lemma SetProcessSockets_idle:
  assumes "static_fds v s" "markable v" "fv_dir v pid = Inr names" "fv_pidfd v pid = None"
    and "\<forall>fd \<in> process_sockets v pid names. sk_mark s fd = mark"
  shows "Marked (fst (fst (SetProcessSocketsMarkReport pid mark s))) = 0"
  using assms
  by (simp add: SetProcessSocketsMarkReport_def ask_static [where v = v] fd_loop_idle [of v]
      split_beta Let_def empty_report_def cong: if_cong)

lemma applyProcessUpdate_marks:
  assumes "static_fs fs (fw_os st)" "static_fds v (fw_sk st)" "markable v"
    and "fv_dir v (Tgid key) = Inr names" "fv_pidfd v (Tgid key) = None"
  shows "sk_mark (fw_sk (snd (applyProcessUpdate (key, value) logReport st))) =
    (\<lambda>fd. if \<not> Tombstone value \<and> shown fs key \<and> fd \<in> process_sockets v (Tgid key) names
          then update_mark value else sk_mark (fw_sk st) fd)"
  using assms
  by (simp add: applyProcessUpdate_def processMatchesKey_static [of fs] SetProcessSockets_marks [of v]
      split_beta Let_def cong: if_cong)

text \<open>What the programs make of a socket of a process, given the mark it has and whether it can be set.\<close>

lemma programs_agree:
  assumes "mget procs key = Some value" "\<not> Tombstone value"
  shows "fwmark_sock_create procs key mark = (if update_mark value = 0 then mark else update_mark value)"
    and "apply_current_process_fwmark procs key ok mark =
      (if update_mark value = 0 then (True, mark) else if ok then (True, update_mark value) else (False, mark))"
  using assms
  by (auto simp: fwmark_sock_create_def apply_current_process_fwmark_def
      current_process_fwmark_def update_mark_def FromMark_def Let_def)

end
