(* ===== verification/UserExamples.thy ===== *)
theory UserExamples
  imports Examples Fwmark Matcher
begin

text \<open>
  Concrete states for the components above the daemon: the sockets of the shell, a parser for
  anchored and plain literals, and the inputs at which the kernel rules and the checker of the
  command line differ.
\<close>

section \<open>Sockets of the shell\<close>

text \<open>Descriptor 3 of the shell is a socket, descriptor 0 is not.\<close>

definition demo_view :: fd_view where
  "demo_view = \<lparr>fv_dir = (\<lambda>pid. if pid = 42 then Inr [''0'', ''3''] else Inl ENOENT),
     fv_pidfd = (\<lambda>pid. None),
     fv_getfd = (\<lambda>pid fd. if pid = 42 \<and> 0 \<le> fd \<and> fd < 4 then Inr (nat fd) else Inl EBADF),
     fv_type = (\<lambda>fd. if fd = 3 then None else Some ENOTSOCK), fv_get = (\<lambda>fd. None), fv_set = (\<lambda>fd. None)\<rparr>"

definition demo_sockets :: fw_state where
  "demo_sockets = \<lparr>fw_os = demo_world,
     fw_sk = \<lparr>sk_view = (\<lambda>n. demo_view), sk_calls = 0, sk_mark = (\<lambda>fd. 0)\<rparr>\<rparr>"

lemma demo_sockets_static: "static_fs demo_fs (fw_os demo_sockets)" "static_fds demo_view (fw_sk demo_sockets)"
  "markable demo_view"
  by (simp_all add: demo_sockets_def demo_static static_fds_def markable_def demo_view_def)

lemma demo_sockets_unmarked: "sk_mark (fw_sk demo_sockets) fd = 0"
  by (simp add: demo_sockets_def)

lemma demo_shell_sockets: "fd \<in> process_sockets demo_view 42 [''0'', ''3''] \<longleftrightarrow> fd = 3"
  by (auto simp: process_sockets_def demo_view_def ParseInt_def number_eval)

lemma demo_shell_shown: "shown demo_fs shell_key"
  by (simp add: shown_def demo_fs_def demo_paths shell_stat_parse)

section \<open>Expressions\<close>

text \<open>A parser of literals, anchored at both ends or not.\<close>

definition demo_parse :: "string \<Rightarrow> string + regexp" where
  "demo_parse p =
     (if length p \<ge> 2 \<and> hd p = CHR ''^'' \<and> last p = CHR ''$''
      then let mid = butlast (tl p)
           in Inr (OpConcat (OpBeginText #
                (if mid = '''' then [] else [OpLiteral False (decode_bytes (bytes_of mid))]) @ [OpEndText]))
      else Inr (OpLiteral False (decode_bytes (bytes_of p))))"

definition demo_rules :: "string \<Rightarrow> default_check_rules" where
  "demo_rules comm = \<lparr>RuleComm = comm, RuleCmd = '''', RuleExe = '''', RulePPID = ''''\<rparr>"

lemma demo_rules_fields [simp]:
  "RuleComm (demo_rules comm) = comm" "RuleCmd (demo_rules comm) = []" "RuleExe (demo_rules comm) = []"
  "RulePPID (demo_rules comm) = []"
  by (simp_all add: demo_rules_def)

lemmas text_eval = TrimSpace_def trim_by.simps space_len_def space_len_back_def go_spaces_def starts_with_def

lemma demo_lists: "splitRegexpList '''' = []" "splitRegexpList ''^sh$'' = [''^sh$'']" "splitRegexpList ''^$'' = [''^$'']"
  by (simp_all add: splitRegexpList_def text_eval)

lemma runes_ascii: "\<forall>c \<in> set s. (of_char c :: nat) < 128 \<Longrightarrow> runes_of s = bytes_of s"
proof -
  have "\<forall>b \<in> set bs. b < 128 \<Longrightarrow> decode_bytes bs = bs" for bs :: "nat list"
    by (induction bs) (simp_all add: decode_bytes.simps)
  then show "\<forall>c \<in> set s. (of_char c :: nat) < 128 \<Longrightarrow> runes_of s = bytes_of s"
    by (simp add: runes_of_def bytes_of_def)
qed

lemma demo_parse_shell: "demo_parse ''^sh$'' = Inr (OpConcat [OpBeginText, OpLiteral False [115, 104], OpEndText])"
  "demo_parse ''^$'' = Inr (OpConcat [OpBeginText, OpEndText])"
  using runes_ascii [of "''sh''"] by (simp_all add: demo_parse_def runes_of_def bytes_of_def)

lemma demo_exact: "ExactCommFromRegexp demo_parse ''^sh$'' = Inr (''sh'', True)"
  "ExactCommFromRegexp demo_parse ''^$'' = Inr ('''', True)"
  by (simp_all add: ExactCommFromRegexp_def demo_parse_shell exact_comm_of_def string_of_runes_def encode_rune_def
      validateExactComm_def char_of_def bit_0 bit_Suc)

lemma demo_items: "fallback_items (demo_rules comm) = []"
  by (simp add: fallback_items_def demo_lists)

lemma parsePPIDRules_Nil: "parsePPIDRules [] = Inr []"
  by (simp add: parsePPIDRules_def text_eval)

text \<open>The rules that match the shell by name compile to an authoritative policy.\<close>

abbreviation shell_re :: regexp where
  "shell_re \<equiv> OpConcat [OpBeginText, OpLiteral False [115, 104], OpEndText]"

lemma demo_matcher:
  "compileDefaultCheckRules demo_parse (demo_rules ''^sh$'') =
     Inr \<lparr>dm_comm = [shell_re], dm_cmd = [], dm_exe = [], dm_ppid = []\<rparr>"
  "compileDefaultCheckRules demo_parse (demo_rules ''^$'') =
     Inr \<lparr>dm_comm = [OpConcat [OpBeginText, OpEndText]], dm_cmd = [], dm_exe = [], dm_ppid = []\<rparr>"
  by (simp_all add: compileDefaultCheckRules_def compileRegexpList_def demo_lists demo_parse_shell
      parsePPIDRules_Nil)

lemma demo_compiled:
  "\<exists>c. compileDefaultKernelPolicy demo_parse same (demo_rules ''^sh$'') 5 7 = Inr c \<and>
     cp_Policy c = \<lparr>kp_Mode = 2, kp_CommRules = [\<lparr>cr_Comm = ''sh'', cr_Priority = 5, cr_Mark = 7\<rparr>]\<rparr>"
  by (simp add: compileDefaultKernelPolicy_def defaultCheck_def demo_matcher demo_items Let_def demo_lists demo_exact
      policy_mode_def)

lemma demo_plain: "plain_patterns demo_parse (demo_rules ''^sh$'')"
  by (simp add: plain_patterns_def demo_lists demo_parse_shell plain_runes_def rune_valid_def)

section \<open>Where the kernel rules and the checker differ\<close>

text \<open>
  The pattern \<open>^$\<close> is promoted to a rule for the empty name, which the kernel matches; the
  checker never matches an empty name.
\<close>

lemma empty_name_differs:
  "\<exists>c. compileDefaultKernelPolicy demo_parse same (demo_rules ''^$'') 5 7 = Inr c \<and>
     exactCommCheck (kp_CommRules (cp_Policy c)) (shell_info\<lparr>pi_Comm := ''''\<rparr>) = (5, 7, True) \<and>
     cp_Check c (shell_info\<lparr>pi_Comm := ''''\<rparr>) = (5, 7, False)"
  by (simp add: compileDefaultKernelPolicy_def defaultCheck_def demo_matcher demo_items Let_def demo_lists demo_exact
      policy_mode_def exactCommCheck_def hasRules_def matcher_matches_def anyRegexpMatches_def)

text \<open>
  A literal \<^verbatim>\<open>U+FFFD\<close> is promoted to its three bytes, while the expression also matches a
  single byte that is not UTF-8.
\<close>

lemma replacement_rune_differs:
  "exact_comm_of (OpConcat [OpBeginText, OpLiteral False [0xFFFD], OpEndText]) =
     ([CHR 0xEF, CHR 0xBF, CHR 0xBD], True)"
  "MatchString same (OpConcat [OpBeginText, OpLiteral False [0xFFFD], OpEndText]) [CHR 0xFF]"
proof -
  show "exact_comm_of (OpConcat [OpBeginText, OpLiteral False [0xFFFD], OpEndText]) =
     ([CHR 0xEF, CHR 0xBF, CHR 0xBD], True)"
    by (simp add: exact_comm_of_def string_of_runes_def encode_rune_def rune_valid_def validateExactComm_def
        char_of_def bit_0 bit_Suc)
  have "runes_of [CHR 0xFF] = [0xFFFD]"
    by (simp add: runes_of_def bytes_of_def decode_bytes.simps)
  then show "MatchString same (OpConcat [OpBeginText, OpLiteral False [0xFFFD], OpEndText]) [CHR 0xFF]"
    using exact_runes [of same "[[0xFFFD]]"] by simp
qed

text \<open>No promoted name is a byte that no name in UTF-8 consists of, so the kernel has no rule for it.\<close>

lemma promoted_not_byte: "exact_comm_of re = (name, True) \<Longrightarrow> name \<noteq> [CHR 0xFF]"
proof
  assume "exact_comm_of re = (name, True)" "name = [CHR 0xFF]"
  then obtain rss where "string_of_runes (concat rss) = [CHR 0xFF]" by (metis exact_comm_of_True)
  then have "concat (map encode_rune (concat rss)) = bytes_of [CHR 0xFF]"
    by (metis bytes_of_string_of_runes)
  then have one: "concat (map encode_rune (concat rss)) = [255]" by (simp add: bytes_of_def)
  then obtain r rs where rs: "concat rss = r # rs" by (cases "concat rss") auto
  then have "encode_rune r @ concat (map encode_rune rs) = [255]" using one by simp
  then show False by (auto simp: encode_rune_def append_eq_Cons_conv split: if_splits)
qed

lemma byte_unmarked:
  assumes "compileDefaultKernelPolicy parse same rules priority mark = Inr c"
    and "validateAndNormalizeKernelPolicy (cp_Policy c) = Inr p"
  shows "mget (rule_entries g (kp_CommRules p)) \<lparr>rk_Generation = g, rk_Comm = comm_bytes [CHR 0xFF]\<rparr> = None"
proof -
  have kr: "kp_CommRules (cp_Policy c) =
      map (promoted_rule priority mark) (List.map_filter (exact_name parse) (splitRegexpList (RuleComm rules)))"
    using assms(1) by (rule compile_parts)
  have "exact_name parse pattern \<noteq> Some [CHR 0xFF]" for pattern
    using promoted_not_byte by (auto elim!: exact_name_Some)
  then have "[CHR 0xFF] \<notin> set (List.map_filter (exact_name parse) (splitRegexpList (RuleComm rules)))"
    by (auto simp: List.map_filter_def)
  moreover have "validateExactComm [CHR 0xFF] = None" by (simp add: validateExactComm_def)
  ultimately show ?thesis by (simp add: lookup_decides [OF assms(2)] kr promoted_deciding)
qed

text \<open>The expressions that are promoted to the empty name and to the bytes of \<^verbatim>\<open>U+FFFD\<close>, as patterns.\<close>

abbreviation empty_re :: regexp where
  "empty_re \<equiv> OpConcat [OpBeginText, OpEndText]"

abbreviation replacement_re :: regexp where
  "replacement_re \<equiv> OpConcat [OpBeginText, OpLiteral False [0xFFFD], OpEndText]"

lemma limit_names:
  "parse pattern = Inr empty_re \<Longrightarrow> exact_name parse pattern = Some ''''"
  "parse pattern = Inr replacement_re \<Longrightarrow> exact_name parse pattern = Some [CHR 0xEF, CHR 0xBF, CHR 0xBD]"
  using replacement_rune_differs(1)
  by (simp_all add: exact_name_def ExactCommFromRegexp_def) (simp add: exact_comm_of_def string_of_runes_def validateExactComm_def)

abbreviation replacement_pattern :: string where
  "replacement_pattern \<equiv> [CHR ''^'', CHR 0xEF, CHR 0xBF, CHR 0xBD, CHR ''$'']"

abbreviation limit_patterns :: string where
  "limit_patterns \<equiv> [CHR ''^'', CHR ''$'', CHR '','', CHR ''^'', CHR 0xEF, CHR 0xBF, CHR 0xBD, CHR ''$'']"

lemma demo_limit_patterns: "splitRegexpList limit_patterns = [''^$'', replacement_pattern]"
  by (simp add: splitRegexpList_def text_eval)

lemma demo_parse_replacement: "demo_parse replacement_pattern = Inr replacement_re"
proof -
  have "runes_of (string_of_runes [0xFFFD]) = [0xFFFD]" by (rule runes_of_string) (simp add: rune_valid_def)
  moreover have "string_of_runes [0xFFFD] = [CHR 0xEF, CHR 0xBF, CHR 0xBD]"
    by (simp add: string_of_runes_def encode_rune_def rune_valid_def char_of_def bit_0 bit_Suc)
  ultimately show ?thesis by (simp add: demo_parse_def runes_of_def)
qed

lemma demo_limits:
  "\<exists>c. compileDefaultKernelPolicy demo_parse same (demo_rules limit_patterns) 5 7 = Inr c \<and>
     validateAndNormalizeKernelPolicy (cp_Policy c) = Inr (cp_Policy c) \<and>
     kp_Mode (cp_Policy c) = KernelPolicyAuthoritative"
  by (simp add: compileDefaultKernelPolicy_def defaultCheck_def compileDefaultCheckRules_def compileRegexpList_def
      demo_limit_patterns demo_parse_shell demo_parse_replacement parsePPIDRules_Nil demo_items demo_lists Let_def
      ExactCommFromRegexp_def replacement_rune_differs(1) exact_comm_of_def [of empty_re] string_of_runes_def
      policy_mode_def validateAndNormalizeKernelPolicy_def validateExactComm_def)

text \<open>
  The base name of an unreadable executable is \<^verbatim>\<open>"."\<close>: an expression on executables that
  matches it matches every process without one.
\<close>

lemma missing_exe_matches:
  "matcher_matches same \<lparr>dm_comm = [], dm_cmd = [], dm_exe = [OpAnyChar], dm_ppid = []\<rparr> shell_info"
proof -
  have "runes_of ''.'' = [46]" by (simp add: runes_of_def bytes_of_def decode_bytes.simps)
  then show ?thesis
    by (simp add: matcher_matches_def anyRegexpMatches_def path_base_def MatchString_def one_rune_def)
qed

end
