(* ===== verification/ServerExamples.thy ===== *)
theory ServerExamples
  imports Server UserExamples
begin

text \<open>
  The command started on the machine of the examples with the rule that matches the shell by
  name, and requests to its control server.
\<close>

definition demo_flags :: main_flags where
  "demo_flags = \<lparr>fl_pinPath = ''/sys/fs/bpf/pmark'', fl_rules = demo_rules ''^sh$'', fl_priority = 5,
     fl_markValue = 7, fl_multiRules = [], fl_httpAddr = ''127.0.0.1:8050'', fl_fwmark = False\<rparr>"

lemma demo_install:
  assumes "cp_Policy c = \<lparr>kp_Mode = 2, kp_CommRules = [\<lparr>cr_Comm = ''sh'', cr_Priority = 5, cr_Mark = 7\<rparr>]\<rparr>"
  shows "\<exists>m. install_policy c newMultiRuleManager demo_world = (None, m)"
proof -
  let ?chk = "combinedCheck True (Some (cp_Check c))"
  let ?m = "snd (NewDaemon (main_callbacks ?chk) 0 0 demo_world \<lparr>ce_rules = newMultiRuleManager, ce_log = []\<rparr>)"
  have norm: "validateAndNormalizeKernelPolicy (cp_Policy c) = Inr (cp_Policy c)"
    by (simp add: assms validateAndNormalizeKernelPolicy_def validateExactComm_def)
  have inv: "daemon_inv ?m" by (rule NewDaemon_inv [OF demo_fresh])
  have wld: "wld ?m = demo_world" by (simp add: NewDaemon_def Let_def)
  have "fst (listProcesses (wld ?m)) = Inr [init_info, shell_info]"
    using listProcesses_value [OF demo_static] by (simp add: wld demo_listed)
  moreover have "policyGeneration ?m = 1" "generation ?m = 1" by (simp_all add: NewDaemon_def Let_def)
  ultimately obtain g m' where "setKernelPolicyLocked (cp_Policy c) ?chk ?m = ((g, None), m')"
    using switch_succeeds [OF inv normalize_normal(1) [OF norm]] by force
  then show ?thesis by (simp add: install_policy_def setKernelPolicy_def norm)
qed

lemma demo_started:
  obtains s where "main_start demo_parse (=) demo_flags demo_world = Some (Inr s)"
    "ct_config s = main_config demo_flags"
proof -
  obtain c where c: "compileDefaultKernelPolicy demo_parse (=) (demo_rules ''^sh$'') 5 7 = Inr c"
    and pol: "cp_Policy c = \<lparr>kp_Mode = 2, kp_CommRules = [\<lparr>cr_Comm = ''sh'', cr_Priority = 5, cr_Mark = 7\<rparr>]\<rparr>"
    using demo_compiled by blast
  obtain m where "install_policy c newMultiRuleManager demo_world = (None, m)" using demo_install [OF pol] ..
  then show thesis using that c by (simp add: main_start_def demo_flags_def)
qed

text \<open>A request to track the shell by name.\<close>

definition demo_request :: http_request where
  "demo_request = \<lparr>rq_ContentType = ''application/x-www-form-urlencoded'', rq_JSONUpdate = None,
     rq_JSONStrings = None, rq_Form = Some [(''comm'', ''^sh$'')]\<rparr>"

lemma demo_trim: "TrimSpace ''^sh$'' = ''^sh$''" "TrimSpace [] = []"
  by (rule TrimSpace_plain, simp add: plain_def)+

lemma demo_request_rules: "parseMultiRuleUpdate demo_request = Inr (demo_rules ''^sh$'')"
proof -
  have form: "normalizeMultiRuleValues (Values_Get [(''comm'', ''^sh$'')]) = demo_rules ''^sh$''"
    by (simp add: normalizeMultiRuleValues_def Values_Get_def demo_trim demo_rules_def)
  have again: "normalizeMultiRuleValues (rules_field (demo_rules ''^sh$'')) = demo_rules ''^sh$''"
    by (simp add: normalizeMultiRuleValues_def rules_field_def demo_trim demo_rules_def)
  have "\<not> is_json demo_request" by (simp add: demo_request_def starts_with_def)
  then show ?thesis by (simp add: parseMultiRuleUpdate_def again) (simp add: demo_request_def form again)
qed

lemma demo_shell_key: "makeCommRuleKey g ''sh'' = Inr \<lparr>rk_Generation = g, rk_Comm = comm_bytes ''sh''\<rparr>"
  by (rule makeCommRuleKey_ok) (simp add: validateExactComm_def)

lemma demo_fresh_tables: "fresh_tables demo_world"
  using demo_fresh by (simp add: fresh_world_def)

lemma demo_no_rules:
  assumes "main_start demo_parse (=) demo_flags demo_world = Some (Inr s0)"
  shows "mm_rules (manager s0) = []" "tr_rules (mm_tracker (manager s0)) = []" "tracker_ok (mm_tracker (manager s0))"
proof -
  show rules: "mm_rules (manager s0) = []"
    using main_start_rules [OF assms, of newMultiRuleManager] by (simp add: demo_flags_def newMultiRuleManager_def)
  have ok: "mgr_ok demo_parse (=) (manager s0)"
    by (rule control_inv_manager [OF main_start_inv [OF demo_fresh_tables assms]])
  then show "tracker_ok (mm_tracker (manager s0))" by (simp add: mgr_ok_def)
  have "rel_option (compiles_to demo_parse (=)) None (mget (tr_rules (mm_tracker (manager s0))) rid)" for rid
    using ok rules by (metis mgr_ok_def map_of.simps(1))
  then have "mget (tr_rules (mm_tracker (manager s0))) = Map.empty" by (auto simp: fun_eq_iff)
  then show "tr_rules (mm_tracker (manager s0)) = []" by (simp only: map_of_eq_empty_iff)
qed

lemma demo_register:
  assumes "main_start demo_parse (=) demo_flags demo_world = Some (Inr s0)"
  shows "\<exists>resp s'. handleRegister demo_parse (=) demo_request s0 = Some (resp, s')"
proof -
  note none = demo_no_rules [OF assms]
  let ?rule = "Some (tracked_rule (=) \<lparr>dm_comm = [shell_re], dm_cmd = [], dm_exe = [], dm_ppid = []\<rparr>)"
  obtain rid t where "RegisterRule ?rule (mm_tracker (manager s0)) = Some (rid, t)"
    using RegisterRule_returns [OF none(3), of ?rule] none(2) by auto
  then obtain mgr where reg: "Register demo_parse (=) (demo_rules ''^sh$'') (manager s0) =
      Some (Inr \<lparr>jr_ID = rid, jr_Rule = demo_rules ''^sh$''\<rparr>, mgr)"
    by (simp add: Register_def demo_matcher)
  then show ?thesis
    by (simp add: handleRegister_def demo_request_rules split_beta Let_def split: option.split)
qed

section \<open>A machine at rest\<close>

text \<open>No operation of the daemon changes the files it reads.\<close>

abbreviation at_rest :: "procfs \<Rightarrow> 'c marker \<Rightarrow> bool" where
  "at_rest fs m \<equiv> static_fs fs (wld m)"

lemma rest_syscalls [simp]:
  "static_fs fs w \<Longrightarrow> static_fs fs (snd (processes_Put k v w))" "static_fs fs w \<Longrightarrow> static_fs fs (snd (nowBootNS w))"
  by (simp_all add: static_fs_def processes_Put_def nowBootNS_def syscall_def split_beta Let_def)

lemma rest_primitives [simp]:
  assumes "at_rest fs m"
  shows "at_rest fs (syncKernel k v m)" "at_rest fs (snd (newProcessValue p mk ex m))"
    and "at_rest fs (snd (newNoMarkProcessValue v m))" "at_rest fs (snd (inheritedValue v m))"
  using assms
  by (simp_all add: syncKernel_def newProcessValue_def newNoMarkProcessValue_def inheritedValue_def split_beta
      Let_def split: option.split)

lemma rest_upsert [simp]: "at_rest fs m \<Longrightarrow> at_rest fs (upsertProcess k v m)"
  by (simp add: upsertProcess_def upsertProcessWithLog_def Let_def split: option.split)

lemma rest_visit [simp]: "at_rest fs m \<Longrightarrow> at_rest fs (snd (visit info pv m))"
  by (simp add: visit_def split_beta Let_def split: option.split)

lemma rest_walk: "at_rest fs (snd s) \<Longrightarrow> at_rest fs (snd (walk tab infos pv s))"
proof (induction tab infos pv s rule: walk.induct)
  case (2 tab info infos pv s)
  obtain cur m where visit: "visit info pv (snd s) = (cur, m)" by fastforce
  with 2 rest_visit [of fs "snd s" info pv] show ?case by (simp add: walk.simps(2))
qed simp

lemma rest_walk_rest: "at_rest fs (snd s) \<Longrightarrow> at_rest fs (snd (walk_rest tab byPID procs s))"
  by (induction procs arbitrary: s) (auto simp: rest_walk)

lemma rest_traverse [simp]: "at_rest fs m \<Longrightarrow> at_rest fs (snd (traverseProcessTreeLocked m))"
proof -
  have sync: "at_rest fs m \<Longrightarrow> at_rest fs (sync_all repairs m)" for repairs m
    by (induction repairs arbitrary: m) auto
  have "at_rest fs m \<Longrightarrow> at_rest fs (snd (refreshMirrorFromKernelLocked m))"
    by (simp add: refreshMirrorFromKernelLocked_def split_beta Let_def sync)
  then show "at_rest fs m \<Longrightarrow> at_rest fs (snd (traverseProcessTreeLocked m))"
    by (simp add: traverseProcessTreeLocked_def traverseProcessesLocked_def walk_all_def split_beta Let_def
        rest_walk rest_walk_rest split: sum.split)
qed

lemma rest_switch [simp]:
  "at_rest fs m \<Longrightarrow> at_rest fs (snd (setKernelPolicyLocked policy chk m))"
  by (simp add: setKernelPolicyLocked_def finish_switch_def split_beta Let_def split: sum.split option.split)

lemma rest_run:
  "at_rest fs m \<Longrightarrow> at_rest fs (run_traversal b m)" "maps_ok m \<Longrightarrow> maps_ok (run_traversal b m)"
  by (simp_all add: run_traversal_def split_beta Let_def split: option.split)

lemma demo_at_rest:
  assumes "main_start demo_parse (=) demo_flags demo_world = Some (Inr s0)"
  shows "at_rest demo_fs (ct_daemon s0)" "maps_ok (ct_daemon s0)"
proof -
  obtain c mgr m where inst: "install_policy c mgr demo_world = (None, m)" and s: "ct_daemon s0 = run_traversal True (run_traversal False m)"
    using assms by (auto simp: main_start_def split: sum.splits option.splits prod.splits)
  let ?chk = "combinedCheck True (Some (cp_Check c))"
  let ?m = "snd (NewDaemon (main_callbacks ?chk) 0 0 demo_world \<lparr>ce_rules = mgr, ce_log = []\<rparr>)"
  have m: "m = snd (setKernelPolicy (cp_Policy c) (Some ?chk) ?m)"
    using inst by (auto simp: install_policy_def Let_def split: prod.splits)
  have "at_rest demo_fs ?m" using demo_static by (simp add: NewDaemon_def Let_def)
  then have "at_rest demo_fs m" by (simp add: m setKernelPolicy_def split: sum.split)
  moreover have "daemon_inv m" unfolding m by (rule daemon_inv_policy [OF NewDaemon_inv [OF demo_fresh]])
  then have "maps_ok m" by (simp add: daemon_inv_def)
  ultimately show "at_rest demo_fs (ct_daemon s0)" "maps_ok (ct_daemon s0)"
    by (simp_all add: s rest_run)
qed

lemma demo_document:
  assumes s0: "main_start demo_parse (=) demo_flags demo_world = Some (Inr s0)"
    and cfg: "ct_config s0 = main_config demo_flags"
  shows "\<exists>doc s'. daemonControlState demo_parse (=) ''now'' s0 = (Inr doc, s')"
    and "wfmap (k_processes (wld (ct_daemon s0)))"
proof -
  let ?w = "wld (ct_daemon s0)"
  note rest = demo_at_rest [OF s0]
  show "wfmap (k_processes ?w)" using rest(2) by (simp add: maps_ok_def synced_def)
  have nf: "no_faults ?w" using rest(2) by (simp add: maps_ok_def)
  let ?w2 = "?w\<lparr>os_calls := Suc (Suc (os_calls ?w))\<rparr>"
  have "fst (listProcesses ?w2) = Inr [init_info, shell_info]"
    using listProcesses_value [of demo_fs ?w2] rest(1) by (simp add: static_fs_def demo_listed)
  then obtain snapshot w' where "GrabProcessMapState ?w = (Inr snapshot, w')"
    using nf by (auto simp: GrabProcessMapState_def readProcessMapState_def syscall_def processes_Iterate_def
        no_faults_def split_beta Let_def split: sum.splits option.splits)
  moreover obtain c where "compileDefaultKernelPolicy demo_parse (=) (demo_rules ''^sh$'') 5 7 = Inr c"
    using demo_compiled by blast
  ultimately show "\<exists>doc s'. daemonControlState demo_parse (=) ''now'' s0 = (Inr doc, s')"
    using cfg by (simp add: daemonControlState_def in_world_def split_beta Let_def main_config_def demo_flags_def)
qed

end
