(* ===== verification/SystemExamples.thy ===== *)
theory SystemExamples
  imports Interleaving ServerExamples
begin

text \<open>
  Runs of the system of programs and daemon on the example machine: the shell is marked, forks
  and exits; and the shell runs a program under an authoritative policy.
\<close>

definition shell_task :: traced_task where
  "shell_task = \<lparr>tt_pid = 42, tt_tgid = 42, tt_start_boottime = 770000000, tt_comm = comm_bytes ''sh''\<rparr>"

definition child_task :: traced_task where
  "child_task = \<lparr>tt_pid = 43, tt_tgid = 43, tt_start_boottime = 800000000, tt_comm = comm_bytes ''sh''\<rparr>"

lemma task_keys [simp]:
  "process_key_from_task shell_task = shell_key" "process_key_from_task child_task = child_key"
  "tt_pid shell_task = tt_tgid shell_task" "tt_pid child_task = tt_tgid child_task"
  by (simp_all add: process_key_from_task_def shell_task_def child_task_def NSEC_PER_USER_TICK_def)

text \<open>The shell is marked, and its fork is seen by the program.\<close>

definition demo_forked :: "process_event list system" where
  "demo_forked = run_program child_key (handle_sched_process_fork shell_task child_task 2000 None True True)
     (sys_start (setProcessMark shell_key 5 7 demo_daemon))"

lemma demo_forked_steps: "sys_steps over (sys_start demo_daemon) demo_forked"
proof -
  have "sys_step over (sys_start demo_daemon) (sys_start (setProcessMark shell_key 5 7 demo_daemon))"
    using sys_mark [of shell_key over "sys_start demo_daemon" 5 7] by (simp add: sys_start_def)
  moreover have "sys_step over (sys_start (setProcessMark shell_key 5 7 demo_daemon)) demo_forked"
    using sys_fork [of child_task "sys_start (setProcessMark shell_key 5 7 demo_daemon)" over shell_task 2000 True True]
    by (simp add: sys_start_def demo_forked_def)
  ultimately show ?thesis by (meson syss_refl syss_step)
qed

lemma demo_set_mark:
  "mirror (setProcessMark shell_key 5 7 demo_daemon) = [(shell_key, shell_value\<lparr>Timestamp := 1000\<rparr>)]"
  "k_processes (wld (setProcessMark shell_key 5 7 demo_daemon)) = [(shell_key, shell_value\<lparr>Timestamp := 1000\<rparr>)]"
  "eventCounter (setProcessMark shell_key 5 7 demo_daemon) = 0"
  by (simp_all add: setProcessMark_def newProcessValue_def upsertProcess_def upsertProcessWithLog_def in_world_def
      syncKernel_def processes_Put_def syscall_def demo_daemon_eq demo_world_def nowBootNS_def shell_value_def
      demo_callbacks_def onProcessUpdate_def split_beta Let_def)

lemma demo_fork_state:
  "mget (mirror (sy_marker demo_forked)) child_key = None"
  "mark_of (kern (sy_marker demo_forked) child_key) = Some (5, 7)"
  "sy_lost demo_forked = {}" "map ev_Key (sy_ring demo_forked) = [child_key]"
  by (simp_all add: demo_forked_def run_program_def sys_start_def handle_sched_process_fork_def bpf_inherit_def
      submit_def demo_set_mark shell_value_def split_beta Let_def)

lemma demo_fork_marked: "\<exists>e. sy_ring demo_forked = [e] \<and> ev_HasMark e"
  by (simp add: demo_forked_def run_program_def sys_start_def handle_sched_process_fork_def bpf_inherit_def
      submit_def demo_set_mark shell_value_def split_beta Let_def)

text \<open>The shell is marked, exits, and the daemon takes the event from the ring.\<close>

definition demo_gone :: "process_event list system" where
  "demo_gone = exited shell_key True (run_program shell_key (handle_sched_process_exit shell_task 2000 True True)
     (sys_start (setProcessMark shell_key 5 7 demo_daemon)))"

lemma demo_gone_event: "\<exists>e. sy_ring demo_gone = [e] \<and> ev_Key e = shell_key"
  "eventCounter (sy_marker demo_gone) = 0" "sy_heard demo_gone = {shell_key}"
  by (simp_all add: demo_gone_def exited_def run_program_def sys_start_def handle_sched_process_exit_def
      submit_def demo_set_mark split_beta Let_def)

lemma demo_gone_steps: "\<exists>s. sys_steps over (sys_start demo_daemon) s \<and> sy_heard s = {shell_key} \<and> sy_ring s = []"
proof -
  let ?s = "sys_start (setProcessMark shell_key 5 7 demo_daemon)"
  have 1: "sys_step over (sys_start demo_daemon) ?s"
    using sys_mark [of shell_key over "sys_start demo_daemon" 5 7] by (simp add: sys_start_def)
  have 2: "sys_step over ?s demo_gone"
    using sys_exit [of shell_task ?s over True 2000 True] by (simp add: sys_start_def demo_gone_def)
  obtain e where e: "sy_ring demo_gone = [e]" using demo_gone_event by blast
  let ?t = "demo_gone\<lparr>sy_ring := [], sy_marker := handleEvent e (sy_marker demo_gone)\<rparr>"
  have "sys_step over demo_gone ?t" by (rule sys_event [OF e])
  with 1 2 have "sys_steps over (sys_start demo_daemon) ?t" by (meson syss_refl syss_step)
  moreover have "sy_heard ?t = {shell_key}" "sy_ring ?t = []" by (simp_all add: demo_gone_event)
  ultimately show ?thesis by blast
qed

section \<open>Under an authoritative policy\<close>

definition strict_policy :: kernel_policy where
  "strict_policy = \<lparr>kp_Mode = 2, kp_CommRules = [\<lparr>cr_Comm = ''sh'', cr_Priority = 5, cr_Mark = 7\<rparr>]\<rparr>"

lemma strict_normal: "validateAndNormalizeKernelPolicy strict_policy = Inr strict_policy"
  by (simp add: validateAndNormalizeKernelPolicy_def strict_policy_def validateExactComm_def)

definition demo_strict :: "process_event list marker" where
  "demo_strict = snd (setKernelPolicy strict_policy None demo_daemon)"

lemma demo_strict_switch: "setKernelPolicy strict_policy None demo_daemon = ((2, None), demo_strict)"
proof -
  have inv: "daemon_inv demo_daemon" unfolding demo_daemon_def by (rule NewDaemon_inv [OF demo_fresh])
  have ls: "fst (listProcesses (wld demo_daemon)) = Inr [init_info, shell_info]"
    using listProcesses_value [OF demo_static] by (simp add: demo_daemon_eq demo_listed)
  have "policyGeneration demo_daemon + 1 = 2" "policyGeneration demo_daemon \<noteq> - 1" by (simp_all add: demo_daemon_eq)
  then obtain m' where m': "setKernelPolicyLocked strict_policy
      (\<lambda>info c. (exactCommCheck (kp_CommRules strict_policy) info, c)) demo_daemon = ((2, None), m')"
    using switch_succeeds [OF inv normalize_normal(1) [OF strict_normal] ls] by metis
  then show ?thesis by (simp add: demo_strict_def setKernelPolicy_def strict_normal)
qed

lemma demo_strict_steps: "daemon_steps 1024 (snd (NewDaemon demo_callbacks 0 0 demo_world [])) demo_strict"
proof -
  have "daemon_step 1024 demo_daemon demo_strict"
    unfolding demo_strict_def by (rule step_policy)
  then show ?thesis unfolding demo_daemon_def by (rule steps_step [OF steps_refl])
qed

lemma demo_strict_state:
  "kernelPolicy demo_strict = strict_policy" "generation demo_strict = 2"
  "decides demo_strict (exactCommCheck (kp_CommRules strict_policy))" "static_fs demo_fs (wld demo_strict)"
  "mget (mirror demo_strict) k = Some v \<Longrightarrow> \<not> Tombstone v"
proof -
  have inv: "daemon_inv demo_daemon" unfolding demo_daemon_def by (rule NewDaemon_inv [OF demo_fresh])
  have ri: "rules_inv demo_daemon" and ok: "maps_ok demo_daemon" using inv by (simp_all add: daemon_inv_def)
  have run: "setKernelPolicyLocked strict_policy
      (\<lambda>info c. (exactCommCheck (kp_CommRules strict_policy) info, c)) demo_daemon = ((2, None), demo_strict)"
    using demo_strict_switch by (simp add: setKernelPolicy_def strict_normal)
  note s = setKernelPolicyLocked_spec(2) [OF ri normalize_normal(1) [OF strict_normal] run]
  show "kernelPolicy demo_strict = strict_policy" "generation demo_strict = 2"
    "decides demo_strict (exactCommCheck (kp_CommRules strict_policy))"
    using s by (simp_all add: switch_done_def decides_def)
  have "at_rest demo_fs demo_daemon" by (simp add: demo_daemon_eq demo_static)
  from rest_switch [OF this] show "static_fs demo_fs (wld demo_strict)" using run by (metis snd_conv)
  show "\<not> Tombstone v" if v: "mget (mirror demo_strict) k = Some v"
  proof (rule switch_traversal [OF ok run])
    fix x
    assume x: "maps_ok x" "mirror x = mirror demo_daemon" "mirror demo_strict = mirror (snd (traverseProcessTreeLocked x))"
    then have "mget (k_processes (wld x)) k = None" by (simp add: maps_ok_def synced_def demo_daemon_eq)
    then have "(k, u) \<notin> set (k_processes (wld x))" for u by (force simp: map_of_eq_None_iff)
    then show "\<not> Tombstone v"
      using upserts_values [OF traverseProcessTreeLocked_upserts, of x k v] v x(2,3)
      by (simp add: fresh_def)
  qed
qed

lemma demo_exec:
  "\<exists>e w'. handle_sched_process_exec shell_task (- 1) True True (wld demo_strict) = (Some e, w') \<and>
     ev_Type e = eventExec \<and> ev_Key e = shell_key \<and> static_fs demo_fs w'"
  using demo_strict_state(4)
  by (auto simp: handle_sched_process_exec_def exec_store_def submit_def eventExec_def static_fs_def split_beta Let_def
      split: option.split)

end
