(* ===== verification/RingRecord.thy ===== *)
theory RingRecord
  imports Bpf
begin

text \<open>
  The bytes of the ring: how the compiled programs lay out \<^verbatim>\<open>struct event\<close> (\<^verbatim>\<open>mark.c\<close>) on a machine of
  either byte order, and how \<^verbatim>\<open>runEvents\<close> reads them back with \<^verbatim>\<open>binary.Read\<close> into the struct that bpf2go
  generates. A record that is read gives the event that was written, whatever the padding holds,
  on the little-endian targets; on the big-endian ones, for which \<^verbatim>\<open>mark_bpfeb.go\<close> is built, it gives
  an event of an unknown type.
\<close>

section \<open>Writers and readers\<close>

text \<open>
  A writer may put anything into the padding; the reader takes its value from the front of the bytes
  and leaves the rest. So no two values have the same bytes, and a list of values is read back.
\<close>

type_synonym byte = "8 word"

locale byte_codec =
  fixes put :: "'p \<Rightarrow> 'a \<Rightarrow> byte list"
    and get :: "byte list \<Rightarrow> 'a \<times> byte list"
    and ok :: "'a \<Rightarrow> bool"
  assumes get_put: "ok x \<Longrightarrow> get (put p x @ bs) = (x, bs)"
begin

lemma put_unique:
  assumes "ok x" "ok y" "put p x @ bs = put q y @ cs"
  shows "x = y \<and> bs = cs"
  using get_put [OF assms(1), of p bs] get_put [OF assms(2), of q cs] assms(3) by simp

lemma put_inject: "ok x \<Longrightarrow> ok y \<Longrightarrow> put p x = put q y \<Longrightarrow> x = y"
  using put_unique [of x y p "[]" q "[]"] by simp

end

section \<open>Integers as bytes\<close>

datatype byte_order = LittleEndian | BigEndian

fun word_bytes :: "nat \<Rightarrow> 'a::len word \<Rightarrow> byte list" where
  "word_bytes 0 w = []"
| "word_bytes (Suc n) w = ucast w # word_bytes n (drop_bit 8 w)"

fun bytes_word :: "byte list \<Rightarrow> 'a::len word" where
  "bytes_word [] = 0"
| "bytes_word (b # bs) = or (ucast b) (push_bit 8 (bytes_word bs))"

definition put_uint :: "byte_order \<Rightarrow> nat \<Rightarrow> 'a::len word \<Rightarrow> byte list" where
  "put_uint order n w = (case order of LittleEndian \<Rightarrow> word_bytes n w | BigEndian \<Rightarrow> rev (word_bytes n w))"

definition get_uint :: "byte_order \<Rightarrow> byte list \<Rightarrow> 'a::len word" where
  "get_uint order bs = (case order of LittleEndian \<Rightarrow> bytes_word bs | BigEndian \<Rightarrow> bytes_word (rev bs))"

lemma length_word_bytes [simp]: "length (word_bytes n w) = n"
  by (induction n w rule: word_bytes.induct) simp_all

lemma length_put_uint [simp]: "length (put_uint order n w) = n"
  by (simp add: put_uint_def split: byte_order.split)

lemma bytes_word_bytes: "bytes_word (word_bytes n w) = take_bit (8 * n) (w :: 'a::len word)"
proof (induction n w rule: word_bytes.induct)
  case (2 n w)
  show ?case
  proof (rule bit_word_eqI)
    fix k assume "k < LENGTH('a)"
    then show "bit (bytes_word (word_bytes (Suc n) w) :: 'a word) k \<longleftrightarrow> bit (take_bit (8 * Suc n) w) k"
      using 2 by (cases "k < 8") (auto simp: bit_simps)
  qed
qed simp

lemma get_put_uint: "LENGTH('a) \<le> 8 * n \<Longrightarrow> get_uint order (put_uint order n w) = (w :: 'a::len word)"
  by (simp add: get_uint_def put_uint_def bytes_word_bytes take_bit_word_eq_self split: byte_order.split)

section \<open>The layout of the programs\<close>

text \<open>
  Numbers are aligned to their size. \<open>pad\<close> gives the bytes between the members, by their offset in the
  record: they are whatever the memory held.
\<close>

definition padding :: "(nat \<Rightarrow> byte) \<Rightarrow> nat \<Rightarrow> nat \<Rightarrow> byte list" where
  "padding pad offset n = map pad [offset..<offset + n]"

definition bool_byte :: "bool \<Rightarrow> byte" where
  "bool_byte b = (if b then 1 else 0)"

definition key_bytes :: "byte_order \<Rightarrow> (nat \<Rightarrow> byte) \<Rightarrow> nat \<Rightarrow> process_key \<Rightarrow> byte list" where
  "key_bytes order pad offset key =
     put_uint order 4 (Tgid key) @ padding pad (offset + 4) 4 @ put_uint order 8 (StartTime key)"

definition value_bytes :: "byte_order \<Rightarrow> (nat \<Rightarrow> byte) \<Rightarrow> nat \<Rightarrow> process_value \<Rightarrow> byte list" where
  "value_bytes order pad offset v =
     [bool_byte (Tombstone v), bool_byte (Inheritance v), bool_byte (HasMark v), Priority v] @
     padding pad (offset + 4) 4 @
     put_uint order 8 (Generation v) @ put_uint order 8 (Mark v) @ put_uint order 8 (Timestamp v)"

definition event_bytes :: "byte_order \<Rightarrow> (nat \<Rightarrow> byte) \<Rightarrow> mark_event \<Rightarrow> byte list" where
  "event_bytes order pad e =
     put_uint order 4 (ev_Type e) @ padding pad 4 4 @
     key_bytes order pad 8 (ev_Key e) @ key_bytes order pad 24 (ev_ParentKey e) @
     put_uint order 4 (ev_Pid e) @ put_uint order 4 (ev_Ppid e) @
     [bool_byte (ev_HasMark e)] @ padding pad 49 7 @
     value_bytes order pad 56 (ev_Value e) @ ev_Comm e"

section \<open>Reading with \<^verbatim>\<open>binary.Read\<close>\<close>

text \<open>
  The decoder of \<^verbatim>\<open>encoding/binary\<close> goes through the fields of the struct in their order. Blank fields are
  skipped (\<^verbatim>\<open>structs.HostLayout\<close> has no bytes), a \<^verbatim>\<open>bool\<close> is true for every byte but zero.
\<close>

definition read_uint :: "byte_order \<Rightarrow> nat \<Rightarrow> byte list \<Rightarrow> 'a::len word \<times> byte list" where
  "read_uint order n bs = (get_uint order (take n bs), drop n bs)"

definition read_byte :: "byte list \<Rightarrow> byte \<times> byte list" where
  "read_byte bs = (hd bs, tl bs)"

definition read_bool :: "byte list \<Rightarrow> bool \<times> byte list" where
  "read_bool bs = (hd bs \<noteq> 0, tl bs)"

definition read_key :: "byte_order \<Rightarrow> byte list \<Rightarrow> process_key \<times> byte list" where
  "read_key order bs =
     (let (tgid, bs) = read_uint order 4 bs;
          bs = drop 4 bs;
          (start, bs) = read_uint order 8 bs
      in (\<lparr>Tgid = tgid, StartTime = start\<rparr>, bs))"

definition read_value :: "byte_order \<Rightarrow> byte list \<Rightarrow> process_value \<times> byte list" where
  "read_value order bs =
     (let (tombstone, bs) = read_bool bs;
          (inheritance, bs) = read_bool bs;
          (hasMark, bs) = read_bool bs;
          (priority, bs) = read_byte bs;
          bs = drop 4 bs;
          (gen, bs) = read_uint order 8 bs;
          (mark, bs) = read_uint order 8 bs;
          (timestamp, bs) = read_uint order 8 bs
      in (\<lparr>Tombstone = tombstone, Inheritance = inheritance, HasMark = hasMark, Priority = priority,
           Generation = gen, Mark = mark, Timestamp = timestamp\<rparr>, bs))"

definition read_fields :: "byte_order \<Rightarrow> byte list \<Rightarrow> mark_event \<times> byte list" where
  "read_fields order bs =
     (let (type, bs) = read_uint order 4 bs;
          bs = drop 4 bs;
          (key, bs) = read_key order bs;
          (parentKey, bs) = read_key order bs;
          (pid, bs) = read_uint order 4 bs;
          (ppid, bs) = read_uint order 4 bs;
          (hasMark, bs) = read_bool bs;
          bs = drop 7 bs;
          (v, bs) = read_value order bs
      in (\<lparr>ev_Type = type, ev_Key = key, ev_ParentKey = parentKey, ev_Pid = pid, ev_Ppid = ppid,
           ev_HasMark = hasMark, ev_Value = v, ev_Comm = take 16 bs\<rparr>, drop 16 bs))"

text \<open>The size of the struct with its blank fields; \<^verbatim>\<open>io.ReadFull\<close> fails on less and leaves the rest.\<close>

definition event_size :: nat where "event_size = 104"

definition binary_Read :: "byte_order \<Rightarrow> byte list \<Rightarrow> mark_event option" where
  "binary_Read order sample =
     (if length sample < event_size then None else Some (fst (read_fields order (take event_size sample))))"

text \<open>What a read of the ring gives, and what the loop makes of it.\<close>

datatype raw_read = RawClosed | RawError | RawSample "byte list"

fun parse_read :: "raw_read \<Rightarrow> ring_read" where
  "parse_read RawClosed = RingClosed"
| "parse_read RawError = RingError"
| "parse_read (RawSample sample) = RingRecord (binary_Read LittleEndian sample)"

section \<open>Round trip\<close>

lemma length_padding [simp]: "length (padding pad offset n) = n"
  by (simp add: padding_def)

lemma bool_byte_zero [simp]: "bool_byte b = 0 \<longleftrightarrow> \<not> b"
  by (simp add: bool_byte_def)

lemma read_bool_byte [simp]: "read_bool (bool_byte b # bs) = (b, bs)"
  by (simp add: read_bool_def)

lemma read_byte_Cons [simp]: "read_byte (b # bs) = (b, bs)"
  by (simp add: read_byte_def)

lemma read_put_uint [simp]:
  "LENGTH('a) \<le> 8 * n \<Longrightarrow> read_uint order n (put_uint order n w @ bs) = (w :: 'a::len word, bs)"
  by (simp add: read_uint_def get_put_uint)

lemma read_key_bytes [simp]: "read_key order (key_bytes order pad offset key @ bs) = (key, bs)"
  by (simp add: read_key_def key_bytes_def)

lemma read_value_bytes [simp]: "read_value order (value_bytes order pad offset v @ bs) = (v, bs)"
  by (simp add: read_value_def value_bytes_def)

lemma length_key_bytes [simp]: "length (key_bytes order pad offset key) = 16"
  by (simp add: key_bytes_def)

lemma length_value_bytes [simp]: "length (value_bytes order pad offset v) = 32"
  by (simp add: value_bytes_def)

lemma length_event_bytes: "length (ev_Comm e) = 16 \<Longrightarrow> length (event_bytes order pad e) = event_size"
  by (simp add: event_bytes_def event_size_def)

lemma read_fields_bytes:
  "length (ev_Comm e) = 16 \<Longrightarrow> read_fields order (event_bytes order pad e @ bs) = (e, bs)"
  by (simp add: read_fields_def event_bytes_def)

interpretation key_codec: byte_codec "\<lambda>pad. key_bytes order pad offset" "read_key order" "\<lambda>_. True"
  for order offset by unfold_locales simp

interpretation value_codec: byte_codec "\<lambda>pad. value_bytes order pad offset" "read_value order" "\<lambda>_. True"
  for order offset by unfold_locales simp

interpretation event_codec: byte_codec "event_bytes order" "read_fields order" "\<lambda>e. length (ev_Comm e) = 16"
  for order by unfold_locales (rule read_fields_bytes)

lemma binary_Read_bytes:
  assumes "length (ev_Comm e) = 16"
  shows "binary_Read order (event_bytes order pad e @ extra) = Some e"
  using length_event_bytes [OF assms, of order pad] read_fields_bytes [OF assms, of order pad "[]"]
  by (simp add: binary_Read_def)

lemma binary_Read_short: "length sample < event_size \<longleftrightarrow> binary_Read order sample = None"
  by (simp add: binary_Read_def)

section \<open>The loop on bytes\<close>

text \<open>What the programs submit is read as it was, and handled in this order.\<close>

definition submitted :: "byte_order \<Rightarrow> (nat \<Rightarrow> byte) \<times> mark_event \<Rightarrow> raw_read" where
  "submitted order = (\<lambda>(pad, e). RawSample (event_bytes order pad e))"

lemma parse_submitted:
  "length (ev_Comm (snd r)) = 16 \<Longrightarrow> parse_read (submitted LittleEndian r) = RingRecord (Some (snd r))"
  using binary_Read_bytes [of "snd r" LittleEndian "fst r" "[]"] by (simp add: submitted_def split_beta)

lemma runEvents_submitted:
  assumes "\<And>e. e \<in> snd ` set records \<Longrightarrow> length (ev_Comm e) = 16"
  shows "runEvents tcev (map (parse_read \<circ> submitted LittleEndian) records @ reads) m =
    runEvents tcev reads (fold (process_record tcev) (map snd records) m)"
  using assms by (induction records arbitrary: m) (simp_all add: parse_submitted)

lemma runEvents_short:
  "length sample < event_size \<Longrightarrow>
   runEvents tcev (parse_read (RawSample sample) # reads) m = runEvents tcev reads (logf LogParseEvent m)"
  by (simp add: binary_Read_def)

lemma submit_comm:
  "handle_sched_process_fork parent child now race stored room w = (Some e, w') \<Longrightarrow> ev_Comm e = tt_comm child"
  "handle_sched_process_exit t now stored room w = (Some e, w') \<Longrightarrow> ev_Comm e = tt_comm t"
  "handle_sched_process_exec t now stored room w = (Some e, w') \<Longrightarrow> ev_Comm e = tt_comm t"
  by (auto simp: handle_sched_process_fork_def handle_sched_process_exit_def handle_sched_process_exec_def
      submit_def split_beta Let_def split: if_splits)

section \<open>The other byte order\<close>

text \<open>The targets of the two embedded objects, from the build constraints that bpf2go generates.\<close>

definition little_endian_targets :: "string list" where
  "little_endian_targets =
     [''386'', ''amd64'', ''arm'', ''arm64'', ''loong64'', ''mips64le'', ''mipsle'', ''ppc64le'', ''riscv64'', ''wasm'']"

definition big_endian_targets :: "string list" where
  "big_endian_targets = [''mips'', ''mips64'', ''ppc64'', ''s390x'']"

definition target_order :: "string \<Rightarrow> byte_order option" where
  "target_order arch =
     (if arch \<in> set little_endian_targets then Some LittleEndian
      else if arch \<in> set big_endian_targets then Some BigEndian else None)"

text \<open>What a number of the other byte order is read as.\<close>

definition swap_bytes :: "nat \<Rightarrow> 'a::len word \<Rightarrow> 'a word" where
  "swap_bytes n w = bytes_word (rev (word_bytes n w))"

definition swap_key :: "process_key \<Rightarrow> process_key" where
  "swap_key key = \<lparr>Tgid = swap_bytes 4 (Tgid key), StartTime = swap_bytes 8 (StartTime key)\<rparr>"

definition swap_value :: "process_value \<Rightarrow> process_value" where
  "swap_value v =
     v\<lparr>Generation := swap_bytes 8 (Generation v), Mark := swap_bytes 8 (Mark v),
       Timestamp := swap_bytes 8 (Timestamp v)\<rparr>"

definition swap_event :: "mark_event \<Rightarrow> mark_event" where
  "swap_event e =
     e\<lparr>ev_Type := swap_bytes 4 (ev_Type e), ev_Key := swap_key (ev_Key e),
       ev_ParentKey := swap_key (ev_ParentKey e), ev_Pid := swap_bytes 4 (ev_Pid e),
       ev_Ppid := swap_bytes 4 (ev_Ppid e), ev_Value := swap_value (ev_Value e)\<rparr>"

lemma read_swapped [simp]:
  "read_uint LittleEndian n (put_uint BigEndian n w @ bs) = (swap_bytes n w, bs)"
  by (simp add: read_uint_def get_uint_def put_uint_def swap_bytes_def)

lemma read_swapped_key [simp]:
  "read_key LittleEndian (key_bytes BigEndian pad offset key @ bs) = (swap_key key, bs)"
  by (simp add: read_key_def key_bytes_def swap_key_def)

lemma read_swapped_value [simp]:
  "read_value LittleEndian (value_bytes BigEndian pad offset v @ bs) = (swap_value v, bs)"
  by (simp add: read_value_def value_bytes_def swap_value_def)

lemma binary_Read_swapped:
  assumes "length (ev_Comm e) = 16"
  shows "binary_Read LittleEndian (event_bytes BigEndian pad e) = Some (swap_event e)"
proof -
  have "fst (read_fields LittleEndian (event_bytes BigEndian pad e)) = swap_event e"
    using assms by (simp add: read_fields_def event_bytes_def swap_event_def)
  then show ?thesis using length_event_bytes [OF assms, of BigEndian pad] by (simp add: binary_Read_def)
qed

lemma word_bytes_numeral [simp]:
  "word_bytes (numeral k) w = ucast w # word_bytes (pred_numeral k) (drop_bit 8 w)"
  by (simp add: numeral_eq_Suc)

lemma swapped_type_codes:
  "swap_bytes 4 eventFork = 0x1000000" "swap_bytes 4 eventExit = 0x2000000" "swap_bytes 4 eventExec = 0x3000000"
  by (simp_all add: swap_bytes_def eventFork_def eventExit_def eventExec_def)

lemma swapped_types:
  assumes "ev_Type e \<in> {eventFork, eventExit, eventExec}"
  shows "ev_Type (swap_event e) \<notin> {eventFork, eventExit, eventExec}"
  using assms swapped_type_codes
  by (auto simp: swap_event_def) (simp_all add: eventFork_def eventExit_def eventExec_def)

text \<open>An event of an unknown type reaches the event hook and neither map.\<close>

lemma handle_swapped:
  assumes "ev_Type e \<in> {eventFork, eventExit, eventExec}"
  shows "mirror (handleEvent (swap_event e) m) = mirror m"
    "k_processes (wld (handleEvent (swap_event e) m)) = k_processes (wld m)"
    "cb_ProcessEvent (callbacks m) = Some hook \<Longrightarrow>
      env (handleEvent (swap_event e) m) =
        hook \<lparr>pe_Type = ''unknown'', pe_Key = ev_Key (swap_event e), pe_ParentKey = None,
          pe_Kernel = event_kernel_mark (swap_event e), pe_Process = event_info (swap_event e) m, pe_Value = None\<rparr> (env m)"
proof -
  have "handleEvent (swap_event e) m =
      handleUnknown (swap_event e) (event_info (swap_event e) m) (after_info (swap_event e) m)"
    using swapped_types [OF assms] by (simp add: handleEvent_def split_beta Let_def)
  then show "mirror (handleEvent (swap_event e) m) = mirror m"
    "k_processes (wld (handleEvent (swap_event e) m)) = k_processes (wld m)"
    "cb_ProcessEvent (callbacks m) = Some hook \<Longrightarrow>
      env (handleEvent (swap_event e) m) =
        hook \<lparr>pe_Type = ''unknown'', pe_Key = ev_Key (swap_event e), pe_ParentKey = None,
          pe_Kernel = event_kernel_mark (swap_event e), pe_Process = event_info (swap_event e) m, pe_Value = None\<rparr> (env m)"
    using still_policy_tables [OF procInfoFromEvent_still]
    by (simp_all add: handleUnknown_def onProcessEvent_def in_world_def split_beta split: option.split)
qed

end
