(* ===== verification/FwmarkManager.thy ===== *)
theory FwmarkManager
  imports Lifecycle Fwmark
begin

text \<open>
  What the fwmark manager acquires and releases (\<^verbatim>\<open>NewManager\<close>, \<^verbatim>\<open>attach\<close> and \<^verbatim>\<open>Close\<close> of
  \<^verbatim>\<open>fwmark.go\<close>), over the same traces of calls as the daemon.
\<close>

section \<open>The manager\<close>

definition defaultCgroupPath :: string where "defaultCgroupPath = ''/sys/fs/cgroup''"

datatype cgroup_attach = AttachInetSockCreate | AttachInet4Connect | AttachInet6Connect

record cgroup_program =
  cp_name :: string
  cp_attach :: cgroup_attach

definition cgroupPrograms :: "cgroup_program list" where
  "cgroupPrograms =
     [\<lparr>cp_name = ''cgroup/sock_create'', cp_attach = AttachInetSockCreate\<rparr>,
      \<lparr>cp_name = ''cgroup/connect4'', cp_attach = AttachInet4Connect\<rparr>,
      \<lparr>cp_name = ''cgroup/connect6'', cp_attach = AttachInet6Connect\<rparr>]"

text \<open>\<open>fm_stopped\<close> says that the channel \<^verbatim>\<open>stop\<close> is closed; no goroutine is ever added to \<^verbatim>\<open>wg\<close>.\<close>

record 'e fwmark_manager =
  fm_links :: "nat list"
  fm_stopped :: bool
  fm_closeOnce :: bool
  fm_calls :: "'e calls"

datatype 'e manager_error = ErrLoadFwmark "'e os_error" | ErrAttachCgroup string cgroup_attach string "'e os_error"

fun attach :: "string \<Rightarrow> cgroup_program list \<Rightarrow> 'e fwmark_manager \<Rightarrow>
    'e manager_error option \<times> 'e fwmark_manager" where
  "attach cgroupPath [] m = (None, m)"
| "attach cgroupPath (item # items) m =
     (let (res, s) = acquire (AttachCgroup cgroupPath (cp_name item)) (fm_calls m);
          m = m\<lparr>fm_calls := s\<rparr>
      in case res of
           Inl e \<Rightarrow> (Some (ErrAttachCgroup (cp_name item) (cp_attach item) cgroupPath e), m)
         | Inr l \<Rightarrow> attach cgroupPath items (m\<lparr>fm_links := fm_links m @ [l]\<rparr>))"

fun close_links :: "nat list \<Rightarrow> 'e calls \<Rightarrow> 'e os_error list \<times> 'e calls" where
  "close_links [] s = ([], s)"
| "close_links (l # ls) s =
     (let (err, s) = issue (CloseHandle l) s;
          (errs, s) = close_links ls s
      in ((case err of None \<Rightarrow> [] | Some e \<Rightarrow> [e]) @ errs, s))"

definition manager_Close :: "'e fwmark_manager \<Rightarrow> 'e os_error list \<times> 'e fwmark_manager" where
  "manager_Close m =
     (if fm_closeOnce m then ([], m)
      else
        (let m = m\<lparr>fm_closeOnce := True, fm_stopped := True\<rparr>;
             (errs, s) = close_links (fm_links m) (fm_calls m);
             (objs_err, s) = issue CloseObjects s
         in (errs @ (case objs_err of None \<Rightarrow> [] | Some e \<Rightarrow> [e]), m\<lparr>fm_links := [], fm_calls := s\<rparr>)))"

definition NewManager :: "string \<Rightarrow> 'e calls \<Rightarrow> ('e manager_error + 'e fwmark_manager) \<times> 'e calls" where
  "NewManager pinPath s =
     (let (err, s) = issue (LoadObjects pinPath) s
      in case err of Some e \<Rightarrow> (Inl (ErrLoadFwmark e), s)
       | None \<Rightarrow>
           (let m = \<lparr>fm_links = [], fm_stopped = False, fm_closeOnce = False, fm_calls = s\<rparr>;
                (err, m) = attach defaultCgroupPath cgroupPrograms m
            in case err of
                 Some e \<Rightarrow> (let (_, m) = manager_Close m in (Inl e, fm_calls m))
               | None \<Rightarrow> (Inr m, fm_calls m)))"

section \<open>Nothing is lost\<close>

text \<open>The links are what is open, each once.\<close>

definition manager_inv :: "'e fwmark_manager \<Rightarrow> bool" where
  "manager_inv m \<longleftrightarrow>
     opened (fm_calls m) = set (closes (fm_calls m)) \<union> set (fm_links m) \<and>
     distinct (closes (fm_calls m) @ fm_links m) \<and>
     objects_closed (fm_calls m) = (if fm_closeOnce m then 1 else 0) \<and>
     (fm_closeOnce m \<longrightarrow> fm_links m = [])"

lemma attach_inv:
  "manager_inv m \<Longrightarrow> \<not> fm_closeOnce m \<Longrightarrow>
   manager_inv (snd (attach cgroupPath items m)) \<and> \<not> fm_closeOnce (snd (attach cgroupPath items m))"
proof (induction items arbitrary: m)
  case (Cons item items)
  let ?n = "length (ca_log (fm_calls m))"
  let ?s = "snd (issue (AttachCgroup cgroupPath (cp_name item)) (fm_calls m))"
  have fresh: "?n \<notin> opened (fm_calls m)" by (auto dest: opened_bound)
  then have new: "?n \<notin> set (closes (fm_calls m))" "?n \<notin> set (fm_links m)"
    using Cons.prems(1) by (auto simp: manager_inv_def)
  show ?case
  proof (cases "ca_answer (fm_calls m) ?n")
    case (Some e)
    then show ?thesis
      using Cons.prems by (simp add: acquire_def split_beta Let_def manager_inv_def objects_closed_def)
  next
    case None
    have "manager_inv (m\<lparr>fm_calls := ?s, fm_links := fm_links m @ [?n]\<rparr>)"
      using Cons.prems None new by (auto simp: manager_inv_def objects_closed_def)
    from Cons.IH [OF this] None Cons.prems(2) show ?thesis by (simp add: acquire_def split_beta Let_def)
  qed
qed simp

lemma close_links_log: "snd (close_links ls s) = s\<lparr>ca_log := ca_log s @ map CloseHandle ls\<rparr>"
  by (induction ls arbitrary: s) (simp_all add: issue_def split_beta Let_def)

lemma manager_Close_inv:
  assumes "manager_inv m"
  shows "manager_inv (snd (manager_Close m))" "fm_closeOnce (snd (manager_Close m))" "fm_links (snd (manager_Close m)) = []"
  using assms
  by (auto simp: manager_Close_def manager_inv_def objects_closed_def close_links_log split_beta Let_def)

lemma manager_start: "ca_log s = [] \<Longrightarrow>
    manager_inv \<lparr>fm_links = [], fm_stopped = False, fm_closeOnce = False, fm_calls = snd (issue (LoadObjects pinPath) s)\<rparr>"
  by (simp add: manager_inv_def objects_closed_def)

text \<open>A manager holds its links; a failed attempt to get one holds nothing, and closed the objects.\<close>

lemma NewManager_inv:
  assumes s: "ca_log s = []"
  shows "case NewManager pinPath s of
      (Inr m, s') \<Rightarrow> manager_inv m \<and> \<not> fm_closeOnce m \<and> fm_calls m = s' \<and> length (fm_links m) = 3
    | (Inl (ErrLoadFwmark e), s') \<Rightarrow> opened s' = {}
    | (Inl (ErrAttachCgroup name a path e), s') \<Rightarrow>
        set (closes s') = opened s' \<and> distinct (closes s') \<and> objects_closed s' = 1"
proof -
  let ?s = "snd (issue (LoadObjects pinPath) s)"
  let ?m = "\<lparr>fm_links = [], fm_stopped = False, fm_closeOnce = False, fm_calls = ?s\<rparr>"
  have inv: "manager_inv ?m" by (rule manager_start [OF s])
  have a: "manager_inv (snd (attach p items ?m))" "\<not> fm_closeOnce (snd (attach p items ?m))" for p items
    using attach_inv [OF inv] by simp_all
  have len: "fst (attach p items m) = None \<Longrightarrow> length (fm_links (snd (attach p items m))) = length (fm_links m) + length items"
    for p items and m :: "'a fwmark_manager"
    by (induction items arbitrary: m) (auto simp: split_beta Let_def split: sum.splits)
  have err: "fst (attach p items m) \<noteq> Some (ErrLoadFwmark e)" for p items e and m :: "'a fwmark_manager"
    by (induction items arbitrary: m) (auto simp: split_beta Let_def split: sum.splits)
  show ?thesis
  proof (cases "ca_answer s 0")
    case (Some e)
    then show ?thesis using s by (simp add: NewManager_def split_beta Let_def)
  next
    case None
    obtain r m where r: "attach defaultCgroupPath cgroupPrograms ?m = (r, m)" by fastforce
    note am = a [of defaultCgroupPath cgroupPrograms, unfolded r, simplified]
    show ?thesis
    proof (cases r)
      case r': None
      have "length (fm_links m) = 3" using len [of defaultCgroupPath cgroupPrograms ?m] r r' by (simp add: cgroupPrograms_def)
      then show ?thesis using None s r r' am by (simp add: NewManager_def split_beta Let_def)
    next
      case (Some e)
      note closed = manager_Close_inv [OF am(1)]
      have "e \<noteq> ErrLoadFwmark x" for x using err [of defaultCgroupPath cgroupPrograms ?m x] r Some by simp
      then obtain name t path x where "e = ErrAttachCgroup name t path x" by (cases e) auto
      then show ?thesis
        using None s r Some closed by (simp add: NewManager_def split_beta Let_def manager_inv_def)
    qed
  qed
qed

end
