(* ===== verification/Loaders.thy ===== *)
theory Loaders
  imports RingRecord FwmarkManager
begin

text \<open>
  The loaders that bpf2go generates for the two BPF files (\<^verbatim>\<open>mark_bpfel.go\<close>, \<^verbatim>\<open>fwmark_bpfel.go\<close>; the
  big-endian files differ from them in the build constraint and the object they embed), and the
  maps the BPF files declare. \<^verbatim>\<open>ebpf.LoadCollectionSpecFromReader\<close> and \<^verbatim>\<open>LoadAndAssign\<close> are
  parameters. Closing the objects is a sequence of calls that ends at the first error.
\<close>

section \<open>Loading\<close>

datatype 'e load_error = CantLoad string 'e | LoadFailed 'e

definition load_spec :: "string \<Rightarrow> ('b \<Rightarrow> 'e + 'spec) \<Rightarrow> 'b \<Rightarrow> 'e load_error + 'spec" where
  "load_spec name LoadCollectionSpecFromReader bytes =
     (case LoadCollectionSpecFromReader bytes of Inl err \<Rightarrow> Inl (CantLoad name err) | Inr spec \<Rightarrow> Inr spec)"

definition loadMark :: "('b \<Rightarrow> 'e + 'spec) \<Rightarrow> 'b \<Rightarrow> 'e load_error + 'spec" where
  "loadMark = load_spec ''mark''"

definition loadFwmark :: "('b \<Rightarrow> 'e + 'spec) \<Rightarrow> 'b \<Rightarrow> 'e load_error + 'spec" where
  "loadFwmark = load_spec ''fwmark''"

text \<open>\<open>LoadAndAssign spec obj\<close>: the error, if there is one, and the struct it filled in.\<close>

definition loadMarkObjects ::
    "('b \<Rightarrow> 'e + 'spec) \<Rightarrow> ('spec \<Rightarrow> 'obj \<Rightarrow> 'e option \<times> 'obj) \<Rightarrow> 'b \<Rightarrow> 'obj \<Rightarrow> 'e load_error option \<times> 'obj" where
  "loadMarkObjects LoadCollectionSpecFromReader LoadAndAssign bytes obj =
     (case loadMark LoadCollectionSpecFromReader bytes of
        Inl err \<Rightarrow> (Some err, obj)
      | Inr spec \<Rightarrow> (let (err, obj) = LoadAndAssign spec obj in (map_option LoadFailed err, obj)))"

definition loadFwmarkObjects ::
    "('b \<Rightarrow> 'e + 'spec) \<Rightarrow> ('spec \<Rightarrow> 'obj \<Rightarrow> 'e option \<times> 'obj) \<Rightarrow> 'b \<Rightarrow> 'obj \<Rightarrow> 'e load_error option \<times> 'obj" where
  "loadFwmarkObjects LoadCollectionSpecFromReader LoadAndAssign bytes obj =
     (case loadFwmark LoadCollectionSpecFromReader bytes of
        Inl err \<Rightarrow> (Some err, obj)
      | Inr spec \<Rightarrow> (let (err, obj) = LoadAndAssign spec obj in (map_option LoadFailed err, obj)))"

lemma loadMarkObjects_ok:
  "fst (loadMarkObjects L A bytes obj) = None \<longleftrightarrow> (\<exists>spec. L bytes = Inr spec \<and> fst (A spec obj) = None)"
  by (simp add: loadMarkObjects_def loadMark_def load_spec_def split_beta Let_def split: sum.splits)

lemma loadFwmarkObjects_ok:
  "fst (loadFwmarkObjects L A bytes obj) = None \<longleftrightarrow> (\<exists>spec. L bytes = Inr spec \<and> fst (A spec obj) = None)"
  by (simp add: loadFwmarkObjects_def loadFwmark_def load_spec_def split_beta Let_def split: sum.splits)

section \<open>Objects\<close>

text \<open>
  The structs, with the names of their \<^verbatim>\<open>ebpf\<close> tags; \<open>'x\<close> is what stands for a program or a map (a
  handle, or a specification before loading).
\<close>

record 'x mark_programs =
  HandleSchedProcessExec :: 'x
  HandleSchedProcessExit :: 'x
  HandleSchedProcessFork :: 'x

record 'x mark_maps =
  mo_ActivePolicy :: 'x
  mo_CommRules :: 'x
  mo_Events :: 'x
  mo_Processes :: 'x

record 'x mark_objects =
  mo_programs :: "'x mark_programs"
  mo_maps :: "'x mark_maps"

record 'x fwmark_programs =
  FwmarkConnect4 :: 'x
  FwmarkConnect6 :: 'x
  FwmarkSockCreate :: 'x

record 'x fwmark_maps =
  fw_Processes :: 'x

record 'x fwmark_objects =
  fo_programs :: "'x fwmark_programs"
  fo_maps :: "'x fwmark_maps"

definition mark_program_tags :: "string mark_programs" where
  "mark_program_tags =
     \<lparr>HandleSchedProcessExec = ''handle_sched_process_exec'', HandleSchedProcessExit = ''handle_sched_process_exit'',
      HandleSchedProcessFork = ''handle_sched_process_fork''\<rparr>"

definition mark_map_tags :: "string mark_maps" where
  "mark_map_tags =
     \<lparr>mo_ActivePolicy = ''active_policy'', mo_CommRules = ''comm_rules'', mo_Events = ''events'', mo_Processes = ''processes''\<rparr>"

definition fwmark_program_tags :: "string fwmark_programs" where
  "fwmark_program_tags =
     \<lparr>FwmarkConnect4 = ''fwmark_connect4'', FwmarkConnect6 = ''fwmark_connect6'',
      FwmarkSockCreate = ''fwmark_sock_create''\<rparr>"

definition fwmark_map_tags :: "string fwmark_maps" where
  "fwmark_map_tags = \<lparr>fw_Processes = ''processes''\<rparr>"

section \<open>Closing\<close>

text \<open>A closer is a call on the state of the calls, which may fail.\<close>

type_synonym 'e closer = "'e calls \<Rightarrow> 'e os_error option \<times> 'e calls"

fun MarkClose :: "'e closer list \<Rightarrow> 'e closer" where
  "MarkClose [] s = (None, s)"
| "MarkClose (closer # closers) s =
     (let (err, s) = closer s in case err of Some e \<Rightarrow> (Some e, s) | None \<Rightarrow> MarkClose closers s)"

fun FwmarkClose :: "'e closer list \<Rightarrow> 'e closer" where
  "FwmarkClose [] s = (None, s)"
| "FwmarkClose (closer # closers) s =
     (let (err, s) = closer s in case err of Some e \<Rightarrow> (Some e, s) | None \<Rightarrow> FwmarkClose closers s)"

abbreviation closer_of :: "nat \<Rightarrow> 'e closer" where
  "closer_of h \<equiv> issue (CloseHandle h)"

definition markPrograms_Close :: "nat mark_programs \<Rightarrow> 'e closer" where
  "markPrograms_Close p =
     MarkClose [closer_of (HandleSchedProcessExec p), closer_of (HandleSchedProcessExit p),
       closer_of (HandleSchedProcessFork p)]"

definition markMaps_Close :: "nat mark_maps \<Rightarrow> 'e closer" where
  "markMaps_Close m =
     MarkClose [closer_of (mo_ActivePolicy m), closer_of (mo_CommRules m), closer_of (mo_Events m), closer_of (mo_Processes m)]"

definition markObjects_Close :: "nat mark_objects \<Rightarrow> 'e closer" where
  "markObjects_Close objs = MarkClose [markPrograms_Close (mo_programs objs), markMaps_Close (mo_maps objs)]"

definition fwmarkPrograms_Close :: "nat fwmark_programs \<Rightarrow> 'e closer" where
  "fwmarkPrograms_Close p =
     FwmarkClose [closer_of (FwmarkConnect4 p), closer_of (FwmarkConnect6 p), closer_of (FwmarkSockCreate p)]"

definition fwmarkMaps_Close :: "nat fwmark_maps \<Rightarrow> 'e closer" where
  "fwmarkMaps_Close m = FwmarkClose [closer_of (fw_Processes m)]"

definition fwmarkObjects_Close :: "nat fwmark_objects \<Rightarrow> 'e closer" where
  "fwmarkObjects_Close objs = FwmarkClose [fwmarkPrograms_Close (fo_programs objs), fwmarkMaps_Close (fo_maps objs)]"

text \<open>The handles in the order of their closing.\<close>

definition mark_handles :: "nat mark_objects \<Rightarrow> nat list" where
  "mark_handles objs =
     [HandleSchedProcessExec (mo_programs objs), HandleSchedProcessExit (mo_programs objs),
      HandleSchedProcessFork (mo_programs objs), mo_ActivePolicy (mo_maps objs), mo_CommRules (mo_maps objs),
      mo_Events (mo_maps objs), mo_Processes (mo_maps objs)]"

definition fwmark_handles :: "nat fwmark_objects \<Rightarrow> nat list" where
  "fwmark_handles objs =
     [FwmarkConnect4 (fo_programs objs), FwmarkConnect6 (fo_programs objs), FwmarkSockCreate (fo_programs objs),
      fw_Processes (fo_maps objs)]"

lemma FwmarkClose_is: "FwmarkClose closers s = MarkClose closers s"
  by (induction closers arbitrary: s) (simp_all add: split_beta Let_def split: option.splits)

lemma MarkClose_append:
  "MarkClose (cs @ ds) s = (case MarkClose cs s of (Some e, s) \<Rightarrow> (Some e, s) | (None, s) \<Rightarrow> MarkClose ds s)"
  by (induction cs arbitrary: s) (auto simp: split_beta Let_def split: option.splits)

text \<open>Closing closers of closers is closing all of them.\<close>

lemma MarkClose_concat: "MarkClose (map MarkClose css) s = MarkClose (concat css) s"
proof (induction css arbitrary: s)
  case (Cons cs css)
  then show ?case by (simp add: MarkClose_append split_beta Let_def split: prod.splits option.splits)
qed simp

lemma markObjects_Close_handles: "markObjects_Close objs s = MarkClose (map closer_of (mark_handles objs)) s"
  using MarkClose_concat [of "[[closer_of (HandleSchedProcessExec (mo_programs objs)),
      closer_of (HandleSchedProcessExit (mo_programs objs)), closer_of (HandleSchedProcessFork (mo_programs objs))],
     [closer_of (mo_ActivePolicy (mo_maps objs)), closer_of (mo_CommRules (mo_maps objs)), closer_of (mo_Events (mo_maps objs)),
      closer_of (mo_Processes (mo_maps objs))]]" s]
  by (simp only: markObjects_Close_def markPrograms_Close_def markMaps_Close_def mark_handles_def list.map concat.simps
      append.simps append_Nil2)

lemma fwmarkObjects_Close_handles: "fwmarkObjects_Close objs s = MarkClose (map closer_of (fwmark_handles objs)) s"
  using MarkClose_concat [of "[[closer_of (FwmarkConnect4 (fo_programs objs)), closer_of (FwmarkConnect6 (fo_programs objs)),
      closer_of (FwmarkSockCreate (fo_programs objs))], [closer_of (fw_Processes (fo_maps objs))]]" s]
  by (simp only: fwmarkObjects_Close_def fwmarkPrograms_Close_def fwmarkMaps_Close_def fwmark_handles_def
      FwmarkClose_is [abs_def] list.map concat.simps append.simps append_Nil2)

text \<open>What is closed is a prefix; a failing call is the last one.\<close>

lemma MarkClose_prefix:
  "\<exists>k \<le> length hs. snd (MarkClose (map closer_of hs) s) = s\<lparr>ca_log := ca_log s @ map CloseHandle (take k hs)\<rparr> \<and>
     (case fst (MarkClose (map closer_of hs) s) of
        None \<Rightarrow> k = length hs
      | Some e \<Rightarrow> 0 < k \<and> ca_answer s (length (ca_log s) + k - 1) = Some e) \<and>
     (\<forall>i. i + 1 < k \<longrightarrow> ca_answer s (length (ca_log s) + i) = None)"
proof (induction hs arbitrary: s)
  case Nil
  show ?case by simp
next
  case (Cons h hs)
  let ?s = "s\<lparr>ca_log := ca_log s @ [CloseHandle h]\<rparr>"
  have step: "closer_of h s = (ca_answer s (length (ca_log s)), ?s)" by (simp add: issue_def)
  show ?case
  proof (cases "ca_answer s (length (ca_log s))")
    case (Some e)
    then show ?thesis using step by (intro exI [of _ 1]) simp
  next
    case None
    from Cons [of ?s] obtain k where k: "k \<le> length hs"
      "snd (MarkClose (map closer_of hs) ?s) = ?s\<lparr>ca_log := ca_log ?s @ map CloseHandle (take k hs)\<rparr>"
      "case fst (MarkClose (map closer_of hs) ?s) of
         None \<Rightarrow> k = length hs | Some e \<Rightarrow> 0 < k \<and> ca_answer ?s (length (ca_log ?s) + k - 1) = Some e"
      "\<forall>i. i + 1 < k \<longrightarrow> ca_answer ?s (length (ca_log ?s) + i) = None" by blast
    have "ca_answer s (length (ca_log s) + i) = None" if "i + 1 < Suc k" for i
      using that None k(4) by (cases i) auto
    with k None step show ?thesis
      by (intro exI [of _ "Suc k"]) (auto split: option.splits)
  qed
qed

lemma closed_objects:
  assumes "MarkClose (map closer_of hs) s = (err, s')"
  shows "\<exists>k \<le> length hs. ca_log s' = ca_log s @ map CloseHandle (take k hs) \<and> (err = None \<longrightarrow> k = length hs) \<and>
    (\<forall>e. err = Some e \<longrightarrow> 0 < k \<and> ca_answer s (length (ca_log s) + k - 1) = Some e)"
proof -
  obtain k where "k \<le> length hs" "s' = s\<lparr>ca_log := ca_log s @ map CloseHandle (take k hs)\<rparr>"
    "case err of None \<Rightarrow> k = length hs | Some e \<Rightarrow> 0 < k \<and> ca_answer s (length (ca_log s) + k - 1) = Some e"
    using MarkClose_prefix [of hs s] assms by auto
  then show ?thesis by (intro exI [of _ k]) (auto split: option.splits)
qed

section \<open>The declared maps\<close>

text \<open>
  The maps of both BPF files, with the sizes of their keys and values. \<^verbatim>\<open>LoadAndAssign\<close> finds an object
  by the tag of its field, and reuses a pinned map of the name if the declarations agree.
\<close>

datatype bpf_map_type = BPF_MAP_TYPE_HASH | BPF_MAP_TYPE_ARRAY | BPF_MAP_TYPE_RINGBUF

record map_spec =
  ms_name :: string
  ms_type :: bpf_map_type
  ms_pinned :: bool
  ms_key :: nat
  ms_value :: nat
  ms_max_entries :: nat

definition MAX_KERNEL_COMM_RULES :: nat where "MAX_KERNEL_COMM_RULES = 1024"

definition processes_map :: map_spec where
  "processes_map =
     \<lparr>ms_name = ''processes'', ms_type = BPF_MAP_TYPE_HASH, ms_pinned = True, ms_key = 16, ms_value = 32,
      ms_max_entries = 32768\<rparr>"

definition comm_rules_map :: map_spec where
  "comm_rules_map =
     \<lparr>ms_name = ''comm_rules'', ms_type = BPF_MAP_TYPE_HASH, ms_pinned = True, ms_key = 24, ms_value = 16,
      ms_max_entries = MAX_KERNEL_COMM_RULES * 2\<rparr>"

definition active_policy_map :: map_spec where
  "active_policy_map =
     \<lparr>ms_name = ''active_policy'', ms_type = BPF_MAP_TYPE_ARRAY, ms_pinned = True, ms_key = 4, ms_value = 16,
      ms_max_entries = 1\<rparr>"

definition events_map :: map_spec where
  "events_map =
     \<lparr>ms_name = ''events'', ms_type = BPF_MAP_TYPE_RINGBUF, ms_pinned = True, ms_key = 0, ms_value = 104,
      ms_max_entries = 2 ^ 24\<rparr>"

definition mark_declared :: "map_spec list" where
  "mark_declared = [processes_map, comm_rules_map, active_policy_map, events_map]"

definition fwmark_processes_map :: map_spec where
  "fwmark_processes_map =
     \<lparr>ms_name = ''processes'', ms_type = BPF_MAP_TYPE_HASH, ms_pinned = True, ms_key = 16, ms_value = 32,
      ms_max_entries = 32768\<rparr>"

lemmas declared_defs = mark_declared_def processes_map_def comm_rules_map_def active_policy_map_def events_map_def

text \<open>The daemon unpins exactly the pinned maps, and the loader assigns each of them.\<close>

lemma pinned_declared: "pinnedMapNames = map ms_name (filter ms_pinned mark_declared)"
  by (simp add: pinnedMapNames_def declared_defs)

lemma assigned_declared:
  "{mo_ActivePolicy mark_map_tags, mo_CommRules mark_map_tags, mo_Events mark_map_tags, mo_Processes mark_map_tags} =
     ms_name ` set mark_declared"
  by (auto simp: mark_map_tags_def declared_defs)

text \<open>The socket programs share the map of processes: the declarations agree, and so do the bytes.\<close>

lemma shared_processes: "fwmark_processes_map \<in> set mark_declared" "fw_Processes fwmark_map_tags = ms_name fwmark_processes_map"
  by (simp_all add: fwmark_processes_map_def declared_defs fwmark_map_tags_def)

lemma declared_sizes:
  "length (key_bytes order pad offset key) = ms_key processes_map"
  "length (value_bytes order pad offset v) = ms_value processes_map"
  "event_size = ms_value events_map"
  by (simp_all add: declared_defs event_size_def)

end
