(* ===== verification/RuleCapacity.thy ===== *)
theory RuleCapacity
  imports Loaders
begin

text \<open>
  The room for rules: \<^verbatim>\<open>mark.c\<close> declares \<^verbatim>\<open>comm_rules\<close> with room for two generations of the largest
  policy. A daemon whose deletions succeed never needs more, at no moment of a switch.
\<close>

definition rule_count :: "'c marker \<Rightarrow> nat" where
  "rule_count m = card (fst ` set (k_comm_rules (wld m)))"

lemma rule_count_dom: "rule_count m = card (dom (ruletab m))"
  by (simp add: rule_count_def dom_map_of_conv_image_fst)

lemma rule_count_le: "(\<And>k. ruletab m' k \<noteq> None \<Longrightarrow> ruletab m k \<noteq> None) \<Longrightarrow> rule_count m' \<le> rule_count m"
  unfolding rule_count_dom by (intro card_mono finite_dom_map_of) auto

lemma rule_count_Put: "rule_count (snd (in_world (comm_rules_Put key v) m)) \<le> Suc (rule_count m)"
proof -
  have "fst ` set (k_comm_rules (snd (comm_rules_Put key v (wld m)))) \<subseteq> insert key (fst ` set (k_comm_rules (wld m)))"
    by (auto simp: comm_rules_Put_def syscall_def Let_def dom_update)
  then have "rule_count (snd (in_world (comm_rules_Put key v) m)) \<le> card (insert key (fst ` set (k_comm_rules (wld m))))"
    unfolding rule_count_def by (simp add: card_mono)
  also have "\<dots> \<le> Suc (rule_count m)" unfolding rule_count_def by (rule card_insert_le_m1) simp_all
  finally show ?thesis .
qed

lemma rule_count_delete: "rule_count (snd (delete_rule_keys entry keys m)) \<le> rule_count m"
proof (rule rule_count_le)
  fix k assume "ruletab (snd (delete_rule_keys entry keys m)) k \<noteq> None"
  then show "ruletab m k \<noteq> None" using delete_rule_keys_le [of entry keys m k] by auto
qed

text \<open>A rule that is written needs one entry at most; what fails frees what it took.\<close>

lemma rule_count_populate: "rule_count (snd (populate_rules g rules keys m)) \<le> rule_count m + length rules"
proof (induction rules arbitrary: keys m)
  case (Cons r rules)
  show ?case
  proof (cases "makeCommRuleKey g (cr_Comm r)")
    case (Inr key)
    let ?v = "\<lparr>rv_Priority = cr_Priority r, rv_Mark = cr_Mark r\<rparr>"
    let ?m = "snd (in_world (comm_rules_Put key ?v) m)"
    have put: "rule_count ?m \<le> Suc (rule_count m)" by (rule rule_count_Put)
    have undo: "rule_count (rememberUndeletedCommRules g remaining (snd (deleteCommRuleKeys keys ?m))) \<le>
        Suc (rule_count m + length rules)" for remaining
      using rule_count_delete [of LogRollbackRule keys ?m] put
      by (simp add: rememberUndeletedCommRules_def deleteCommRuleKeys_def rule_count_def)
    show ?thesis
      using Cons [of "keys @ [key]" m] Cons [of "keys @ [key]" ?m] put Inr undo
      by (auto simp: split_beta Let_def split: option.splits intro: order_trans)
  qed simp
qed simp

section \<open>The active generation alone\<close>

lemma only_active:
  assumes "rules_inv m" "\<And>g. g \<noteq> generation m \<Longrightarrow> mget (installedCommRules m) g = None"
  shows "ruletab m = mget (rule_entries (generation m) (kp_CommRules (kernelPolicy m)))"
proof
  fix k
  have "tracked [] m" and complete: "complete_generation (generation m) (kp_CommRules (kernelPolicy m)) m"
    using assms(1) by (simp_all add: rules_inv_def active_complete_def)
  show "ruletab m k = mget (rule_entries (generation m) (kp_CommRules (kernelPolicy m))) k"
  proof (cases "rk_Generation k = generation m")
    case True
    then show ?thesis using complete by (simp add: complete_generation_def)
  next
    case False
    then have "ruletab m k = None"
      using \<open>tracked [] m\<close> assms(2) [of "rk_Generation k"] by (cases "ruletab m k") (auto simp: tracked_def)
    then show ?thesis using rule_entries_other_generation [OF False] by simp
  qed
qed

lemma only_active_count:
  assumes "rules_inv m" "\<And>g. g \<noteq> generation m \<Longrightarrow> mget (installedCommRules m) g = None"
  shows "rule_count m \<le> length (kp_CommRules (kernelPolicy m))" "rule_count m \<le> MAX_KERNEL_COMM_RULES"
proof -
  let ?rules = "kp_CommRules (kernelPolicy m)"
  have "rule_count m = card (fst ` set (rule_entries (generation m) ?rules))"
    using only_active [OF assms] by (simp add: rule_count_dom dom_map_of_conv_image_fst)
  also have "\<dots> \<le> length ?rules"
    using card_length [of "map fst (rule_entries (generation m) ?rules)"] by (simp add: rule_entries_def image_image)
  finally show "rule_count m \<le> length ?rules" .
  moreover have "length ?rules \<le> 1024"
    using assms(1) by (simp add: rules_inv_def active_complete_def normal_policy_def)
  ultimately show "rule_count m \<le> MAX_KERNEL_COMM_RULES" by (simp add: MAX_KERNEL_COMM_RULES_def)
qed

section \<open>At every moment of a switch\<close>

text \<open>The marker when the first rule of the new generation is written, and after a switch.\<close>

abbreviation before_populate :: "u64 \<Rightarrow> 'c marker \<Rightarrow> 'c marker" where
  "before_populate g m \<equiv>
     (cleanupInactiveCommRulesLocked (generation m) (snd (in_world listProcesses m)))\<lparr>policyGeneration := g\<rparr>"

lemma before_populate_count:
  assumes inv: "daemon_inv m"
  shows "rule_count (before_populate g m) \<le> MAX_KERNEL_COMM_RULES"
proof -
  let ?m1 = "snd (in_world listProcesses m)"
  let ?m2 = "cleanupInactiveCommRulesLocked (generation m) ?m1"
  have ok: "maps_ok ?m1" and ri: "rules_inv m" using inv by (simp_all add: daemon_inv_def maps_ok_in_world)
  have inv1: "rules_inv ?m1" by (rule rules_inv_still [OF ri]) simp
  have "generation ?m1 = generation m" by simp
  then have inv2: "rules_inv ?m2" using rules_inv_cleanup [OF inv1] by simp
  have "core ?m2 = core ?m1" using cleanup_spec(3) [of ?m1 "[]" "generation m"] inv1 by (simp add: rules_inv_def)
  then have "generation ?m2 = generation m" by (auto dest: coreD)
  then have "mget (installedCommRules ?m2) g' = None" if "g' \<noteq> generation ?m2" for g'
    using cleanup_all [OF ok] that by simp
  from only_active_count(2) [OF inv2 this] show ?thesis by (simp add: rule_count_def)
qed

lemma switch_room:
  assumes "daemon_inv m" "length written \<le> MAX_KERNEL_COMM_RULES"
  shows "rule_count (snd (populate_rules g written [] (before_populate g m))) \<le> ms_max_entries comm_rules_map"
  using before_populate_count [OF assms(1), of g] rule_count_populate [of g written "[]" "before_populate g m"] assms(2)
  by (simp add: comm_rules_map_def)

lemma switch_count:
  assumes inv: "daemon_inv m" and np: "normal_policy policy"
    and run: "setKernelPolicyLocked policy chk m = ((g, None), m')"
  shows "rule_count m' \<le> length (kp_CommRules policy)"
proof -
  have ok: "maps_ok m" and ri: "rules_inv m" using inv by (simp_all add: daemon_inv_def)
  note spec = setKernelPolicyLocked_spec [OF ri np run]
  obtain procs where ls: "fst (listProcesses (wld m)) = Inr procs"
    using run by (cases "fst (listProcesses (wld m))") (auto simp: setKernelPolicyLocked_def split_beta Let_def)
  have "core (cleanupInactiveCommRulesLocked (generation m) (snd (in_world listProcesses m))) = core m"
    using cleanup_spec(3) [of "snd (in_world listProcesses m)" "[]" "generation m"]
      rules_inv_still [OF ri, of listProcesses]
    by (simp add: rules_inv_def settings_core [OF in_world_frame(1)])
  then obtain g' where nxt: "nextPolicyGeneration (maxU64 (policyGeneration m) (generation m)) = Some g'"
    using run ls
    by (cases "nextPolicyGeneration (maxU64 (policyGeneration m) (generation m))")
      (auto simp: setKernelPolicyLocked_def split_beta Let_def dest: coreD)
  obtain m'' where m'': "setKernelPolicyLocked policy chk m = ((g', None), m'')"
    "\<forall>h. h \<noteq> g' \<longrightarrow> mget (installedCommRules m'') h = None"
    using faultless_switch [OF ok np ls nxt ri, of chk] by blast
  have "rules_inv m'" "generation m' = g" "kernelPolicy m' = policy"
    using spec by (simp_all add: switch_done_def)
  moreover have "g' = g" "m'' = m'" using m''(1) run by simp_all
  ultimately show ?thesis using only_active_count(1) [of m'] m''(2) by simp
qed

end
