(* ===== verification/CommandLine.thy ===== *)
theory CommandLine
  imports Server FwmarkManager
begin

text \<open>
  The beginning of \<^verbatim>\<open>main\<close>: the checks of the flags, what the daemon is started with, and the
  commands printed for the operator (\<^verbatim>\<open>fwmarkDropCommand\<close>, \<^verbatim>\<open>httpControlURL\<close>,
  \<^verbatim>\<open>shellSingleQuoteValue\<close>). The parser of the \<^verbatim>\<open>flag\<close> package gives the fields.
\<close>

section \<open>Flags\<close>

record cli_flags =
  cl_pinPath :: string
  cl_rules :: default_check_rules
  cl_markValue :: u64
  cl_fwmarkValue :: string
  cl_enableFWMark :: bool
  cl_markPriority :: int
  cl_httpAddr :: string
  cl_watcher :: bool
  cl_multiRules :: "string list"

definition defaultMarkValue :: u64 where "defaultMarkValue = 0xeb9f000100000001"

datatype cli_outcome =
    FatalPriority int
  | FatalNeedsFwmark
  | FatalFwmark num_error
  | Watch string
  | Serve main_flags

definition resolve_flags :: "cli_flags \<Rightarrow> cli_outcome" where
  "resolve_flags flags =
     (if cl_markPriority flags < -128 \<or> 127 < cl_markPriority flags then FatalPriority (cl_markPriority flags)
      else if cl_watcher flags then Watch (cl_pinPath flags)
      else if cl_fwmarkValue flags \<noteq> '''' \<and> \<not> cl_enableFWMark flags then FatalNeedsFwmark
      else
        (let serve = (\<lambda>mark. Serve
               \<lparr>fl_pinPath = cl_pinPath flags, fl_rules = cl_rules flags,
                fl_priority = word_of_int (cl_markPriority flags), fl_markValue = mark,
                fl_multiRules = cl_multiRules flags, fl_httpAddr = cl_httpAddr flags,
                fl_fwmark = cl_enableFWMark flags\<rparr>)
         in if cl_fwmarkValue flags \<noteq> ''''
            then (case Parse (cl_fwmarkValue flags) of
                    Inl err \<Rightarrow> FatalFwmark err
                  | Inr fwm \<Rightarrow> serve (ToMark fwm))
            else serve (cl_markValue flags)))"

section \<open>Printed commands\<close>

definition fwmarkDropCommand :: "u32 \<Rightarrow> string" where
  "fwmarkDropCommand mark =
     (let formattedMark = Format mark
      in ''sudo nft delete table inet ebpf_test_fwmark 2>/dev/null || true; '' @
         ''sudo nft add table inet ebpf_test_fwmark; '' @
         ''sudo nft 'add chain inet ebpf_test_fwmark output { type filter hook output priority 0; policy accept; }'; '' @
         ''sudo nft add rule inet ebpf_test_fwmark output meta mark '' @ formattedMark @ '' counter drop; '' @
         ''sudo nft add rule inet ebpf_test_fwmark output socket mark '' @ formattedMark @ '' counter drop; '' @
         ''sudo nft list chain inet ebpf_test_fwmark output'')"

definition httpControlURL :: "string \<Rightarrow> string" where
  "httpControlURL addr =
     (case SplitHostPort addr of
        None \<Rightarrow> ''http://'' @ addr
      | Some (host, port) \<Rightarrow>
          (let host = (if host = '''' \<or> host = ''::'' \<or> host = ''[::]'' then ''127.0.0.1'' else host)
           in ''http://'' @ JoinHostPort (trim_set {CHR ''['', CHR '']''} host) port))"

abbreviation quote :: char where "quote \<equiv> CHR 0x27"

definition shellSingleQuoteValue :: "string \<Rightarrow> string" where
  "shellSingleQuoteValue value' = replace_byte quote [quote, CHR 0x5C, quote, quote] value'"

definition control_command :: "daemon_control_config \<Rightarrow> string \<Rightarrow> string" where
  "control_command config controlURL =
     (let field = (\<lambda>name v. '' -d '' @ [quote] @ name @ ''='' @ shellSingleQuoteValue v @ [quote]);
          rules = cc_Rules config
      in ''curl -X POST'' @ field ''rule_comm'' (RuleComm rules) @ field ''rule_cmd'' (RuleCmd rules) @
         field ''rule_exe'' (RuleExe rules) @ field ''rule_ppid'' (RulePPID rules) @ '' '' @ controlURL @ ''/rules'')"

section \<open>What the checks give\<close>

text \<open>
  A daemon that is started has the priority that was asked for, and the mark that was asked for
  or one from which the fwmark that was asked for is derived.
\<close>

lemma resolve_serve:
  assumes "resolve_flags flags = Serve mf"
  shows "sint (fl_priority mf) = cl_markPriority flags"
    and "fl_rules mf = cl_rules flags \<and> fl_multiRules mf = cl_multiRules flags \<and> fl_pinPath mf = cl_pinPath flags"
    and "if cl_fwmarkValue flags = '''' then fl_markValue mf = cl_markValue flags
      else fl_fwmark mf \<and> Parse (cl_fwmarkValue flags) = Inr (FromMark (fl_markValue mf))"
proof -
  have range: "-128 \<le> cl_markPriority flags" "cl_markPriority flags \<le> 127"
    using assms by (auto simp: resolve_flags_def split: if_splits)
  have "sint (word_of_int (cl_markPriority flags) :: i8) = cl_markPriority flags"
    using range by (simp add: sint_sbintrunc' signed_take_bit_int_eq_self)
  with assms show "sint (fl_priority mf) = cl_markPriority flags"
    by (auto simp: resolve_flags_def Let_def split: if_splits sum.splits)
  show "fl_rules mf = cl_rules flags \<and> fl_multiRules mf = cl_multiRules flags \<and> fl_pinPath mf = cl_pinPath flags"
    using assms by (auto simp: resolve_flags_def Let_def split: if_splits sum.splits)
  show "if cl_fwmarkValue flags = '''' then fl_markValue mf = cl_markValue flags
      else fl_fwmark mf \<and> Parse (cl_fwmarkValue flags) = Inr (FromMark (fl_markValue mf))"
    using assms by (auto simp: resolve_flags_def Let_def FromMark_ToMark split: if_splits sum.splits)
qed

section \<open>What the shell reads\<close>

text \<open>
  A word of a POSIX shell as far as single quotes and backslashes make it; the flag says that
  the reader is between quotes. White space outside quotes ends the word and is not allowed here.
\<close>

fun sh_word :: "bool \<Rightarrow> string \<Rightarrow> string option" where
  "sh_word True [] = None"
| "sh_word True (c # cs) =
     (if c = quote then sh_word False cs else map_option ((#) c) (sh_word True cs))"
| "sh_word False [] = Some []"
| "sh_word False (c # cs) =
     (if c = quote then sh_word True cs
      else if c = CHR 0x5C then
        (case cs of [] \<Rightarrow> None | d # ds \<Rightarrow> map_option ((#) d) (sh_word False ds))
      else if c \<in> {CHR '' '', CHR 0x09, CHR 0x0A} then None
      else map_option ((#) c) (sh_word False cs))"

lemma sh_word_quoted:
  "sh_word True (shellSingleQuoteValue v @ rest) = map_option ((@) v) (sh_word True rest)"
proof (induction v)
  case Nil
  show ?case by (cases "sh_word True rest") (simp_all add: shellSingleQuoteValue_def replace_byte_def)
next
  case (Cons c v)
  then show ?case by (cases "sh_word True rest") (simp_all add: shellSingleQuoteValue_def replace_byte_def)
qed

lemma shell_reads_value: "sh_word False (quote # shellSingleQuoteValue v @ [quote]) = Some v"
  by (simp add: sh_word_quoted)

text \<open>
  \<^verbatim>\<open>curl -d\<close> sends the words as they are, joined by ampersands, and the server takes the values
  apart with \<^verbatim>\<open>url.ParseQuery\<close>: a value comes back only if it has no byte that means something there.
\<close>

lemma printed_value:
  assumes "set v \<inter> {CHR ''&'', CHR ''+'', CHR ''%'', CHR '';''} = {}"
  shows "ParseQuery (''rule_comm='' @ v) = Some [(''rule_comm'', v)]"
proof -
  have same: "QueryUnescape s = Some s" if "CHR ''%'' \<notin> set s" "CHR ''+'' \<notin> set s" for s
    using that by (induction s) auto
  have "split_on (CHR ''&'') (''rule_comm='' @ v) = [''rule_comm='' @ v]"
    using assms by (intro split_on_no_sep) auto
  then show ?thesis
    using assms same [of v] same [of "''rule_comm''"] by (auto simp: ParseQuery_def cut_at_def)
qed

lemma printed_plus: "ParseQuery ''rule_comm=^fire.+$'' = Some [(''rule_comm'', ''^fire. $'')]"
  by (simp add: ParseQuery_def cut_at_def)

section \<open>The address of the server\<close>

text \<open>A server that listens on every address is shown with the loopback address.\<close>

lemma URL_of_wildcard:
  assumes "set port \<inter> {CHR '':'', CHR ''['', CHR '']''} = {}"
  shows "httpControlURL ('':'' @ port) = ''http://127.0.0.1:'' @ port"
    and "httpControlURL (''[::]:'' @ port) = ''http://127.0.0.1:'' @ port"
proof -
  show "httpControlURL ('':'' @ port) = ''http://127.0.0.1:'' @ port"
    using SplitHostPort_plain [of "''''" port] assms by (simp add: httpControlURL_def trim_set_def JoinHostPort_def)
  have "last_index (CHR '':'') (''[::]'' @ CHR '':'' # port) = Some 4"
    using assms last_index_append [of "CHR '':''" port "''[::]''"] by auto
  then have "SplitHostPort (''[::]:'' @ port) = Some (''::'', port)"
    using assms by (auto simp: SplitHostPort_def)
  then show "httpControlURL (''[::]:'' @ port) = ''http://127.0.0.1:'' @ port"
    by (simp add: httpControlURL_def trim_set_def JoinHostPort_def)
qed

lemma URL_of_host:
  assumes "set port \<inter> {CHR '':'', CHR ''['', CHR '']''} = {}" "set host \<inter> {CHR '':'', CHR ''['', CHR '']''} = {}"
    and "host \<noteq> ''''"
  shows "httpControlURL (host @ '':'' @ port) = ''http://'' @ host @ '':'' @ port"
proof -
  have "dropWhile (\<lambda>c. c \<in> {CHR ''['', CHR '']''}) s = s" if "set s \<subseteq> set host" for s
    using that assms(2) by (cases s) auto
  then have "trim_set {CHR ''['', CHR '']''} host = host" by (simp add: trim_set_def)
  moreover have "host \<noteq> ''::''" "host \<noteq> ''[::]''" "CHR '':'' \<notin> set host" using assms(2) by auto
  ultimately show ?thesis
    using SplitHostPort_plain [OF assms(2,1)] assms(3) by (simp add: httpControlURL_def JoinHostPort_def)
qed

end
