(* ===== verification/Serving.thy ===== *)
theory Serving
  imports CommandLine
begin

text \<open>
  The control server as a whole (\<^verbatim>\<open>startDaemonControlServer\<close>, \<^verbatim>\<open>shutdown\<close> and the flag type
  \<^verbatim>\<open>multiRuleFlag\<close> of \<^verbatim>\<open>cmd/main.go\<close>): its start, the patterns it registers and the handler a request
  gets, with the status of the answer. A request comes with the segments of its cleaned and decoded
  path, \<^verbatim>\<open>/\<close> being one empty segment, with its body as the parsers of \<^verbatim>\<open>Control\<close> take it, and with the
  time of day as text.
\<close>

section \<open>Services\<close>

text \<open>A service answers requests one after the other; \<open>None\<close> stands for a handler that does not return.\<close>

fun serve_all :: "('q \<Rightarrow> 's \<Rightarrow> ('a \<times> 's) option) \<Rightarrow> 'q list \<Rightarrow> 's \<Rightarrow> ('a list \<times> 's) option" where
  "serve_all serve [] s = Some ([], s)"
| "serve_all serve (q # qs) s =
     (case serve q s of
        None \<Rightarrow> None
      | Some (a, s) \<Rightarrow> map_option (\<lambda>(as, s). (a # as, s)) (serve_all serve qs s))"

locale service =
  fixes serve :: "'q \<Rightarrow> 's \<Rightarrow> ('a \<times> 's) option"
    and inv :: "'s \<Rightarrow> bool" and safe :: "'q \<Rightarrow> bool" and view :: "'s \<Rightarrow> 'v"
  assumes keeps: "inv s \<Longrightarrow> serve q s = Some (a, s') \<Longrightarrow> inv s'"
    and safe_view: "inv s \<Longrightarrow> safe q \<Longrightarrow> serve q s = Some (a, s') \<Longrightarrow> view s' = view s"
begin

lemma session_inv: "serve_all serve qs s = Some (as, s') \<Longrightarrow> inv s \<Longrightarrow> inv s'"
  by (induction qs arbitrary: s as) (auto split: option.splits dest: keeps)

lemma session_view:
  "serve_all serve qs s = Some (as, s') \<Longrightarrow> inv s \<Longrightarrow> (\<And>q. q \<in> set qs \<Longrightarrow> safe q) \<Longrightarrow> view s' = view s"
proof (induction qs arbitrary: s as)
  case (Cons q qs)
  then obtain a s1 as1 where step: "serve q s = Some (a, s1)" and rest: "serve_all serve qs s1 = Some (as1, s')"
    by (auto split: option.splits)
  have "view s' = view s1" by (rule Cons.IH [OF rest keeps [OF Cons.prems(2) step]]) (use Cons.prems(3) in simp)
  also have "\<dots> = view s" using safe_view [OF Cons.prems(2) _ step] Cons.prems(3) by simp
  finally show ?case .
qed simp

lemma session_length: "serve_all serve qs s = Some (as, s') \<Longrightarrow> length as = length qs"
  by (induction qs arbitrary: s as) (auto split: option.splits)

end

section \<open>Patterns\<close>

text \<open>A segment of a pattern: a name, one segment of any name, or all that follows (a trailing slash).\<close>

datatype segment = Lit string | Wild | Following

datatype endpoint = GetPage | GetState | PostRules | GetMultiRules | PostMultiRules | DeleteMultiRule

definition routes :: "((string \<times> segment list) \<times> endpoint) list" where
  "routes =
     [((''GET'', [Following]), GetPage),
      ((''GET'', [Lit ''state'']), GetState),
      ((''POST'', [Lit ''rules'']), PostRules),
      ((''POST'', [Lit ''mark-name'']), PostRules),
      ((''GET'', [Lit ''multirules'']), GetMultiRules),
      ((''POST'', [Lit ''multirules'']), PostMultiRules),
      ((''DELETE'', [Lit ''multirules'', Wild]), DeleteMultiRule)]"

text \<open>
  What \<^verbatim>\<open>http.ServeMux\<close> documents: a pattern for \<^verbatim>\<open>GET\<close> takes \<^verbatim>\<open>HEAD\<close> too, the most specific pattern wins, and
  a path that only patterns of other methods match is answered with 405.
\<close>

fun match_segments :: "segment list \<Rightarrow> string list \<Rightarrow> string list option" where
  "match_segments [] [] = Some []"
| "match_segments [] (s # ss) = None"
| "match_segments (Following # ps) ss = Some []"
| "match_segments (p # ps) [] = None"
| "match_segments (Lit name # ps) (s # ss) = (if s = name then match_segments ps ss else None)"
| "match_segments (Wild # ps) (s # ss) = (if s = '''' then None else map_option ((#) s) (match_segments ps ss))"

definition method_allowed :: "string \<Rightarrow> string \<Rightarrow> bool" where
  "method_allowed pattern actual \<longleftrightarrow> pattern = actual \<or> pattern = ''GET'' \<and> actual = ''HEAD''"

datatype routing = Found endpoint "string list" | WrongMethod | NoRoute

definition route :: "string \<Rightarrow> string list \<Rightarrow> routing" where
  "route actual path =
     (let hits = filter (\<lambda>((_, segs), _). match_segments segs path \<noteq> None) routes;
          allowed = filter (\<lambda>((meth, _), _). method_allowed meth actual) hits;
          best = (case find (\<lambda>((_, segs), _). Following \<notin> set segs) allowed of
                    None \<Rightarrow> (case allowed of [] \<Rightarrow> None | r # _ \<Rightarrow> Some r) | Some r \<Rightarrow> Some r)
      in case best of
           Some ((_, segs), e) \<Rightarrow> Found e (the (match_segments segs path))
         | None \<Rightarrow> if hits = [] then NoRoute else WrongMethod)"

section \<open>Requests\<close>

record request =
  sr_method :: string
  sr_path :: "string list"
  sr_body :: http_request
  sr_time :: string

datatype 'e reply = Page | PageNotFound | MethodNotAllowed | NoHandler | Reply "'e response"

fun response_status :: "'e response \<Rightarrow> nat" where
  "response_status (OkState doc) = 200"
| "response_status (OkUpdate update) = 200"
| "response_status (OkList rules) = 200"
| "response_status (Created rule) = 201"
| "response_status NoContent = 204"
| "response_status (BadRequest err) = 400"
| "response_status NotFound = 404"
| "response_status (InternalError err) = 500"
| "response_status (StateError err) = 500"

fun status :: "'e reply \<Rightarrow> nat" where
  "status Page = 200"
| "status PageNotFound = 404"
| "status MethodNotAllowed = 405"
| "status NoHandler = 404"
| "status (Reply resp) = response_status resp"

text \<open>The page of the operator, under \<^verbatim>\<open>/\<close> only.\<close>

definition handlePage :: "string list \<Rightarrow> 'e reply" where
  "handlePage path = (if path \<noteq> [''''] then PageNotFound else Page)"

definition handle ::
    "(string \<Rightarrow> 'e + regexp) \<Rightarrow> (nat \<Rightarrow> nat \<Rightarrow> bool) \<Rightarrow> request \<Rightarrow> control \<Rightarrow> ('e reply \<times> control) option" where
  "handle parse same r s =
     (case route (sr_method r) (sr_path r) of
        NoRoute \<Rightarrow> Some (NoHandler, s)
      | WrongMethod \<Rightarrow> Some (MethodNotAllowed, s)
      | Found e vs \<Rightarrow>
          (case e of
             GetPage \<Rightarrow> Some (handlePage (sr_path r), s)
           | GetState \<Rightarrow> (let (resp, s) = handleState parse same (sr_time r) s in Some (Reply resp, s))
           | PostRules \<Rightarrow>
               (let (resp, s) = handleRuleUpdate parse same (sr_body r) (cc_MarkPriority (ct_config s))
                      (cc_MarkValue (ct_config s)) s
                in Some (Reply resp, s))
           | GetMultiRules \<Rightarrow> Some (Reply (handleList s), s)
           | PostMultiRules \<Rightarrow> map_option (\<lambda>(resp, s). (Reply resp, s)) (handleRegister parse same (sr_body r) s)
           | DeleteMultiRule \<Rightarrow> (let (resp, s) = handleUnregister (hd vs) s in Some (Reply resp, s))))"

section \<open>Start and end\<close>

text \<open>
  \<open>Listen\<close> gives the address that was bound, or fails. The rules compiled before, when the policy was
  made; if they did not, the listener would be closed again. \<open>cs_serving\<close>: requests are answered.
\<close>

record control_server =
  cs_control :: control
  cs_url :: string
  cs_command :: string
  cs_serving :: bool

datatype ('n, 'e) server_error = ListenFailed 'n | RulesFailed "'e rules_error"

definition startDaemonControlServer ::
    "(string \<Rightarrow> 'e + regexp) \<Rightarrow> (nat \<Rightarrow> nat \<Rightarrow> bool) \<Rightarrow> (string \<Rightarrow> 'n + string) \<Rightarrow> string \<Rightarrow> control \<Rightarrow>
     ('n, 'e) server_error + control_server" where
  "startDaemonControlServer parse same Listen addr s =
     (case Listen addr of
        Inl err \<Rightarrow> Inl (ListenFailed err)
      | Inr bound \<Rightarrow>
          (let config = (ct_config s)\<lparr>cc_HTTPAddr := bound\<rparr>
           in case compileDefaultKernelPolicy parse same (cc_Rules config) (cc_MarkPriority config) (cc_MarkValue config) of
                Inl err \<Rightarrow> Inl (RulesFailed err)
              | Inr compiled \<Rightarrow>
                  (let controlURL = httpControlURL bound
                   in Inr \<lparr>cs_control = s\<lparr>ct_config := config\<rparr>, cs_url = controlURL,
                           cs_command = control_command config controlURL, cs_serving = True\<rparr>)))"

text \<open>The server may be \<^verbatim>\<open>nil\<close>; an error of \<^verbatim>\<open>Shutdown\<close> is logged, the server takes no requests either way.\<close>

definition shutdown :: "'n option \<Rightarrow> control_server option \<Rightarrow> 'n list \<times> control_server option" where
  "shutdown err server =
     (case server of
        None \<Rightarrow> ([], None)
      | Some srv \<Rightarrow> (case err of None \<Rightarrow> [] | Some e \<Rightarrow> [e], Some (srv\<lparr>cs_serving := False\<rparr>)))"

text \<open>The flag \<^verbatim>\<open>-multirule\<close> may be repeated.\<close>

definition multiRuleFlag_String :: "string list \<Rightarrow> string" where
  "multiRuleFlag_String f = join_with '','' f"

definition multiRuleFlag_Set :: "string \<Rightarrow> string list \<Rightarrow> string list" where
  "multiRuleFlag_Set v f = f @ [v]"

lemma multiRuleFlag_order: "fold multiRuleFlag_Set specs f = f @ specs"
  by (induction specs arbitrary: f) (simp_all add: multiRuleFlag_Set_def)

section \<open>Routing\<close>

lemmas route_defs = route_def routes_def method_allowed_def

text \<open>Every path has a route; which handler a request reaches.\<close>

lemma route_page: "route ''GET'' [''''] = Found GetPage []"
  by (simp add: route_defs)

lemma route_found:
  "route ''GET'' [''state''] = Found GetState []" "route ''POST'' [''rules''] = Found PostRules []"
  "route ''POST'' [''mark-name''] = Found PostRules []" "route ''GET'' [''multirules''] = Found GetMultiRules []"
  "route ''POST'' [''multirules''] = Found PostMultiRules []"
  "id' \<noteq> '''' \<Longrightarrow> route ''DELETE'' [''multirules'', id'] = Found DeleteMultiRule [id']"
  "route ''DELETE'' [''multirules''] = WrongMethod" "route ''DELETE'' [''multirules'', ''''] = WrongMethod"
  by (simp_all add: route_defs)

lemma match_Cons [simp]:
  "match_segments [Lit l] path = (if path = [l] then Some [] else None)"
  "match_segments [Lit l, Wild] path =
     (case path of [s, v] \<Rightarrow> if s = l \<and> v \<noteq> '''' then Some [v] else None | _ \<Rightarrow> None)"
  by (cases path; cases "tl path"; cases "tl (tl path)"; simp)+

lemma method_allowed_simps [simp]:
  "method_allowed ''POST'' actual \<longleftrightarrow> actual = ''POST''" "method_allowed ''DELETE'' actual \<longleftrightarrow> actual = ''DELETE''"
  "method_allowed ''GET'' ''GET''" "method_allowed ''GET'' ''HEAD''"
  "\<not> method_allowed ''GET'' ''POST''" "\<not> method_allowed ''GET'' ''DELETE''"
  by (auto simp: method_allowed_def)

lemma route_table:
  "route actual path =
     (if path = [''state''] \<and> method_allowed ''GET'' actual then Found GetState []
      else if path \<in> {[''rules''], [''mark-name'']} \<and> actual = ''POST'' then Found PostRules []
      else if path = [''multirules''] \<and> method_allowed ''GET'' actual then Found GetMultiRules []
      else if path = [''multirules''] \<and> actual = ''POST'' then Found PostMultiRules []
      else if (\<exists>v. path = [''multirules'', v] \<and> v \<noteq> '''') \<and> actual = ''DELETE'' then Found DeleteMultiRule [path ! 1]
      else if method_allowed ''GET'' actual then Found GetPage []
      else WrongMethod)"
proof -
  consider "path = [''state'']" | "path = [''rules'']" | "path = [''mark-name'']" | "path = [''multirules'']"
    | v where "path = [''multirules'', v]" "v \<noteq> ''''"
    | (other) "path \<notin> {[''state''], [''rules''], [''mark-name''], [''multirules'']}"
      "\<not> (\<exists>v. path = [''multirules'', v] \<and> v \<noteq> '''')" by blast
  then show ?thesis
  proof cases
    case other
    then have "match_segments [Lit ''state''] path = None" "match_segments [Lit ''rules''] path = None"
      "match_segments [Lit ''mark-name''] path = None" "match_segments [Lit ''multirules''] path = None"
      by simp_all
    moreover have "match_segments [Lit ''multirules'', Wild] path = None"
      using other(2) by (cases path; cases "tl path"; cases "tl (tl path)") auto
    moreover have "match_segments [Following] path = Some []" by (cases path) simp_all
    ultimately have "route actual path = (if method_allowed ''GET'' actual then Found GetPage [] else WrongMethod)"
      by (simp add: route_def routes_def del: match_Cons)
    then show ?thesis using other by auto
  qed (cases "method_allowed ''GET'' actual"; cases "actual = ''POST''"; cases "actual = ''DELETE''";
      simp add: route_def routes_def)+
qed

section \<open>What a request changes\<close>

lemma GrabProcessMapState_processes: "k_processes (snd (GrabProcessMapState w)) = k_processes w"
  by (simp add: GrabProcessMapState_def readProcessMapState_def processes_Iterate_def syscall_def split_beta Let_def
      stillD [OF listProcesses_still] split: sum.split option.split)

text \<open>All of the program's state: what is left out is the record of the calls to the environment.\<close>

definition shown_state where
  "shown_state s =
     (ct_config s, env (ct_daemon s), settings (ct_daemon s), mirror (ct_daemon s),
      k_processes (wld (ct_daemon s)), policy_tables (wld (ct_daemon s)))"

lemma shown_handleState: "shown_state (snd (handleState parse same refreshedAt s)) = shown_state s"
proof -
  have "ct_daemon (snd (handleState parse same refreshedAt s)) = snd (in_world GrabProcessMapState (ct_daemon s))"
    by (simp add: handleState_def daemonControlState_def split_beta Let_def split: sum.split)
  then show ?thesis
    using handleState_frame [of parse same refreshedAt s] by (simp add: shown_state_def GrabProcessMapState_processes)
qed

lemma handle_inv:
  assumes inv: "control_inv parse same s" and run: "handle parse same r s = Some (reply, s')"
  shows "control_inv parse same s'"
  using run control_inv_state [OF inv, of "sr_time r"]
    control_inv_rule_update [OF inv, of "sr_body r" "cc_MarkPriority (ct_config s)" "cc_MarkValue (ct_config s)"]
    control_steps_inv [OF handler_steps(1) inv] control_steps_inv [OF handler_steps(2) inv] inv
  by (auto simp: handle_def split_beta Let_def prod_eq_iff split: routing.splits endpoint.splits)

lemma handle_safe:
  assumes "sr_method r \<notin> {''POST'', ''DELETE''}" "handle parse same r s = Some (reply, s')"
  shows "shown_state s' = shown_state s"
  using assms
  by (auto simp: handle_def route_table split_beta Let_def shown_handleState split: if_splits)

lemma forceTraversal_config [simp]: "ct_config (snd (forceTraversal s)) = ct_config s"
  by (simp add: forceTraversal_def split_beta Let_def)

lemma set_manager_config [simp]: "ct_config (set_manager mgr s) = ct_config s"
  by (simp add: set_manager_def)

lemma handleRegister_config: "handleRegister parse same r s = Some (resp, s') \<Longrightarrow> ct_config s' = ct_config s"
  by (auto simp: handleRegister_def split_beta Let_def split: sum.splits option.splits)

text \<open>
  A request that is answered with an error changes no configuration, and no rule unless it was to delete
  one: that one is gone.
\<close>

lemma handle_refused:
  assumes inv: "control_inv parse same s" and run: "handle parse same r s = Some (reply, s')" and err: "400 \<le> status reply"
  shows "ct_config s' = ct_config s"
    and "mget (mm_rules (manager s')) = mget (mm_rules (manager s)) \<or>
      (sr_method r = ''DELETE'' \<and> status reply = 500 \<and>
       (\<exists>ruleID. sr_path r = [''multirules'', sr_path r ! 1] \<and> ParseUint 10 64 (sr_path r ! 1) = Inr ruleID \<and>
          mget (mm_rules (manager s)) (of_nat ruleID) \<noteq> None \<and>
          mget (mm_rules (manager s')) = (mget (mm_rules (manager s)))(of_nat ruleID := None)))"
proof -
  have state: "ct_config (snd (handleState parse same now s)) = ct_config s"
    "manager (snd (handleState parse same now s)) = manager s" for now
    using handleState_frame [of parse same now s] by (simp_all add: manager_def)
  have "ct_config s' = ct_config s \<and> (mget (mm_rules (manager s')) = mget (mm_rules (manager s)) \<or>
      (sr_method r = ''DELETE'' \<and> status reply = 500 \<and>
       (\<exists>ruleID. sr_path r = [''multirules'', sr_path r ! 1] \<and> ParseUint 10 64 (sr_path r ! 1) = Inr ruleID \<and>
          mget (mm_rules (manager s)) (of_nat ruleID) \<noteq> None \<and>
          mget (mm_rules (manager s')) = (mget (mm_rules (manager s)))(of_nat ruleID := None))))"
  proof (cases "route (sr_method r) (sr_path r)")
    case (Found e vs)
    show ?thesis
    proof (cases e)
      case PostRules
      obtain resp where update: "handleRuleUpdate parse same (sr_body r) (cc_MarkPriority (ct_config s))
          (cc_MarkValue (ct_config s)) s = (resp, s')" and reply: "reply = Reply resp"
        using run Found PostRules by (auto simp: handle_def split: prod.splits)
      then show ?thesis using rule_update_keeps [OF inv update] err by auto
    next
      case PostMultiRules
      obtain resp where reg: "handleRegister parse same (sr_body r) s = Some (resp, s')" and reply: "reply = Reply resp"
        using run Found PostMultiRules by (auto simp: handle_def)
      then show ?thesis
        using handleRegister_outcome [OF inv reg] handleRegister_config [OF reg] err by (cases resp) simp_all
    next
      case DeleteMultiRule
      then have vs: "vs = [sr_path r ! 1]" "sr_path r = [''multirules'', sr_path r ! 1]" "sr_method r = ''DELETE''"
        using Found by (auto simp: route_table split: if_splits)
      obtain resp where del: "handleUnregister (sr_path r ! 1) s = (resp, s')" and reply: "reply = Reply resp"
        using run Found DeleteMultiRule vs(1) by (auto simp: handle_def split: prod.splits)
      then show ?thesis using handleUnregister_outcome [OF inv del] vs(2,3) err by auto
    qed (use run Found state in \<open>auto simp: handle_def split_beta Let_def\<close>)
  qed (use run in \<open>auto simp: handle_def\<close>)
  then show "ct_config s' = ct_config s"
    and "mget (mm_rules (manager s')) = mget (mm_rules (manager s)) \<or>
      (sr_method r = ''DELETE'' \<and> status reply = 500 \<and>
       (\<exists>ruleID. sr_path r = [''multirules'', sr_path r ! 1] \<and> ParseUint 10 64 (sr_path r ! 1) = Inr ruleID \<and>
          mget (mm_rules (manager s)) (of_nat ruleID) \<noteq> None \<and>
          mget (mm_rules (manager s')) = (mget (mm_rules (manager s)))(of_nat ruleID := None)))"
    by blast+
qed

text \<open>Nothing but the search for a free id could keep a request from its answer.\<close>

lemma handle_answers:
  assumes "sr_method r = ''POST'' \<Longrightarrow> sr_path r = [''multirules''] \<Longrightarrow> handleRegister parse same (sr_body r) s \<noteq> None"
  shows "\<exists>reply s'. handle parse same r s = Some (reply, s')"
proof (cases "handle parse same r s")
  case None
  then have "route (sr_method r) (sr_path r) = Found PostMultiRules []" "handleRegister parse same (sr_body r) s = None"
    by (auto simp: handle_def route_table split_beta Let_def split: if_splits)
  then show ?thesis using assms by (auto simp: route_table split: if_splits)
qed auto

lemma handleRegister_returns:
  assumes "control_inv parse same s" "length (tr_rules (mm_tracker (manager s))) < 2 ^ 64 - 1"
  shows "handleRegister parse same r s \<noteq> None"
proof -
  have "tracker_ok (mm_tracker (manager s))" using control_inv_manager [OF assms(1)] by (simp add: mgr_ok_def)
  then have reg: "RegisterRule rule (mm_tracker (manager s)) \<noteq> None" for rule
    using RegisterRule_returns [OF _ assms(2), of rule] by auto
  have returns: "Register parse same rules (manager s) \<noteq> None" for rules
    by (simp add: Register_def reg split: sum.split option.split prod.split)
  show ?thesis
    by (simp add: handleRegister_def returns split_beta Let_def split: sum.split option.split prod.split)
qed

interpretation server: service "handle parse same" "control_inv parse same"
    "\<lambda>r. sr_method r \<notin> {''POST'', ''DELETE''}" shown_state
  for parse :: "string \<Rightarrow> 'e + regexp" and same
  by unfold_locales (rule handle_inv handle_safe; assumption)+

section \<open>The start\<close>

text \<open>After the start of the daemon only the listener can fail, and the server shows the address it has.\<close>

lemma start_inv:
  assumes "control_inv parse same s"
  shows "case startDaemonControlServer parse same Listen addr s of
      Inl (RulesFailed err) \<Rightarrow> False
    | Inl (ListenFailed err) \<Rightarrow> Listen addr = Inl err
    | Inr srv \<Rightarrow> control_inv parse same (cs_control srv) \<and> Listen addr = Inr (cc_HTTPAddr (ct_config (cs_control srv))) \<and>
        cs_url srv = httpControlURL (cc_HTTPAddr (ct_config (cs_control srv))) \<and> cs_serving srv"
  using assms
  by (auto simp: startDaemonControlServer_def control_inv_def installed_def Let_def split: sum.split)

end
