(* ===== verification/MainLife.thy ===== *)
theory MainLife
  imports Server FwmarkManager
begin

text \<open>
  \<^verbatim>\<open>main\<close> of \<^verbatim>\<open>cmd/main.go\<close> from the creation of the daemon to its end: the hooks that mark
  sockets, the order in which the resources of daemon and socket manager are acquired, what the event
  loop and the control server do to the daemon while it is up (\<open>activity\<close>), in any order, and what is
  released on each way out. \<^verbatim>\<open>log.Fatal\<close> ends the process without the deferred calls.
\<close>

section \<open>Hooks\<close>

text \<open>The closures share the rules, the log and, with \<^verbatim>\<open>-fwmark\<close>, the sockets of the system.\<close>

record main_env =
  me_closure :: closure_env
  me_sockets :: fw_state
  me_fwlog :: "fwmark_log list"

definition on_closure :: "(closure_env \<Rightarrow> closure_env) \<Rightarrow> main_env \<Rightarrow> main_env" where
  "on_closure f shared = shared\<lparr>me_closure := f (me_closure shared)\<rparr>"

definition lift_check :: "closure_env check_func \<Rightarrow> main_env check_func" where
  "lift_check chk info shared =
     (let (res, c) = chk info (me_closure shared) in (res, shared\<lparr>me_closure := c\<rparr>))"

definition start_hooks :: "main_env check_func \<Rightarrow> main_env callbacks" where
  "start_hooks chk =
     \<lparr>cb_Check = Some chk, cb_ProcessEvent = Some (\<lambda>event. on_closure (processEvent event)),
      cb_ProcessUpdate = Some (\<lambda>update. on_closure (log_to (logProcessUpdate update))),
      cb_Logf = Some (\<lambda>entry. on_closure (log_to (DaemonLine entry)))\<rparr>"

definition fwmark_update :: "process_key \<times> process_value \<Rightarrow> main_env \<Rightarrow> main_env" where
  "fwmark_update update shared =
     (let (logs, sockets) = ProcessUpdateCallback update (me_sockets shared);
          shared = shared\<lparr>me_sockets := sockets, me_fwlog := me_fwlog shared @ logs\<rparr>
      in on_closure (log_to (logProcessUpdate update)) shared)"

definition fwmark_hooks :: "main_env callbacks" where
  "fwmark_hooks =
     \<lparr>cb_Check = None, cb_ProcessEvent = Some (\<lambda>event. on_closure (processEvent event)),
      cb_ProcessUpdate = Some fwmark_update,
      cb_Logf = Some (\<lambda>entry. on_closure (log_to (DaemonLine entry)))\<rparr>"

section \<open>Up\<close>

datatype 'e main_fatal =
    FatalCreate "'e daemon_error"
  | FatalPolicySwitch go_error
  | FatalHooks "'e manager_error"
  | FatalRun "'e daemon_error"
  | FatalServer
  | FatalStop "'e os_error list"
  | FatalDone "'e os_error list"

text \<open>The daemon and the socket manager, as far as there are any, and the calls made for the latter.\<close>

record 'e main_run =
  mn_daemon :: "(main_env, 'e) daemon option"
  mn_manager :: "'e fwmark_manager option"
  mn_calls :: "'e calls"

text \<open>\<open>listen\<close>: whether the control server starts.\<close>

definition main_up ::
    "string \<Rightarrow> compiled_policy \<Rightarrow> bool \<Rightarrow> bool \<Rightarrow> world \<Rightarrow> main_env \<Rightarrow> 'e calls \<Rightarrow> 'e calls \<Rightarrow>
     'e main_fatal option \<times> 'e main_run" where
  "main_up pinPath compiled fwmark listen w shared s sm =
     (let chk = lift_check (combinedCheck True (Some (cp_Check compiled)));
          run = \<lparr>mn_daemon = None, mn_manager = None, mn_calls = sm\<rparr>
      in case open_daemon pinPath (start_hooks chk) 0 0 w shared s of
           Inl e \<Rightarrow> (Some (FatalCreate e), run)
         | Inr d \<Rightarrow>
      (let ((_, err), m) = setKernelPolicy (cp_Policy compiled) (Some chk) (dm_marker d);
           d = d\<lparr>dm_marker := m\<rparr>;
           run = run\<lparr>mn_daemon := Some d\<rparr>
       in case err of Some e \<Rightarrow> (Some (FatalPolicySwitch e), run)
        | None \<Rightarrow>
      (let (hooks, sm) =
             (if fwmark then (case NewManager pinPath sm of (Inl e, sm) \<Rightarrow> (Inl e, sm) | (Inr fwm, sm) \<Rightarrow> (Inr (Some fwm), sm))
              else (Inr None, sm));
           run = run\<lparr>mn_calls := sm\<rparr>
       in case hooks of Inl e \<Rightarrow> (Some (FatalHooks e), run)
        | Inr fwm \<Rightarrow>
      (let d = (if fwmark then d\<lparr>dm_marker := updateHooks fwmark_hooks (dm_marker d)\<rparr> else d);
           (err, d) = Run d;
           run = run\<lparr>mn_daemon := Some d, mn_manager := fwm\<rparr>
       in case err of Some e \<Rightarrow> (Some (FatalRun e), run)
        | None \<Rightarrow> (if listen then None else Some FatalServer, run)))))"

section \<open>Down\<close>

text \<open>
  What goes on until a signal comes, in any order: the event loop reads, and the handlers of the
  control server call the daemon: a policy of new rules is installed with its checker, the tracked
  rules change (in any way), the process tree is traversed, the process map is read for the state.
  Each is a part of a handler that holds one lock.
\<close>

datatype activity =
    LoopReads "ring_read list"
  | PolicyUpdate compiled_policy
  | TrackerChange "multi_rule_manager \<Rightarrow> multi_rule_manager"
  | ForcedTraversal
  | MapShown

fun act_marker :: "activity \<Rightarrow> main_env marker \<Rightarrow> main_env marker" where
  "act_marker (LoopReads reads) m = m"
| "act_marker (PolicyUpdate compiled) m =
     snd (setKernelPolicy (cp_Policy compiled) (Some (lift_check (combinedCheck True (Some (cp_Check compiled))))) m)"
| "act_marker (TrackerChange f) m = m\<lparr>env := on_closure (\<lambda>c. c\<lparr>ce_rules := f (ce_rules c)\<rparr>) (env m)\<rparr>"
| "act_marker ForcedTraversal m = snd (traverseProcessTreeLocked m)"
| "act_marker MapShown m = snd (in_world GrabProcessMapState m)"

definition act :: "activity \<Rightarrow> (main_env, 'e) daemon \<Rightarrow> (main_env, 'e) daemon" where
  "act a d =
     (case a of
        LoopReads reads \<Rightarrow> loop reads d
      | _ \<Rightarrow> d\<lparr>dm_marker := act_marker a (dm_marker d)\<rparr>)"

text \<open>The loop is told that its reader is closed.\<close>

definition told_closed :: "activity list \<Rightarrow> bool" where
  "told_closed acts \<longleftrightarrow> (\<exists>a \<in> set acts. case a of LoopReads reads \<Rightarrow> RingClosed \<in> set reads | _ \<Rightarrow> False)"

text \<open>
  Then a signal comes, and while \<^verbatim>\<open>Stop\<close> waits the loop reads what is left; or the daemon says that
  it is done. \<open>None\<close>: \<^verbatim>\<open>main\<close> waits on.
\<close>

datatype wakeup = Signal "ring_read list" | DaemonDone

definition deferred :: "'e main_run \<Rightarrow> 'e main_run" where
  "deferred run =
     (case mn_manager run of
        None \<Rightarrow> run
      | Some fwm \<Rightarrow>
          (let (errs, fwm) = manager_Close fwm
           in run\<lparr>mn_manager := Some fwm, mn_calls := fm_calls fwm\<rparr>))"

definition main_end ::
    "activity list \<Rightarrow> wakeup \<Rightarrow> 'e main_run \<Rightarrow> ('e main_fatal option \<times> 'e main_run) option" where
  "main_end acts wakeup run =
     Option.bind (mn_daemon run) (\<lambda>d.
     let d = fold act acts d in
     case wakeup of
       Signal left \<Rightarrow>
         Option.bind (Stop left d) (\<lambda>(errs, d).
           let run = run\<lparr>mn_daemon := Some d\<rparr>
           in Some (if errs \<noteq> [] then (Some (FatalStop errs), run) else (None, deferred run)))
     | DaemonDone \<Rightarrow>
         Option.bind (receive d) (\<lambda>(errs, d).
           let run = run\<lparr>mn_daemon := Some d\<rparr>
           in Some (if errs \<noteq> [] then (Some (FatalDone errs), run) else (None, deferred run))))"

section \<open>What is released\<close>

text \<open>A daemon that has just been opened, and one that runs.\<close>

lemma opened_daemon:
  assumes "open_daemon pinPath cbs tcev tttl w c s = Inr d" "ca_log s = []"
  shows "life_inv (d\<lparr>dm_marker := m\<rparr>)" "dm_rd d = None" "dm_closeOnce d = False" "dm_stopOnce d = False"
    "dm_looping d = False" "links d = []" "dm_done d = []" "dm_doneClosed d = False"
proof -
  have "life_inv d" by (rule open_daemon_inv [OF assms])
  then show "life_inv (d\<lparr>dm_marker := m\<rparr>)" by (simp add: life_inv_def links_def)
  show "dm_rd d = None" "dm_closeOnce d = False" "dm_stopOnce d = False" "dm_looping d = False" "links d = []"
    "dm_done d = []" "dm_doneClosed d = False"
    using assms(1) by (auto simp: open_daemon_def links_def split_beta Let_def split: option.splits)
qed

lemma Run_up:
  assumes "Run d = (None, d')" "dm_rd d = None" "links d = []"
  shows "dm_rd d' \<noteq> None" "dm_looping d'" "dm_closeOnce d' = dm_closeOnce d" "dm_stopOnce d' = dm_stopOnce d"
    "dm_done d' = dm_done d" "dm_doneClosed d' = dm_doneClosed d"
  using assms by (auto simp: Run_log with_log_def split: option.splits)

text \<open>What the start leaves behind.\<close>

definition manager_kept :: "'e main_run \<Rightarrow> bool" where
  "manager_kept run \<longleftrightarrow>
     (case mn_manager run of
        None \<Rightarrow> True
      | Some fwm \<Rightarrow> manager_inv fwm \<and> \<not> fm_closeOnce fwm \<and> fm_calls fwm = mn_calls run)"

definition up :: "'e main_run \<Rightarrow> bool" where
  "up run \<longleftrightarrow>
     (\<exists>d. mn_daemon run = Some d \<and> life_inv d \<and> dm_rd d \<noteq> None \<and> dm_looping d \<and> \<not> dm_closeOnce d \<and>
          \<not> dm_stopOnce d \<and> dm_done d = [] \<and> \<not> dm_doneClosed d) \<and> manager_kept run"

lemma main_up_inv:
  assumes start: "main_up pinPath compiled fwmark listen w shared s sm = (res, run)"
    and logs: "ca_log s = []" "ca_log sm = []"
  shows "case res of
      None \<Rightarrow> up run
    | Some FatalServer \<Rightarrow> up run
    | Some (FatalRun e) \<Rightarrow>
        manager_kept run \<and> (\<exists>d. mn_daemon run = Some d \<and> set (closes (dm_calls d)) = opened (dm_calls d) \<and>
          objects_closed (dm_calls d) = 0)
    | Some _ \<Rightarrow> True"
proof -
  define chk where "chk = lift_check (combinedCheck True (Some (cp_Check compiled)))"
  show ?thesis
  proof (cases "open_daemon pinPath (start_hooks chk) 0 0 w shared s")
    case (Inl e)
    then show ?thesis using start by (auto simp: main_up_def chk_def [symmetric] Let_def)
  next
    case (Inr d)
    note d = opened_daemon [OF Inr logs(1)]
    obtain g err m where switch: "setKernelPolicy (cp_Policy compiled) (Some chk) (dm_marker d) = ((g, err), m)"
      by (cases "setKernelPolicy (cp_Policy compiled) (Some chk) (dm_marker d)") (metis surj_pair)
    let ?hooks = "if fwmark then (case NewManager pinPath sm of (Inl e, sm) \<Rightarrow> (Inl e, sm) | (Inr fwm, sm) \<Rightarrow> (Inr (Some fwm), sm))
        else (Inr None, sm)"
    obtain hooks sm' where hooks: "?hooks = (hooks, sm')" by (rule prod.exhaust)
    show ?thesis
    proof (cases err)
      case (Some e)
      then have "res = Some (FatalPolicySwitch e)" using start Inr switch by (simp add: main_up_def chk_def [symmetric] Let_def)
      then show ?thesis by simp
    next
      case err: None
      show ?thesis
      proof (cases hooks)
      case (Inl e)
      then have "res = Some (FatalHooks e)"
        using start \<open>open_daemon _ _ _ _ _ _ _ = Inr d\<close> switch hooks err by (simp add: main_up_def chk_def [symmetric] Let_def)
      then show ?thesis by simp
    next
      case fwm: (Inr fwm)
      let ?d = "if fwmark then d\<lparr>dm_marker := m, dm_marker := updateHooks fwmark_hooks (dm_marker (d\<lparr>dm_marker := m\<rparr>))\<rparr>
        else d\<lparr>dm_marker := m\<rparr>"
      obtain e d' where run_d: "Run ?d = (e, d')" by (rule prod.exhaust)
      have run: "run = \<lparr>mn_daemon = Some d', mn_manager = fwm, mn_calls = sm'\<rparr>"
        and res: "res = (case e of Some e \<Rightarrow> Some (FatalRun e) | None \<Rightarrow> if listen then None else Some FatalServer)"
        using start \<open>open_daemon _ _ _ _ _ _ _ = Inr d\<close> switch hooks fwm err run_d
        by (auto simp: main_up_def chk_def [symmetric] Let_def split: option.splits)
      have kept: "manager_kept run"
        using hooks fwm NewManager_inv [OF logs(2), of pinPath]
        by (auto simp: run manager_kept_def split: if_splits prod.splits sum.splits)
      have i: "life_inv ?d" "dm_rd ?d = None" "\<not> dm_closeOnce ?d" "links ?d = []" "dm_calls ?d = dm_calls d"
        using d by (simp_all add: links_def)
      show ?thesis
      proof (cases e)
        case (Some x)
        have "life_inv d'" using life_inv_Run [OF i(1)] by (simp add: run_d)
        moreover have "dm_closeOnce d' = False"
          using run_d i Some by (auto simp: Run_log with_log_def split: option.splits)
        ultimately have "objects_closed (dm_calls d') = 0" by (simp add: life_inv_def)
        then show ?thesis using Run_failed(3) [OF i(1) run_d [unfolded Some]] kept res Some by (simp add: run)
      next
        case None
        note up = Run_up [OF run_d [unfolded None] i(2,4)]
        have "life_inv d'" using life_inv_Run [OF i(1)] by (simp add: run_d)
        then have "up run" using up d kept by (simp add: up_def run)
        then show ?thesis using res None by simp
      qed
      qed
    qed
  qed
qed

text \<open>
  A run that is up leaves through \<^verbatim>\<open>Done\<close> only if its loop is told that the reader is closed; a signal
  ends it, and then all the daemon opened is closed, and what the socket manager opened too, unless
  \<^verbatim>\<open>Stop\<close> reports an error: then the process ends without closing the manager.
\<close>

definition serving :: "('c, 'e) daemon \<Rightarrow> bool" where
  "serving d \<longleftrightarrow>
     life_inv d \<and> dm_rd d \<noteq> None \<and> \<not> dm_stopOnce d \<and> \<not> opened_late d \<and> dm_closeOnce d = (\<not> dm_looping d) \<and>
     dm_doneClosed d = (\<not> dm_looping d) \<and> (dm_looping d \<longrightarrow> dm_done d = [])"

lemma serving_marker [simp]: "serving (d\<lparr>dm_marker := m\<rparr>) = serving d"
  by (simp add: serving_def life_inv_marker)

lemma loop_looping: "dm_looping (loop reads d) \<longleftrightarrow> dm_looping d \<and> RingClosed \<notin> set reads"
  by (auto simp: loop_def loop_end_def runEvents_returns split_beta Let_def)

lemma serving_loop: "serving d \<Longrightarrow> serving (loop reads d)"
  by (auto simp: serving_def life_inv_loop loop_fields loop_late loop_closed loop_looping)
    (auto simp: loop_def loop_end_def runEvents_returns split_beta Let_def split: if_splits)

lemma serving_act: "serving d \<Longrightarrow> serving (act a d)"
  by (cases a) (simp_all add: act_def serving_loop)

lemma serving_acts: "serving d \<Longrightarrow> serving (fold act acts d)"
  by (induction acts arbitrary: d) (simp_all add: serving_act)

lemma looping_acts: "dm_looping (fold act acts d) \<longleftrightarrow> dm_looping d \<and> \<not> told_closed acts"
proof (induction acts arbitrary: d)
  case (Cons a acts)
  have "dm_looping (act a d) \<longleftrightarrow> dm_looping d \<and> \<not> told_closed [a]"
    by (cases a) (simp_all add: act_def told_closed_def loop_looping)
  with Cons.IH [of "act a d"] show ?case by (auto simp: told_closed_def)
qed (simp add: told_closed_def)

lemma up_serving:
  assumes "up run"
  obtains d where "mn_daemon run = Some d" "serving d" "dm_looping d"
proof -
  obtain d where d: "mn_daemon run = Some d" "life_inv d" "dm_rd d \<noteq> None" "dm_looping d" "\<not> dm_closeOnce d"
    "\<not> dm_stopOnce d" "dm_done d = []" "\<not> dm_doneClosed d" using assms by (auto simp: up_def)
  have "CloseObjects \<notin> set (ca_log (dm_calls d))" using d no_objects [of "dm_calls d"] by (simp add: life_inv_def)
  then have "serving d" using d late_opening_none by (auto simp: serving_def)
  with d that show thesis by blast
qed

lemma Stop_serving:
  assumes "serving d"
  obtains errs d' where "Stop reads d = Some (errs, d')" "set (closes (dm_calls d')) = opened (dm_calls d')"
    "objects_closed (dm_calls d') = 1"
proof -
  have inv: "life_inv d" and d: "dm_rd d \<noteq> None" "\<not> dm_stopOnce d" "\<not> opened_late d" "dm_looping d \<or> dm_closeOnce d"
    using assms by (auto simp: serving_def)
  obtain errs d' where stop: "Stop reads d = Some (errs, d')" using Stop_returns [OF inv, of reads] d by auto
  note c = Stop_closes [OF inv stop d(2,4,3)]
  have "objects_closed (dm_calls d') = 1" using life_inv_Stop [OF inv stop] c(1) by (simp add: life_inv_def)
  with stop c(2) that show thesis by blast
qed

lemma deferred_closes:
  assumes "manager_kept run"
  shows "mn_daemon (deferred run) = mn_daemon run"
    "case mn_manager (deferred run) of None \<Rightarrow> mn_manager run = None
     | Some fwm \<Rightarrow> set (closes (fm_calls fwm)) = opened (fm_calls fwm) \<and> objects_closed (fm_calls fwm) = 1"
  using assms
  by (auto simp: deferred_def manager_kept_def manager_inv_def objects_closed_def manager_Close_def close_links_log
      split_beta Let_def split: option.splits)

lemma main_end_closes:
  assumes up: "up run"
  shows "main_end acts DaemonDone run = None \<longleftrightarrow> \<not> told_closed acts"
    and "\<exists>errs run' d. main_end acts (Signal left) run = Some (if errs = [] then None else Some (FatalStop errs), run') \<and>
      mn_daemon run' = Some d \<and> set (closes (dm_calls d)) = opened (dm_calls d) \<and> objects_closed (dm_calls d) = 1 \<and>
      (errs = [] \<longrightarrow> (case mn_manager run' of None \<Rightarrow> mn_manager run = None
         | Some fwm \<Rightarrow> set (closes (fm_calls fwm)) = opened (fm_calls fwm) \<and> objects_closed (fm_calls fwm) = 1))"
proof -
  obtain d where d: "mn_daemon run = Some d" "serving d" "dm_looping d" using up by (rule up_serving)
  have kept: "manager_kept run" using up by (simp add: up_def)
  let ?d = "fold act acts d"
  have s: "serving ?d" using d(2) by (rule serving_acts)
  have looping: "dm_looping ?d \<longleftrightarrow> \<not> told_closed acts" using d(3) by (simp add: looping_acts)
  have "receive ?d = None \<longleftrightarrow> dm_looping ?d"
    using s by (cases "dm_looping ?d") (simp_all add: serving_def receive_def split: list.split)
  with looping show "main_end acts DaemonDone run = None \<longleftrightarrow> \<not> told_closed acts"
    by (simp add: main_end_def d(1) Let_def bind_eq_None_conv split_beta)
  obtain errs d' where stop: "Stop left ?d = Some (errs, d')"
    and closed: "set (closes (dm_calls d')) = opened (dm_calls d')" "objects_closed (dm_calls d') = 1"
    using s by (rule Stop_serving)
  let ?run = "run\<lparr>mn_daemon := Some d'\<rparr>"
  have "manager_kept ?run" using kept by (simp add: manager_kept_def split: option.splits)
  note deferred = deferred_closes [OF this]
  have res: "main_end acts (Signal left) run =
      Some (if errs \<noteq> [] then (Some (FatalStop errs), ?run) else (None, deferred ?run))"
    using d(1) stop by (simp add: main_end_def Let_def)
  show "\<exists>errs run' d. main_end acts (Signal left) run = Some (if errs = [] then None else Some (FatalStop errs), run') \<and>
      mn_daemon run' = Some d \<and> set (closes (dm_calls d)) = opened (dm_calls d) \<and> objects_closed (dm_calls d) = 1 \<and>
      (errs = [] \<longrightarrow> (case mn_manager run' of None \<Rightarrow> mn_manager run = None
         | Some fwm \<Rightarrow> set (closes (fm_calls fwm)) = opened (fm_calls fwm) \<and> objects_closed (fm_calls fwm) = 1))"
  proof (cases "errs = []")
    case True
    then show ?thesis using res closed deferred by (intro exI [of _ errs] exI [of _ "deferred ?run"] exI [of _ d']) (simp split: option.splits)
  next
    case False
    then show ?thesis using res closed by (intro exI [of _ errs] exI [of _ ?run] exI [of _ d']) simp
  qed
qed

end
