(* ===== verification/SocketReplay.thy ===== *)
theory SocketReplay
  imports MainLife
begin

text \<open>
  The daemon and the socket package together: with \<^verbatim>\<open>-fwmark\<close> the update hook of \<^verbatim>\<open>cmd/main.go\<close> brings
  the sockets of a process in line with its entry, \<^verbatim>\<open>UpdateHooks\<close> replays all live entries to it when it
  is installed, and \<^verbatim>\<open>Stop\<close> replays all entries without their marks. What the two replays make of the
  sockets of a machine that does not change meanwhile is shown here, for every order of the mirror.
\<close>

section \<open>One update\<close>

text \<open>The sockets that can be reached through a process, if its descriptors can be listed at all.\<close>

definition held :: "fd_view \<Rightarrow> u32 \<Rightarrow> nat set" where
  "held v pid =
     (case fv_dir v pid of
        Inl _ \<Rightarrow> {}
      | Inr names \<Rightarrow> if fv_pidfd v pid = None then process_sockets v pid names else {})"

abbreviation quiet_machine :: "procfs \<Rightarrow> fd_view \<Rightarrow> main_env \<Rightarrow> bool" where
  "quiet_machine fs v shared \<equiv>
     static_fs fs (fw_os (me_sockets shared)) \<and> static_fds v (fw_sk (me_sockets shared)) \<and> markable v"

abbreviation marks :: "main_env \<Rightarrow> nat \<Rightarrow> u32" where
  "marks shared \<equiv> sk_mark (fw_sk (me_sockets shared))"

definition reaches :: "procfs \<Rightarrow> fd_view \<Rightarrow> process_key \<times> process_value \<Rightarrow> nat \<Rightarrow> bool" where
  "reaches fs v = (\<lambda>(key, value) fd. \<not> Tombstone value \<and> shown fs key \<and> fd \<in> held v (Tgid key))"

lemma SetProcessSockets_held:
  assumes "static_fds v s" "markable v"
  shows "sk_mark (snd (SetProcessSocketsMarkReport pid mark s)) =
    (\<lambda>fd. if fd \<in> held v pid then mark else sk_mark s fd)"
proof (cases "fv_dir v pid")
  case (Inl e)
  then show ?thesis
    using assms by (simp add: SetProcessSocketsMarkReport_def ask_static [where v = v] held_def split_beta Let_def)
next
  case (Inr names)
  show ?thesis
  proof (cases "fv_pidfd v pid")
    case None
    then show ?thesis using SetProcessSockets_marks [OF assms Inr None] Inr by (simp add: held_def cong: if_cong)
  next
    case (Some e)
    then show ?thesis
      using assms Inr by (simp add: SetProcessSocketsMarkReport_def ask_static [where v = v] held_def split_beta Let_def)
  qed
qed

lemma processMatchesKey_keeps: "static_fs fs w \<Longrightarrow> static_fs fs (snd (processMatchesKey key w))"
  by (simp add: processMatchesKey_def look_fs_static split_beta Let_def split: option.split sum.split)

lemma fwmark_update_marks:
  assumes "quiet_machine fs v shared"
  shows "marks (fwmark_update (key, value) shared) =
      (\<lambda>fd. if reaches fs v (key, value) fd then update_mark value else marks shared fd)"
    and "quiet_machine fs v (fwmark_update (key, value) shared)"
  using assms
  by (auto simp: fwmark_update_def ProcessUpdateCallback_def applyProcessUpdate_def on_closure_def reaches_def
      processMatchesKey_static [of fs] processMatchesKey_keeps SetProcessSockets_held [of v] SetProcessSockets_static
      split_beta Let_def)

section \<open>A replay\<close>

text \<open>The marks the replay may give a socket.\<close>

definition offered ::
    "procfs \<Rightarrow> fd_view \<Rightarrow> (process_key \<Rightarrow> process_value \<Rightarrow> process_value option) \<Rightarrow> mirror_map \<Rightarrow> nat \<Rightarrow> u32 set" where
  "offered fs v selectValue mm fd =
     {update_mark value' | key value value'.
        (key, value) \<in> set mm \<and> selectValue key value = Some value' \<and> reaches fs v (key, value') fd}"

lemma offered_Cons:
  "offered fs v selectValue ((key, value) # mm) fd =
     (case selectValue key value of
        None \<Rightarrow> {} | Some value' \<Rightarrow> if reaches fs v (key, value') fd then {update_mark value'} else {}) \<union>
     offered fs v selectValue mm fd"
  by (auto simp: offered_def split: option.splits)

lemma replay_marks:
  assumes "quiet_machine fs v shared"
  shows "marks (replay_loop fwmark_update selectValue mm shared) fd \<in>
      (if offered fs v selectValue mm fd = {} then {marks shared fd} else offered fs v selectValue mm fd)"
    and "quiet_machine fs v (replay_loop fwmark_update selectValue mm shared)"
proof -
  have "marks (replay_loop fwmark_update selectValue mm shared) fd \<in>
      (if offered fs v selectValue mm fd = {} then {marks shared fd} else offered fs v selectValue mm fd) \<and>
    quiet_machine fs v (replay_loop fwmark_update selectValue mm shared)"
    using assms
  proof (induction mm arbitrary: shared rule: gomap_induct)
    case Nil
    then show ?case by (simp add: offered_def)
  next
    case (Cons key val mm)
    show ?case
    proof (cases "selectValue key val")
      case None
      then show ?thesis using Cons.IH [OF Cons.prems] by (simp add: offered_Cons split: if_splits)
    next
      case (Some val')
      note step = fwmark_update_marks [OF Cons.prems, of key val']
      from Cons.IH [OF step(2)] Some step(1) show ?thesis
        by (auto simp: offered_Cons split: if_splits)
    qed
  qed
  then show "marks (replay_loop fwmark_update selectValue mm shared) fd \<in>
      (if offered fs v selectValue mm fd = {} then {marks shared fd} else offered fs v selectValue mm fd)"
    and "quiet_machine fs v (replay_loop fwmark_update selectValue mm shared)" by blast+
qed

section \<open>Installing the hooks and stopping\<close>

text \<open>The live entries of the mirror through which a socket can be reached.\<close>

definition holders :: "procfs \<Rightarrow> fd_view \<Rightarrow> mirror_map \<Rightarrow> nat \<Rightarrow> (process_key \<times> process_value) set" where
  "holders fs v mm fd = {entry \<in> set mm. reaches fs v entry fd}"

lemma offered_hooks:
  "offered fs v (\<lambda>_ value. if \<not> Tombstone value then Some value else None) mm fd =
     (update_mark \<circ> snd) ` holders fs v mm fd"
  by (force simp: offered_def holders_def reaches_def)

lemma offered_stop:
  "offered fs v (\<lambda>_ value. Some (value\<lparr>HasMark := False\<rparr>)) mm fd = (if holders fs v mm fd = {} then {} else {0})"
  by (auto simp: offered_def holders_def reaches_def update_mark_def)

lemma hooks_sockets:
  assumes "quiet_machine fs v (env m)"
  shows "marks (env (updateHooks fwmark_hooks m)) fd \<in>
      (if holders fs v (mirror m) fd = {} then {marks (env m) fd}
       else (update_mark \<circ> snd) ` holders fs v (mirror m) fd)"
    and "quiet_machine fs v (env (updateHooks fwmark_hooks m))"
  using replay_marks(1) [OF assms, of "\<lambda>_ value. if \<not> Tombstone value then Some value else None" "mirror m" fd]
    replay_marks(2) [OF assms, of "\<lambda>_ value. if \<not> Tombstone value then Some value else None" "mirror m"]
  by (simp_all add: updateHooks_def replayProcessUpdates_def fwmark_hooks_def offered_hooks split: if_splits)

lemma stop_sockets:
  assumes "quiet_machine fs v (env m)" "cb_ProcessUpdate (callbacks m) = Some fwmark_update"
  shows "marks (env (stop_replay m)) fd = (if holders fs v (mirror m) fd = {} then marks (env m) fd else 0)"
  using replay_marks(1) [OF assms(1), of "\<lambda>_ value. Some (value\<lparr>HasMark := False\<rparr>)" "mirror m" fd] assms(2)
  by (simp add: stop_replay_def replayProcessUpdates_def offered_stop split: if_splits)

lemma hooks_installed:
  "cb_ProcessUpdate (callbacks (updateHooks fwmark_hooks m)) = Some fwmark_update"
  "mirror (updateHooks fwmark_hooks m) = mirror m"
  by (simp_all add: updateHooks_def replayProcessUpdates_def fwmark_hooks_def)

section \<open>From the start to the end of the command\<close>

text \<open>No callback of the command touches the sockets but through the hook, which keeps the machine quiet.\<close>

lemma on_closure_sockets [simp]: "me_sockets (on_closure f shared) = me_sockets shared"
  by (simp add: on_closure_def)

lemma lift_check_sockets: "check_keeps (quiet_machine fs v) (lift_check chk)"
  by (auto simp: check_keeps_def lift_check_def split_beta Let_def)

lemma fwmark_hooks_keep: "callbacks_keep (quiet_machine fs v) fwmark_hooks"
  using fwmark_update_marks(2) by (auto simp: callbacks_keep_def fwmark_hooks_def)

lemma start_hooks_keep: "callbacks_keep (quiet_machine fs v) (start_hooks chk)"
  by (auto simp: callbacks_keep_def start_hooks_def)

interpretation sockets: closure_client "quiet_machine fs v" fwmark_hooks "lift_check chk" for fs v chk
  by unfold_locales (rule fwmark_hooks_keep lift_check_sockets)+

definition hooked :: "procfs \<Rightarrow> fd_view \<Rightarrow> main_env marker \<Rightarrow> bool" where
  "hooked fs v m \<longleftrightarrow>
     guarded (quiet_machine fs v) m \<and> cb_ProcessUpdate (callbacks m) = Some fwmark_update"

lemma hooked_traversal [simp]: "hooked fs v m \<Longrightarrow> hooked fs v (run_traversal b m)"
  using settingsD [OF run_traversal_frame(1) [of b m]] by (simp add: hooked_def)

lemma hooked_log: "hooked fs v m \<Longrightarrow> hooked fs v (logf e m)"
  using settingsD [OF logf_frame(1) [of e m]] by (simp add: hooked_def)

lemma hooked_record: "hooked fs v m \<Longrightarrow> hooked fs v (process_record tcev event m)"
  by (simp add: hooked_def callbacks_record)

lemma hooked_events: "hooked fs v m \<Longrightarrow> hooked fs v (snd (runEvents tcev reads m))"
  by (induction tcev reads m rule: runEvents.induct) (simp_all add: hooked_log hooked_record)

lemma hooked_loop: "hooked fs v (dm_marker d) \<Longrightarrow> hooked fs v (dm_marker (loop reads d))"
  by (simp add: loop_fields hooked_events)

lemma hooked_act_marker: "hooked fs v m \<Longrightarrow> hooked fs v (act_marker a m)"
proof (cases a)
  case (PolicyUpdate compiled)
  assume "hooked fs v m"
  then show ?thesis
    using sockets.policy [where fs = fs and v = v and m = m and policy = "cp_Policy compiled" and
        chk = "combinedCheck True (Some (cp_Check compiled))"]
    by (simp add: hooked_def PolicyUpdate)
next
  case ForcedTraversal
  assume "hooked fs v m"
  then show ?thesis
    by (simp add: hooked_def ForcedTraversal)
next
  case (TrackerChange f)
  have env: "guarded P m \<Longrightarrow> P c \<Longrightarrow> guarded P (m\<lparr>env := c\<rparr>)" for P c and m :: "main_env marker"
    by (simp add: guarded_def)
  assume h: "hooked fs v m"
  then have "quiet_machine fs v (env m)" by (simp add: hooked_def guarded_def)
  with h show ?thesis by (simp add: hooked_def TrackerChange env)
qed (simp_all add: hooked_def)

lemma hooked_act: "hooked fs v (dm_marker d) \<Longrightarrow> hooked fs v (dm_marker (act a d))"
  by (cases a) (simp_all add: act_def hooked_loop hooked_act_marker del: act_marker.simps)

lemma hooked_acts: "hooked fs v (dm_marker d) \<Longrightarrow> hooked fs v (dm_marker (fold act acts d))"
  by (induction acts arbitrary: d) (simp_all add: hooked_act)

lemma hooked_installed: "guarded (quiet_machine fs v) m \<Longrightarrow> hooked fs v (updateHooks fwmark_hooks m)"
  by (simp add: hooked_def sockets.hooks hooks_installed)

lemma hooked_Run: "hooked fs v (dm_marker d) \<Longrightarrow> hooked fs v (dm_marker (snd (Run d)))"
  by (simp add: Run_def drop_fork_def drop_exit_def drop_exec_def on_close on_acquire Let_def split: option.split)

lemma hooked_stopping: "hooked fs v (dm_marker d) \<Longrightarrow> hooked fs v (dm_marker (stopping reads d))"
  unfolding stopping_def Let_def by (rule hooked_loop) simp

lemma receive_marker: "receive d = Some (err, d') \<Longrightarrow> dm_marker d' = dm_marker d"
  by (auto simp: receive_def split: list.splits if_splits)

lemma Stop_sockets:
  assumes "hooked fs v (dm_marker d)" "\<not> dm_stopOnce d" "Stop reads d = Some (errs, d')"
    and "holders fs v (mirror (dm_marker d')) fd \<noteq> {}"
  shows "marks (env (dm_marker d')) fd = 0"
proof -
  obtain e d1 where d1: "receive (stopping reads d) = Some (e, d1)" "d' = d1\<lparr>dm_marker := stop_replay (dm_marker d1)\<rparr>"
    using Stop_receive(2) [OF assms(2,3)] by blast
  have h: "hooked fs v (dm_marker d1)"
    using hooked_stopping [OF assms(1), of reads] receive_marker [OF d1(1)] by simp
  have "mirror (stop_replay (dm_marker d1)) = mirror (dm_marker d1)"
    by (simp add: stop_replay_def replayProcessUpdates_def split: option.split)
  then show ?thesis
    using stop_sockets [where fs = fs and v = v and m = "dm_marker d1" and fd = fd] h assms(4) by (simp add: hooked_def guarded_def d1(2))
qed

lemma Run_marker:
  "Run d = (None, d') \<Longrightarrow> dm_rd d = None \<Longrightarrow> dm_marker d' = run_traversal True (run_traversal False (dm_marker d))"
  by (auto simp: Run_def on_acquire Let_def split: option.splits)

text \<open>What a start with \<^verbatim>\<open>-fwmark\<close> does to the marker: policy, hooks, and two traversals.\<close>

abbreviation main_check :: "compiled_policy \<Rightarrow> main_env check_func" where
  "main_check compiled \<equiv> lift_check (combinedCheck True (Some (cp_Check compiled)))"

lemma main_up_marker:
  assumes up: "main_up pinPath compiled True listen w shared s sm = (None, run)"
  obtains g m d' where
    "setKernelPolicy (cp_Policy compiled) (Some (main_check compiled))
       (snd (NewDaemon (start_hooks (main_check compiled)) 0 0 w shared)) = ((g, None), m)"
    "mn_daemon run = Some d'" "dm_marker d' = run_traversal True (run_traversal False (updateHooks fwmark_hooks m))"
proof -
  define chk where "chk = main_check compiled"
  obtain d where d: "open_daemon pinPath (start_hooks chk) 0 0 w shared s = Inr d"
    using up by (cases "open_daemon pinPath (start_hooks chk) 0 0 w shared s") (auto simp: main_up_def chk_def Let_def)
  then have dm: "dm_marker d = snd (NewDaemon (start_hooks chk) 0 0 w shared)" "dm_rd d = None"
    by (auto simp: open_daemon_def split_beta Let_def split: option.splits)
  obtain g err m where switch: "setKernelPolicy (cp_Policy compiled) (Some chk) (dm_marker d) = ((g, err), m)"
    by (cases "setKernelPolicy (cp_Policy compiled) (Some chk) (dm_marker d)") (metis surj_pair)
  let ?d = "d\<lparr>dm_marker := m, dm_marker := updateHooks fwmark_hooks (dm_marker (d\<lparr>dm_marker := m\<rparr>))\<rparr>"
  obtain res sm' where manager: "NewManager pinPath sm = (res, sm')" by (rule prod.exhaust)
  obtain e d' where run_d: "Run ?d = (e, d')" by (rule prod.exhaust)
  note start = up [unfolded main_up_def chk_def [symmetric] Let_def d]
  have err: "err = None" using start switch by (cases err) simp_all
  obtain fwm where "res = Inr fwm" using start switch manager err by (cases res) simp_all
  then have "e = None" "mn_daemon run = Some d'" using start switch manager run_d err by (cases e; auto)+
  then show thesis
    using that switch err Run_marker [of ?d d'] run_d dm unfolding chk_def by simp
qed

lemma main_up_hooked:
  assumes up: "main_up pinPath compiled True listen w shared s sm = (None, run)" and quiet: "quiet_machine fs v shared"
  shows "\<exists>d. mn_daemon run = Some d \<and> hooked fs v (dm_marker d)"
proof -
  let ?m = "snd (NewDaemon (start_hooks (main_check compiled)) 0 0 w shared)"
  obtain g m d' where switch: "setKernelPolicy (cp_Policy compiled) (Some (main_check compiled)) ?m = ((g, None), m)"
    and d': "mn_daemon run = Some d'" "dm_marker d' = run_traversal True (run_traversal False (updateHooks fwmark_hooks m))"
    by (rule main_up_marker [OF up])
  have "guarded (quiet_machine fs v) ?m"
    using quiet lift_check_sockets [of fs v] start_hooks_keep [of fs v "main_check compiled"]
    by (simp add: NewDaemon_def guarded_def start_hooks_def Let_def)
  then have "guarded (quiet_machine fs v) m"
    using sockets.policy [where fs = fs and v = v and m = ?m and policy = "cp_Policy compiled" and
        chk = "combinedCheck True (Some (cp_Check compiled))"]
    by (simp add: switch)
  then show ?thesis using d' by (simp add: hooked_installed)
qed

lemma main_end_sockets:
  assumes start: "main_up pinPath compiled True True w shared s sm = (None, run)"
    and logs: "ca_log s = []" "ca_log sm = []" and quiet: "quiet_machine fs v shared"
    and stop: "main_end acts (Signal left) run = Some (res, run')" "mn_daemon run' = Some d"
    and held: "holders fs v (mirror (dm_marker d)) fd \<noteq> {}"
  shows "marks (env (dm_marker d)) fd = 0"
proof -
  obtain d0 where d0: "mn_daemon run = Some d0" "hooked fs v (dm_marker d0)"
    using main_up_hooked [OF start quiet] by blast
  have is_up: "up run" using main_up_inv [OF start logs] by simp
  then have "serving d0" using d0(1) by (auto elim: up_serving)
  then have once: "\<not> dm_stopOnce (fold act acts d0)" using serving_acts [of d0 acts] by (simp add: serving_def)
  have deferred: "mn_daemon (deferred run) = mn_daemon run" for run :: "'a main_run"
    by (simp add: deferred_def split_beta Let_def split: option.split)
  obtain errs d1 where st: "Stop left (fold act acts d0) = Some (errs, d1)" and d1: "d1 = d"
    using stop d0(1) by (auto simp: main_end_def Let_def deferred bind_eq_Some_conv split: if_splits)
  from Stop_sockets [OF hooked_acts [OF d0(2)] once st] held show ?thesis by (simp add: d1)
qed

section \<open>Live entries stay\<close>

definition alive :: "mirror_map \<Rightarrow> process_key \<Rightarrow> bool" where
  "alive mm k \<longleftrightarrow> (\<exists>v. mget mm k = Some v \<and> \<not> Tombstone v)"

lemma alive_traverse:
  assumes ok: "maps_ok m" and live: "alive (mirror m) k"
  shows "alive (mirror (snd (traverseProcessTreeLocked m))) k"
proof -
  let ?m = "snd (traverseProcessTreeLocked m)"
  have kernel: "mget (mirror m) k = Some v" if "(k, v) \<in> set (k_processes (wld m))" for v
    using ok that by (auto simp: maps_ok_def synced_def wfmap_get_iff [symmetric])
  have "mget (mirror ?m) k \<noteq> None"
    using upserts_grows [OF traverseProcessTreeLocked_upserts [of m]] live by (auto simp: alive_def grows_def)
  then obtain v where v: "mget (mirror ?m) k = Some v" by blast
  then show ?thesis
    using upserts_values [OF traverseProcessTreeLocked_upserts [of m], of k v] live kernel [of v]
    by (auto simp: alive_def fresh_def)
qed

lemma alive_run_traversal: "maps_ok m \<Longrightarrow> alive (mirror m) k \<Longrightarrow> alive (mirror (run_traversal b m)) k"
  using alive_traverse [of m k] by (simp add: run_traversal_def split_beta Let_def split: option.split)

lemma main_end_mirror:
  assumes "main_end [] (Signal []) run = Some (res, run')" "mn_daemon run = Some d0" "\<not> dm_stopOnce d0" "mn_daemon run' = Some d"
  shows "mirror (dm_marker d) = mirror (dm_marker d0)"
proof -
  have deferred: "mn_daemon (deferred run) = mn_daemon run" for run :: "'a main_run"
    by (simp add: deferred_def split_beta Let_def split: option.split)
  obtain errs where st: "Stop [] d0 = Some (errs, d)"
    using assms by (auto simp: main_end_def Let_def deferred bind_eq_Some_conv split: if_splits)
  obtain e d1 where d1: "receive (stopping [] d0) = Some (e, d1)" "d = d1\<lparr>dm_marker := stop_replay (dm_marker d1)\<rparr>"
    using Stop_receive(2) [OF assms(3) st] by blast
  have "dm_marker (stopping [] d0) = dm_marker d0"
    by (simp add: stopping_def loop_fields Let_def)
  then show ?thesis
    using receive_marker [OF d1(1)]
    by (simp add: d1(2) stop_replay_def replayProcessUpdates_def split: option.split)
qed

end
