(* ===== verification/Watcher.thy ===== *)
theory Watcher
  imports TraversalSpec Snapshot
begin

text \<open>
  The watcher of \<^verbatim>\<open>cmd/main.go\<close>: the tracker of tombstones it has seen, the tree it prints of
  the marked processes of a snapshot, and the texts of a line. A printed line is kept with the
  key of the process it is for.
\<close>

section \<open>Tombstones\<close>

text \<open>\<open>wt_seen\<close> maps the keys seen as tombstones to whether they have been collected since.\<close>

record tombstone_tracker =
  wt_seen :: "(process_key, bool) gomap"
  wt_collected :: nat

definition newWatcherTombstoneTracker :: tombstone_tracker where
  "newWatcherTombstoneTracker = \<lparr>wt_seen = [], wt_collected = 0\<rparr>"

fun note_tombstones :: "mirror_map \<Rightarrow> (process_key, bool) gomap \<Rightarrow> (process_key, bool) gomap" where
  "note_tombstones [] seen = seen"
| "note_tombstones ((key, v) # entries) seen =
     note_tombstones entries
       (if Tombstone v \<and> mget seen key = None then mput key False seen else seen)"

fun count_removed :: "mirror_map \<Rightarrow> (process_key, bool) gomap \<Rightarrow> tombstone_tracker \<Rightarrow> tombstone_tracker" where
  "count_removed entries [] t = t"
| "count_removed entries ((key, removed) # seen) t =
     count_removed entries seen
       (if removed \<or> mget entries key \<noteq> None then t
        else t\<lparr>wt_seen := mput key True (wt_seen t), wt_collected := wt_collected t + 1\<rparr>)"

definition watcher_update :: "process_map_state \<Rightarrow> tombstone_tracker \<Rightarrow> tombstone_tracker" where
  "watcher_update snapshot t =
     (let t = t\<lparr>wt_seen := note_tombstones (Entries snapshot) (wt_seen t)\<rparr>
      in count_removed (Entries snapshot) (wt_seen t) t)"

definition observed_tombstones :: "tombstone_tracker \<Rightarrow> nat" where
  "observed_tombstones t = length (wt_seen t)"

section \<open>Texts\<close>

definition decimal :: "int \<Rightarrow> string" where
  "decimal n = (if n < 0 then CHR ''-'' # format_digits 10 (nat (- n)) else format_digits 10 (nat n))"

definition shortProcessName :: "process_info \<Rightarrow> string" where
  "shortProcessName proc =
     (if pi_Comm proc \<noteq> '''' then pi_Comm proc
      else if pi_Cmdline proc \<noteq> '''' \<and> Fields (pi_Cmdline proc) \<noteq> [] then hd (Fields (pi_Cmdline proc))
      else if pi_Exe proc \<noteq> '''' then path_base (pi_Exe proc)
      else ''unknown'')"

definition formatProcessMark :: "process_value \<Rightarrow> bool \<Rightarrow> string" where
  "formatProcessMark v hasMark =
     (if \<not> hasMark then ''no mark''
      else
        (let rank = ''priority='' @ decimal (sint (Priority v)) @ '' gen='' @ decimal (uint (Generation v))
         in if \<not> HasMark v then ''no mark '' @ rank
            else ''mark='' @ decimal (uint (Mark v)) @ '' '' @ rank))"

text \<open>The characters of the tree, in UTF-8.\<close>

definition corner :: string where "corner = [CHR 0xE2, CHR 0x94, CHR 0x94]"
definition tee :: string where "tee = [CHR 0xE2, CHR 0x94, CHR 0x9C]"
definition bar :: string where "bar = [CHR 0xE2, CHR 0x94, CHR 0x82]"

section \<open>The tree\<close>

type_synonym active_map = "(process_key, process_value) gomap"

definition active_entries :: "process_map_state \<Rightarrow> active_map" where
  "active_entries snapshot = filter (\<lambda>(key, v). \<not> Tombstone v \<and> HasMark v) (Entries snapshot)"

text \<open>The loop of \<^verbatim>\<open>hasActiveAncestor\<close>, with the pids it has seen.\<close>

function ancestor_loop ::
    "(u32, process_info) gomap \<Rightarrow> active_map \<Rightarrow> u32 set \<Rightarrow> u32 \<Rightarrow> bool" where
  "ancestor_loop byPID active seen ppid =
     (if ppid = 0 \<or> ppid \<in> seen then False
      else case mget byPID ppid of
             None \<Rightarrow> False
           | Some parent \<Rightarrow>
               mget active (pi_Key parent) \<noteq> None \<or>
               ancestor_loop byPID active (insert ppid seen) (pi_PPID parent))"
  by pat_completeness auto
termination
proof (relation "measure (\<lambda>(byPID, active, seen, ppid). card (fst ` set byPID - seen))")
  fix byPID :: "(u32, process_info) gomap" and active :: active_map and seen ppid parent
  assume "\<not> (ppid = 0 \<or> ppid \<in> seen)" "mget byPID ppid = Some parent"
  then have "ppid \<in> fst ` set byPID - seen" by (simp add: mget_Some_key)
  then have "fst ` set byPID - insert ppid seen \<subset> fst ` set byPID - seen" by blast
  then show "((byPID, active, insert ppid seen, pi_PPID parent), byPID, active, seen, ppid)
      \<in> measure (\<lambda>(byPID, active, seen, ppid). card (fst ` set byPID - seen))"
    by (simp add: psubset_card_mono)
qed simp

declare ancestor_loop.simps [simp del]

definition hasActiveAncestor :: "process_info \<Rightarrow> (u32, process_info) gomap \<Rightarrow> active_map \<Rightarrow> bool" where
  "hasActiveAncestor proc byPID active = ancestor_loop byPID active {} (pi_PPID proc)"

text \<open>
  \<^verbatim>\<open>walk\<close> of \<^verbatim>\<open>activeWatcherChildren\<close>, over a stack of the processes still to look at: a process
  that is not active gives way to its children. Nothing marks it as seen, so it would not return
  on a cycle of processes that are not active; \<^verbatim>\<open>WatcherSpec\<close> shows that the tree is never walked
  into one.
\<close>

partial_function (option) active_children ::
    "process_info list \<Rightarrow> child_table \<Rightarrow> active_map \<Rightarrow> u32 set \<Rightarrow> process_info list option" where
  "active_children stack byParent active seen =
     (case stack of
        [] \<Rightarrow> Some []
      | child # stack \<Rightarrow>
          if pid_of child \<in> seen then active_children stack byParent active seen
          else if mget active (pi_Key child) \<noteq> None then
            Option.bind (active_children stack byParent active seen) (\<lambda>children. Some (child # children))
          else active_children (children_of byParent (pid_of child) @ stack) byParent active seen)"

definition activeWatcherChildren ::
    "process_info \<Rightarrow> child_table \<Rightarrow> active_map \<Rightarrow> u32 set \<Rightarrow> process_info list option" where
  "activeWatcherChildren proc byParent active seen =
     active_children (children_of byParent (pid_of proc)) byParent active seen"

record watcher_line =
  wl_key :: process_key
  wl_text :: string

definition node_line :: "process_info \<Rightarrow> string \<Rightarrow> bool \<Rightarrow> active_map \<Rightarrow> watcher_line" where
  "node_line proc indent final active =
     (let branch = (if \<not> final then tee else if indent = '''' then '''' else corner);
          v = (case mget active (pi_Key proc) of None \<Rightarrow> zero_value | Some v \<Rightarrow> v)
      in \<lparr>wl_key = pi_Key proc,
          wl_text = indent @ branch @ '' '' @ decimal (uint (pid_of proc)) @ '' '' @
            shortProcessName proc @ '' '' @ formatProcessMark v True\<rparr>)"

definition child_prefix :: "string \<Rightarrow> bool \<Rightarrow> string" where
  "child_prefix indent final = (if final then indent @ '' '' else indent @ bar)"

text \<open>The calls \<^verbatim>\<open>printWatcherNode\<close> makes for the children of a node, the last one marked.\<close>

fun node_calls :: "string \<Rightarrow> process_info list \<Rightarrow> (process_info \<times> string \<times> bool) list" where
  "node_calls indent [] = []"
| "node_calls indent (child # children) = (child, indent, children = []) # node_calls indent children"

text \<open>\<^verbatim>\<open>printWatcherNode\<close>, over a stack of calls: the calls for the children come before the others.\<close>

partial_function (option) print_nodes ::
    "(process_info \<times> string \<times> bool) list \<Rightarrow> child_table \<Rightarrow> active_map \<Rightarrow> u32 set \<Rightarrow> watcher_line list option" where
  "print_nodes calls byParent active seen =
     (case calls of
        [] \<Rightarrow> Some []
      | call # calls \<Rightarrow>
          (case call of (proc, indent, final) \<Rightarrow>
             if pid_of proc \<in> seen then print_nodes calls byParent active seen
             else
               Option.bind (activeWatcherChildren proc byParent active (insert (pid_of proc) seen)) (\<lambda>children.
               Option.bind (print_nodes (node_calls (child_prefix indent final) children @ calls)
                   byParent active (insert (pid_of proc) seen)) (\<lambda>printed.
               Some (node_line proc indent final active # printed)))))"

fun print_roots ::
    "child_table \<Rightarrow> active_map \<Rightarrow> process_info list \<Rightarrow> watcher_line list option" where
  "print_roots byParent active [] = Some []"
| "print_roots byParent active (root # roots) =
     Option.bind (print_nodes [(root, '''', True)] byParent active {}) (\<lambda>printed.
     Option.bind (print_roots byParent active roots) (\<lambda>more. Some (printed @ more)))"

text \<open>Who starts a tree: in the order of the entries, then sorted.\<close>

fun find_roots :: "process_key list \<Rightarrow> (u32, process_info) gomap \<Rightarrow> active_map \<Rightarrow> process_info list" where
  "find_roots [] byPID active = []"
| "find_roots (key # keys) byPID active =
     (case mget byPID (Tgid key) of
        None \<Rightarrow> find_roots keys byPID active
      | Some proc \<Rightarrow>
          if StartTime (pi_Key proc) \<noteq> StartTime key \<or> hasActiveAncestor proc byPID active
          then find_roots keys byPID active
          else proc # find_roots keys byPID active)"

definition printWatcherTree :: "process_map_state \<Rightarrow> (watcher_line list \<times> bool) option" where
  "printWatcherTree snapshot =
     (let byPID = index_byPID (Procs snapshot) [];
          byParent = byParent_table (Procs snapshot);
          active = active_entries snapshot;
          roots = sort_key (Tgid \<circ> pi_Key) (find_roots (mkeys active) byPID active)
      in Option.bind (print_roots byParent active roots) (\<lambda>printed. Some (printed, roots \<noteq> [])))"

end
