(* ===== verification/WatcherSpec.thy ===== *)
theory WatcherSpec
  imports Watcher
begin

text \<open>
  What the watcher prints: it always comes to an end, and of processes that all hang under the
  roots it prints exactly the marked ones, each once. Its tombstone tracker counts what has
  been a tombstone and what has since gone.
\<close>

section \<open>Termination\<close>

lemma active_children_simps [simp]:
  "active_children [] byParent active seen = Some []"
  "active_children (child # stack) byParent active seen =
     (if pid_of child \<in> seen then active_children stack byParent active seen
      else if mget active (pi_Key child) \<noteq> None then
        Option.bind (active_children stack byParent active seen) (\<lambda>children. Some (child # children))
      else active_children (children_of byParent (pid_of child) @ stack) byParent active seen)"
  by (subst active_children.simps; simp)+

text \<open>
  \<open>shallow\<close>: below \<open>p\<close>, a path of processes that are neither seen nor active has less than
  \<open>n\<close> of them.
\<close>

fun shallow :: "child_table \<Rightarrow> active_map \<Rightarrow> u32 set \<Rightarrow> nat \<Rightarrow> process_info \<Rightarrow> bool" where
  "shallow tab active seen 0 p = False"
| "shallow tab active seen (Suc n) p =
     (\<forall>c \<in> set (children_of tab (pid_of p)). pid_of c \<in> seen \<or> mget active (pi_Key c) \<noteq> None \<or> shallow tab active seen n c)"

lemma active_children_returns:
  assumes "\<forall>c \<in> set xs. pid_of c \<in> seen \<or> mget active (pi_Key c) \<noteq> None \<or> shallow tab active seen n c"
    and "\<exists>r. active_children stack tab active seen = Some r"
  shows "\<exists>r. active_children (xs @ stack) tab active seen = Some r"
  using assms
proof (induction n arbitrary: xs stack)
  case 0
  then show ?case by (induction xs) auto
next
  case (Suc n)
  from Suc.prems show ?case
  proof (induction xs)
    case (Cons c xs)
    then have "\<exists>r. active_children (xs @ stack) tab active seen = Some r" by simp
    moreover have "shallow tab active seen (Suc n) c \<Longrightarrow>
        \<exists>r. active_children (children_of tab (pid_of c) @ xs @ stack) tab active seen = Some r"
      using Suc.IH [of "children_of tab (pid_of c)" "xs @ stack"] calculation by simp
    ultimately show ?case using Cons.prems(1) by auto
  qed simp
qed

text \<open>A path down from \<open>p\<close> that avoids what is seen.\<close>

fun path :: "process_info list \<Rightarrow> u32 set \<Rightarrow> process_info \<Rightarrow> process_info list \<Rightarrow> bool" where
  "path procs seen p [] = True"
| "path procs seen p (c # cs) =
     (c \<in> set procs \<and> pi_PPID c = pid_of p \<and> pid_of c \<notin> seen \<and> path procs seen c cs)"

lemma path_nth:
  "path procs seen p cs \<Longrightarrow> i < length cs \<Longrightarrow>
   cs ! i \<in> set procs \<and> pid_of (cs ! i) \<notin> seen \<and>
   pi_PPID (cs ! i) = (case i of 0 \<Rightarrow> pid_of p | Suc j \<Rightarrow> pid_of (cs ! j))"
proof (induction procs seen p cs arbitrary: i rule: path.induct)
  case (2 procs seen p c cs)
  then show ?case by (cases i) (auto split: nat.splits)
qed simp

lemma not_shallow_path:
  "\<not> shallow (byParent_table procs) active seen n p \<Longrightarrow> \<exists>cs. length cs = n \<and> path procs seen p cs"
proof (induction n arbitrary: p)
  case (Suc n)
  then obtain c where c: "c \<in> set procs" "pi_PPID c = pid_of p" "pid_of c \<notin> seen"
    "\<not> shallow (byParent_table procs) active seen n c"
    by (auto simp: set_children)
  then obtain cs where "length cs = n" "path procs seen c cs" using Suc.IH by blast
  then show ?case using c by (intro exI [of _ "c # cs"]) simp
qed simp

lemma path_distinct:
  assumes l: "listing procs" and path: "path procs seen p cs" and seen: "pid_of p \<in> seen"
  shows "i < j \<Longrightarrow> j < length cs \<Longrightarrow> pid_of (cs ! i) \<noteq> pid_of (cs ! j)"
proof (induction i arbitrary: j)
  case 0
  then obtain j' where j: "j = Suc j'" by (cases j) auto
  have ne: "cs \<noteq> []" using 0 by auto
  show ?case
  proof
    assume "pid_of (cs ! 0) = pid_of (cs ! j)"
    then have "cs ! 0 = cs ! j"
      using listing_key_inj [OF l] path_nth [OF path, of 0] path_nth [OF path, of j] 0 ne by auto
    then have "pid_of p = pid_of (cs ! j')"
      using path_nth [OF path, of 0] path_nth [OF path, of j] 0 j ne by auto
    then show False using path_nth [OF path, of j'] 0 j seen by auto
  qed
next
  case (Suc i)
  then obtain j' where j: "j = Suc j'" by (cases j) auto
  show ?case
  proof
    assume "pid_of (cs ! Suc i) = pid_of (cs ! j)"
    then have "cs ! Suc i = cs ! j"
      using listing_key_inj [OF l] path_nth [OF path, of "Suc i"] path_nth [OF path, of j] Suc.prems by auto
    then have "pid_of (cs ! i) = pid_of (cs ! j')"
      using path_nth [OF path, of "Suc i"] path_nth [OF path, of j] Suc.prems j by auto
    then show False using Suc.IH [of j'] Suc.prems j by simp
  qed
qed

lemma all_shallow:
  assumes l: "listing procs" and seen: "pid_of p \<in> seen"
  shows "shallow (byParent_table procs) active seen (Suc (length procs)) p"
proof (rule ccontr)
  assume "\<not> ?thesis"
  then obtain cs where cs: "length cs = Suc (length procs)" "path procs seen p cs"
    using not_shallow_path by blast
  have "distinct (map pid_of cs)"
    using path_distinct [OF l cs(2) seen]
    by (auto simp: distinct_conv_nth) (metis linorder_neqE_nat)
  then have "card (set (map pid_of cs)) = Suc (length procs)" using cs(1) distinct_card by fastforce
  moreover have "set (map pid_of cs) \<subseteq> set (map pid_of procs)"
    using path_nth [OF cs(2)] by (force simp: in_set_conv_nth)
  then have "card (set (map pid_of cs)) \<le> length procs"
    by (metis List.finite_set card_length card_mono length_map order_trans)
  ultimately show False by simp
qed

text \<open>Whatever was printed before: the search for the children of a process comes to an end.\<close>

lemma activeWatcherChildren_returns:
  assumes "listing procs" "pid_of p \<in> seen"
  shows "\<exists>cs. activeWatcherChildren p (byParent_table procs) active seen = Some cs"
  using active_children_returns [of "children_of (byParent_table procs) (pid_of p)" seen active "byParent_table procs"
      "length procs" "[]"] all_shallow [OF assms, of active]
  by (simp add: activeWatcherChildren_def)

section \<open>What surfaces\<close>

abbreviation is_active :: "active_map \<Rightarrow> process_info \<Rightarrow> bool" where
  "is_active active p \<equiv> mget active (pi_Key p) \<noteq> None"

text \<open>The processes the search finds in the place of \<open>c\<close>.\<close>

inductive surf :: "child_table \<Rightarrow> active_map \<Rightarrow> u32 set \<Rightarrow> process_info \<Rightarrow> process_info \<Rightarrow> bool"
  for tab :: child_table and active :: active_map and seen :: "u32 set" where
  surf_here: "pid_of c \<notin> seen \<Longrightarrow> is_active active c \<Longrightarrow> surf tab active seen c c"
| surf_below: "pid_of c \<notin> seen \<Longrightarrow> \<not> is_active active c \<Longrightarrow> d \<in> set (children_of tab (pid_of c)) \<Longrightarrow>
    surf tab active seen q d \<Longrightarrow> surf tab active seen q c"

inductive_simps surf_iff: "surf tab active seen q c"

lemma active_children_surf:
  assumes "active_children stack tab active seen = Some r"
  shows "set r = {q. \<exists>c \<in> set stack. surf tab active seen q c}"
proof (induction rule: active_children.raw_induct [OF _ assms, case_names step])
  case (step f stack tab active seen r)
  show ?case
  proof (cases stack)
    case Nil
    then show ?thesis using step(2) by simp
  next
    case (Cons c rest)
    note one = surf_iff [of tab active seen _ c]
    consider "pid_of c \<in> seen" | "pid_of c \<notin> seen" "is_active active c" | "pid_of c \<notin> seen" "\<not> is_active active c"
      by blast
    then show ?thesis
    proof cases
      case 1
      then show ?thesis using step Cons by (auto simp: one)
    next
      case 2
      then obtain r' where "f rest tab active seen = Some r'" "r = c # r'"
        using step(2) Cons by (auto simp: Option.bind_eq_Some_conv)
      then show ?thesis using step(1) Cons 2 by (auto simp: one)
    next
      case 3
      then have "f (children_of tab (pid_of c) @ rest) tab active seen = Some r" using step(2) Cons by simp
      from step(1) [OF this] show ?thesis using Cons 3 by (auto simp: one)
    qed
  qed
qed

lemma surf_active: "surf tab active seen q c \<Longrightarrow> is_active active q \<and> pid_of q \<notin> seen"
  by (induction rule: surf.induct) auto

text \<open>The tree of the listing.\<close>

definition tree :: "process_info list \<Rightarrow> (process_info \<times> process_info) set" where
  "tree procs = {(c, p). c \<in> set procs \<and> p \<in> set procs \<and> pi_PPID c = pid_of p}"

lemma surf_descends:
  "surf (byParent_table procs) active seen q c \<Longrightarrow> c \<in> set procs \<Longrightarrow> q \<in> set procs \<and> (q, c) \<in> (tree procs)\<^sup>*"
proof (induction rule: surf.induct)
  case (surf_below c d q)
  then have "(d, c) \<in> tree procs" "d \<in> set procs" by (auto simp: set_children tree_def)
  with surf_below.IH show ?case by (auto intro: rtrancl_into_rtrancl)
qed simp

text \<open>What only active processes can hide.\<close>

lemma surf_seen:
  assumes "surf tab active {} q c" "\<And>p. p \<in> set procs \<Longrightarrow> pid_of p \<in> seen \<Longrightarrow> is_active active p"
    and "tab = byParent_table procs" "c \<in> set procs"
  shows "pid_of q \<in> seen \<or> surf tab active seen q c"
  using assms
proof (induction rule: surf.induct)
  case (surf_here c)
  then show ?case by (auto intro: surf.intros)
next
  case (surf_below c d q)
  then have "d \<in> set procs" by (simp add: set_children)
  moreover have "pid_of c \<notin> seen" using surf_below.hyps(2) surf_below.prems(1,3) by blast
  ultimately show ?case
    using surf_below.IH surf_below.prems surf.surf_below [of c seen active d tab q] surf_below.hyps by blast
qed

section \<open>What one tree prints\<close>

lemma print_nodes_simps [simp]:
  "print_nodes [] tab active seen = Some []"
  "print_nodes ((proc, indent, final) # calls) tab active seen =
     (if pid_of proc \<in> seen then print_nodes calls tab active seen
      else Option.bind (activeWatcherChildren proc tab active (insert (pid_of proc) seen)) (\<lambda>children.
           Option.bind (print_nodes (node_calls (child_prefix indent final) children @ calls) tab active
             (insert (pid_of proc) seen)) (\<lambda>printed. Some (node_line proc indent final active # printed))))"
  by (subst print_nodes.simps; simp)+

lemma node_calls_procs [simp]: "fst ` set (node_calls indent children) = set children"
  by (induction indent children rule: node_calls.induct) auto

lemma node_line_key [simp]: "wl_key (node_line proc indent final active) = pi_Key proc"
  by (simp add: node_line_def Let_def)

definition pids :: "watcher_line list \<Rightarrow> u32 set" where
  "pids printed = (\<lambda>l. Tgid (wl_key l)) ` set printed"

lemma pids_simps [simp]: "pids [] = {}" "pids (l # printed) = insert (Tgid (wl_key l)) (pids printed)"
  by (simp_all add: pids_def)

lemma print_nodes_returns:
  assumes "listing procs" "fst ` set calls \<subseteq> set procs"
  shows "\<exists>printed. print_nodes calls (byParent_table procs) active seen = Some printed"
  using assms(2)
proof (induction "card (pid_of ` set procs - seen)" arbitrary: calls seen rule: less_induct)
  case less
  from less.prems show ?case
  proof (induction calls)
    case (Cons call calls)
    obtain proc indent final where call: "call = (proc, indent, final)" by (cases call)
    show ?case
    proof (cases "pid_of proc \<in> seen")
      case True
      then show ?thesis using Cons call by auto
    next
      case False
      let ?seen = "insert (pid_of proc) seen"
      obtain cs where cs: "activeWatcherChildren proc (byParent_table procs) active ?seen = Some cs"
        using activeWatcherChildren_returns [OF assms(1)] by blast
      have proc: "proc \<in> set procs" using Cons.prems call by simp
      have "set cs \<subseteq> set procs"
        using active_children_surf [OF cs [unfolded activeWatcherChildren_def]] surf_descends
        by (auto simp: set_children)
      then have calls: "fst ` set (node_calls (child_prefix indent final) cs @ calls) \<subseteq> set procs"
        using Cons.prems by (simp add: image_Un)
      have "pid_of ` set procs - ?seen \<subset> pid_of ` set procs - seen" using False proc by blast
      then have "card (pid_of ` set procs - ?seen) < card (pid_of ` set procs - seen)"
        by (simp add: psubset_card_mono)
      from less.hyps [OF this calls] cs False show ?thesis by (auto simp: call)
    qed
  qed simp
qed

text \<open>
  From a state in which only active processes have been seen, every line is for an active process
  below one of the calls, no process is printed twice, each call's process has been seen in the
  end, and with a process everything that surfaces below it.
\<close>

definition line_below :: "process_info list \<Rightarrow> active_map \<Rightarrow> process_info set \<Rightarrow> watcher_line \<Rightarrow> bool" where
  "line_below procs active starts l \<longleftrightarrow>
     (\<exists>q \<in> set procs. is_active active q \<and> wl_key l = pi_Key q \<and> (\<exists>c \<in> starts. (q, c) \<in> (tree procs)\<^sup>*))"

definition settled :: "process_info list \<Rightarrow> active_map \<Rightarrow> u32 set \<Rightarrow> process_info \<Rightarrow> bool" where
  "settled procs active V x \<longleftrightarrow>
     (\<forall>d q. d \<in> set procs \<longrightarrow> pi_PPID d = pid_of x \<longrightarrow> surf (byParent_table procs) active {} q d \<longrightarrow> pid_of q \<in> V)"

definition prints_well :: "process_info list \<Rightarrow> active_map \<Rightarrow> u32 set \<Rightarrow> process_info set \<Rightarrow> watcher_line list \<Rightarrow> bool" where
  "prints_well procs active seen starts printed \<longleftrightarrow>
     distinct (map (\<lambda>l. Tgid (wl_key l)) printed) \<and> pids printed \<inter> seen = {} \<and>
     (\<forall>l \<in> set printed. line_below procs active starts l) \<and>
     pid_of ` starts \<subseteq> seen \<union> pids printed \<and>
     (\<forall>x \<in> set procs. pid_of x \<in> pids printed \<longrightarrow> settled procs active (seen \<union> pids printed) x)"

lemma line_below_mono:
  "line_below procs active starts l \<Longrightarrow> \<forall>c \<in> starts. \<exists>s \<in> starts'. (c, s) \<in> (tree procs)\<^sup>* \<Longrightarrow>
   line_below procs active starts' l"
  unfolding line_below_def by (meson rtrancl_trans)

lemma line_below_subset: "line_below procs active starts l \<Longrightarrow> starts \<subseteq> starts' \<Longrightarrow> line_below procs active starts' l"
  unfolding line_below_def by blast

lemma settled_mono: "settled procs active V x \<Longrightarrow> V \<subseteq> V' \<Longrightarrow> settled procs active V' x"
  unfolding settled_def by blast

lemma prints_well_skip:
  "prints_well procs active seen starts printed \<Longrightarrow> pid_of p \<in> seen \<Longrightarrow>
   prints_well procs active seen (insert p starts) printed"
  using line_below_subset [of procs active starts _ "insert p starts"] by (auto simp: prints_well_def)

lemma prints_wellI:
  assumes w: "prints_well procs active (insert (pid_of p) seen) starts' printed" and new: "pid_of p \<notin> seen"
    and p: "p \<in> set procs" "is_active active p" "p \<in> starts" "starts \<subseteq> insert p starts'" "listing procs"
    and above: "\<forall>c \<in> starts'. \<exists>s \<in> starts. (c, s) \<in> (tree procs)\<^sup>*"
    and below: "settled procs active (insert (pid_of p) seen \<union> pid_of ` starts') p"
    and l: "wl_key l = pi_Key p"
  shows "prints_well procs active seen starts (l # printed)"
proof -
  have V: "insert (pid_of p) seen \<union> pids printed = seen \<union> pids (l # printed)" using l by simp
  have "line_below procs active starts l" unfolding line_below_def using p(1-3) l by blast
  moreover have "line_below procs active starts l'" if "l' \<in> set printed" for l'
    using w that by (intro line_below_mono [OF _ above]) (simp add: prints_well_def)
  moreover have "settled procs active (seen \<union> pids (l # printed)) x"
    if x: "x \<in> set procs" "pid_of x \<in> pids (l # printed)" for x
  proof (cases "pid_of x = pid_of p")
    case True
    then have "x = p" by (rule listing_key_inj [OF p(5) x(1) p(1)])
    moreover have "insert (pid_of p) seen \<union> pid_of ` starts' \<subseteq> seen \<union> pids (l # printed)"
      using w by (auto simp: prints_well_def l)
    ultimately show ?thesis using settled_mono [OF below] by simp
  next
    case False
    then show ?thesis using w x l unfolding prints_well_def V by simp
  qed
  moreover have "distinct (map (\<lambda>l. Tgid (wl_key l)) (l # printed))" "pids (l # printed) \<inter> seen = {}"
    using w new l by (auto simp: prints_well_def pids_def)
  moreover have "pid_of ` starts \<subseteq> seen \<union> pids (l # printed)"
  proof -
    have "pid_of ` starts' \<subseteq> insert (pid_of p) (seen \<union> pids printed)" using w by (simp add: prints_well_def)
    moreover have "pid_of ` starts \<subseteq> insert (pid_of p) (pid_of ` starts')" using p(4) by blast
    ultimately have "pid_of ` starts \<subseteq> insert (pid_of p) (seen \<union> pids printed)" by (meson order_trans insert_subsetI insertI1)
    then show ?thesis by (simp add: l)
  qed
  ultimately show ?thesis by (simp add: prints_well_def)
qed

lemma print_nodes_well:
  assumes "print_nodes calls tab active seen = Some printed"
    and "tab = byParent_table procs" "listing procs" "fst ` set calls \<subseteq> set procs"
    and "\<forall>p \<in> fst ` set calls. is_active active p"
    and "\<forall>p \<in> set procs. pid_of p \<in> seen \<longrightarrow> is_active active p"
  shows "prints_well procs active seen (fst ` set calls) printed"
  using assms(2-)
proof (induction rule: print_nodes.raw_induct [OF _ assms(1), case_names step])
  case (step f calls tab active seen printed)
  show ?case
  proof (cases calls)
    case Nil
    then show ?thesis using step(2) by (simp add: prints_well_def)
  next
    case (Cons call rest)
    obtain proc indent final where call: "call = (proc, indent, final)" by (cases call)
    show ?thesis
    proof (cases "pid_of proc \<in> seen")
      case True
      then have "f rest tab active seen = Some printed" using step(2) Cons call by simp
      from step(1) [OF this step(3,4)] step(5-7) Cons have "prints_well procs active seen (fst ` set rest) printed" by simp
      from prints_well_skip [OF this True] show ?thesis by (simp add: Cons call)
    next
      case False
      let ?seen = "insert (pid_of proc) seen"
      obtain cs printed' where cs: "activeWatcherChildren proc tab active ?seen = Some cs"
        and r: "f (node_calls (child_prefix indent final) cs @ rest) tab active ?seen = Some printed'"
        and p: "printed = node_line proc indent final active # printed'"
        using step(2) Cons call False by (auto simp: Option.bind_eq_Some_conv)
      have proc: "proc \<in> set procs" "is_active active proc" using step(5,6) Cons call by auto
      have set_cs: "set cs = {q. \<exists>d \<in> set procs. pi_PPID d = pid_of proc \<and> surf tab active ?seen q d}"
        using active_children_surf [OF cs [unfolded activeWatcherChildren_def]] step(3) by (auto simp: set_children)
      have cs_ok: "q \<in> set procs" "is_active active q" "(q, proc) \<in> (tree procs)\<^sup>*" if q: "q \<in> set cs" for q
      proof -
        obtain d where d: "d \<in> set procs" "pi_PPID d = pid_of proc" "surf tab active ?seen q d"
          using q set_cs by blast
        have "(q, d) \<in> (tree procs)\<^sup>*" using surf_descends [of procs active ?seen q d] d step(3) by simp
        moreover have "(d, proc) \<in> tree procs" using d proc by (simp add: tree_def)
        ultimately show "(q, proc) \<in> (tree procs)\<^sup>*" by (rule rtrancl_into_rtrancl)
        show "q \<in> set procs" using surf_descends [of procs active ?seen q d] d step(3) by simp
        show "is_active active q" using surf_active [OF d(3)] by simp
      qed
      have seen: "\<forall>p \<in> set procs. pid_of p \<in> ?seen \<longrightarrow> is_active active p"
        using step(7) proc listing_key_inj [OF step(4)] by auto
      have starts: "fst ` set (node_calls (child_prefix indent final) cs @ rest) = set cs \<union> fst ` set rest"
        by (simp add: image_Un)
      have "prints_well procs active ?seen (set cs \<union> fst ` set rest) printed'"
      proof -
        have "set cs \<union> fst ` set rest \<subseteq> set procs" using cs_ok(1) step(5) Cons by auto
        moreover have "\<forall>p \<in> set cs \<union> fst ` set rest. is_active active p" using cs_ok(2) step(6) Cons by auto
        ultimately show ?thesis using step(1) [OF r step(3,4), unfolded starts] seen by blast
      qed
      then show ?thesis
        unfolding p
      proof (rule prints_wellI [OF _ False proc])
        show "proc \<in> fst ` set calls" "fst ` set calls \<subseteq> insert proc (set cs \<union> fst ` set rest)"
          by (auto simp: Cons call)
        show "listing procs" by (rule step(4))
        show "\<forall>c \<in> set cs \<union> fst ` set rest. \<exists>s \<in> fst ` set calls. (c, s) \<in> (tree procs)\<^sup>*"
          using cs_ok(3) by (auto simp: Cons call)
        show "settled procs active (?seen \<union> pid_of ` (set cs \<union> fst ` set rest)) proc"
          unfolding settled_def
        proof (intro allI impI)
          fix d q
          assume d: "d \<in> set procs" "pi_PPID d = pid_of proc" "surf (byParent_table procs) active {} q d"
          have "pid_of q \<in> ?seen \<or> surf tab active ?seen q d"
            using surf_seen [OF d(3) _ refl d(1), of ?seen] seen step(3) by blast
          then show "pid_of q \<in> ?seen \<union> pid_of ` (set cs \<union> fst ` set rest)" using d set_cs by blast
        qed
      qed simp
    qed
  qed
qed

section \<open>One root\<close>

abbreviation proper :: "process_info list \<Rightarrow> process_info \<Rightarrow> process_info \<Rightarrow> bool" where
  "proper procs q p \<equiv> (q, p) \<in> (tree procs)\<^sup>+"

lemma surf_self: "surf tab active seen q c \<Longrightarrow> is_active active c \<Longrightarrow> q = c"
  by (erule surf.cases) simp_all

text \<open>Below a printed process, whoever is active is printed.\<close>

lemma settled_below:
  assumes settled: "\<forall>x \<in> set procs. pid_of x \<in> V \<longrightarrow> settled procs active V x"
    and r: "pid_of r \<in> V" "r \<in> set procs" "is_active active r" and q: "(q, r) \<in> (tree procs)\<^sup>*" "is_active active q"
  shows "pid_of q \<in> V"
proof -
  let ?ok = "\<lambda>y. \<forall>x. surf (byParent_table procs) active {} x y \<longrightarrow> pid_of x \<in> V"
  have "?ok q \<and> q \<in> set procs"
    using q(1)
  proof (induction rule: converse_rtrancl_induct)
    case base
    then show ?case using r surf_self [OF _ r(3)] by blast
  next
    case (step y z)
    then have y: "y \<in> set procs" "pi_PPID y = pid_of z" "z \<in> set procs" by (auto simp: tree_def)
    have "?ok y"
    proof (intro allI impI)
      fix x assume x: "surf (byParent_table procs) active {} x y"
      show "pid_of x \<in> V"
      proof (cases "is_active active z")
        case True
        then have "surf (byParent_table procs) active {} z z" by (simp add: surf_here)
        then have "pid_of z \<in> V" using step.IH by blast
        then have "settled procs active V z" using settled y(3) by blast
        then show ?thesis using y(1,2) x by (simp add: settled_def)
      next
        case False
        have "surf (byParent_table procs) active {} x z"
          by (rule surf_below [OF _ False _ x]) (simp_all add: set_children y)
        then show ?thesis using step.IH by blast
      qed
    qed
    then show ?case using y(1) by simp
  qed
  then show ?thesis using q(2) surf_here [of q "{}" active "byParent_table procs"] by simp
qed

lemma print_root:
  assumes run: "print_nodes [(r, '''', True)] (byParent_table procs) active {} = Some printed"
    and l: "listing procs" and r: "r \<in> set procs" "is_active active r"
  shows "distinct (map (\<lambda>l. Tgid (wl_key l)) printed)"
    and "\<forall>l \<in> set printed. line_below procs active {r} l"
    and "pids printed = pid_of ` {q \<in> set procs. is_active active q \<and> (q, r) \<in> (tree procs)\<^sup>*}"
proof -
  have w: "prints_well procs active {} {r} printed"
    using print_nodes_well [OF run refl l] r by simp
  then show "distinct (map (\<lambda>l. Tgid (wl_key l)) printed)" and lines: "\<forall>l \<in> set printed. line_below procs active {r} l"
    by (simp_all add: prints_well_def)
  have "pid_of q \<in> pids printed" if "is_active active q" "(q, r) \<in> (tree procs)\<^sup>*" for q
    using settled_below [of procs "pids printed" active r q] w r that by (simp add: prints_well_def)
  moreover have "\<exists>q \<in> set procs. is_active active q \<and> (q, r) \<in> (tree procs)\<^sup>* \<and> t = pid_of q" if "t \<in> pids printed" for t
    using that lines by (fastforce simp: pids_def line_below_def)
  ultimately show "pids printed = pid_of ` {q \<in> set procs. is_active active q \<and> (q, r) \<in> (tree procs)\<^sup>*}" by blast
qed

section \<open>Who is a root\<close>

lemma index_byPID_find:
  "distinct (map pid_of procs) \<Longrightarrow> mget (index_byPID procs tab) t =
     (case find (\<lambda>p. pid_of p = t) procs of Some p \<Rightarrow> Some p | None \<Rightarrow> mget tab t)"
proof (induction procs arbitrary: tab)
  case (Cons a procs)
  have "find (\<lambda>p. pid_of p = t) procs = None" if "pid_of a = t"
    using Cons.prems that by (subst find_None_iff) (auto simp: image_iff)
  then show ?case using Cons by (auto split: option.split)
qed simp

lemma index_byPID_get:
  assumes l: "listing procs"
  shows "mget (index_byPID procs []) t = Some p \<longleftrightarrow> p \<in> set procs \<and> pid_of p = t"
proof -
  have "mget (index_byPID procs []) t = find (\<lambda>p. pid_of p = t) procs"
    using index_byPID_find [of procs "[]" t] l by (simp add: listing_def split: option.split)
  moreover have "find (\<lambda>p. pid_of p = t) procs = Some p" if p: "p \<in> set procs" "pid_of p = t"
  proof (cases "find (\<lambda>p. pid_of p = t) procs")
    case None
    then show ?thesis using p by (auto simp: find_None_iff)
  next
    case (Some q)
    then have "q \<in> set procs" "pid_of q = t" by (auto simp: find_Some_iff)
    then show ?thesis using listing_key_inj [OF l, of q p] p Some by simp
  qed
  moreover have "p \<in> set procs \<and> pid_of p = t" if "find (\<lambda>p. pid_of p = t) procs = Some p"
    using that by (auto simp: find_Some_iff)
  ultimately show ?thesis by auto
qed

lemma tree_parent: "listing procs \<Longrightarrow> (c, p) \<in> tree procs \<Longrightarrow> (c, q) \<in> tree procs \<Longrightarrow> p = q"
  using listing_key_inj [of procs p q] by (simp add: tree_def)

lemma proper_step:
  assumes "listing procs" "(c, p) \<in> tree procs"
  shows "proper procs c q \<longleftrightarrow> q = p \<or> proper procs p q"
proof
  assume "proper procs c q"
  then obtain z where "(c, z) \<in> tree procs" "(z, q) \<in> (tree procs)\<^sup>*" by (blast dest: tranclD)
  then show "q = p \<or> proper procs p q" using tree_parent [OF assms] by (auto simp: rtrancl_eq_or_trancl)
next
  assume "q = p \<or> proper procs p q"
  then show "proper procs c q" using assms(2) by (auto intro: trancl_into_trancl2)
qed

lemma proper_procs: "proper procs p q \<Longrightarrow> p \<in> set procs \<and> q \<in> set procs"
  by (induction rule: trancl.induct) (auto simp: tree_def)

text \<open>A process that hangs under the roots is not its own ancestor.\<close>

lemma rooted_acyclic:
  assumes l: "listing procs" and pid: "\<forall>p \<in> set procs. pid_of p \<noteq> 0" and "rooted procs p"
  shows "\<not> proper procs p p"
  using assms(3)
proof (induction rule: rooted.induct)
  case (rooted_root p)
  show ?case
  proof
    assume "proper procs p p"
    then obtain q where "(p, q) \<in> tree procs" by (meson converse_tranclE)
    then show False using rooted_root pid by (auto simp: tree_def)
  qed
next
  case (rooted_child q p)
  show ?case
  proof
    assume c: "proper procs p p"
    then obtain x where "(p, x) \<in> tree procs" by (meson converse_tranclE)
    then have p: "(p, q) \<in> tree procs" using rooted_child(1,2) by (simp add: tree_def)
    with c have "p = q \<or> proper procs q p" using proper_step [OF l p] by simp
    then have "proper procs q q" using p c by (auto intro: trancl_into_trancl)
    with rooted_child.IH show False by simp
  qed
qed

lemma ancestor_loop_spec:
  assumes l: "listing procs" and pid: "\<forall>p \<in> set procs. pid_of p \<noteq> 0" and "rooted procs p"
    and "p \<in> set procs" "\<forall>x. proper procs p x \<longrightarrow> pid_of x \<notin> seen"
  shows "ancestor_loop (index_byPID procs []) active seen (pi_PPID p) \<longleftrightarrow> (\<exists>x. proper procs p x \<and> is_active active x)"
  using assms(3-)
proof (induction arbitrary: seen rule: rooted.induct)
  case (rooted_root p)
  have "\<not> proper procs p x" for x
  proof
    assume "proper procs p x"
    then obtain q where "(p, q) \<in> tree procs" by (meson converse_tranclE)
    then show False using rooted_root pid by (auto simp: tree_def)
  qed
  then show ?case using rooted_root by (simp add: ancestor_loop.simps)
next
  case (rooted_child q p)
  have t: "(p, q) \<in> tree procs" using rooted_child by (simp add: tree_def)
  note up = proper_step [OF l t]
  have nq: "pid_of q \<noteq> 0" "pid_of q \<notin> seen" using pid rooted_child.hyps(1) rooted_child.prems(2) t by auto
  have "mget (index_byPID procs []) (pid_of q) = Some q" using index_byPID_get [OF l] rooted_child.hyps(1) by blast
  moreover have "\<forall>x. proper procs q x \<longrightarrow> pid_of x \<notin> insert (pid_of q) seen"
  proof (intro allI impI)
    fix x assume x: "proper procs q x"
    then have "x \<in> set procs" using proper_procs by blast
    moreover have "x \<noteq> q" using x rooted_acyclic [OF l pid rooted_child.hyps(3)] by auto
    ultimately have "pid_of x \<noteq> pid_of q" using listing_key_inj [OF l _ rooted_child.hyps(1)] by blast
    then show "pid_of x \<notin> insert (pid_of q) seen" using rooted_child.prems(2) up x by blast
  qed
  ultimately show ?case
    using rooted_child.IH [OF rooted_child.hyps(1)] nq up rooted_child.hyps(2)
    by (subst ancestor_loop.simps) auto
qed

lemma hasActiveAncestor_spec:
  assumes "listing procs" "\<forall>p \<in> set procs. pid_of p \<noteq> 0" "rooted procs p" "p \<in> set procs"
  shows "hasActiveAncestor p (index_byPID procs []) active \<longleftrightarrow> (\<exists>x. proper procs p x \<and> is_active active x)"
  using ancestor_loop_spec [OF assms] by (simp add: hasActiveAncestor_def)

section \<open>The whole tree\<close>

lemma find_roots_set:
  assumes l: "listing procs"
  shows "set (find_roots keys (index_byPID procs []) active) =
    {p \<in> set procs. pi_Key p \<in> set keys \<and> \<not> hasActiveAncestor p (index_byPID procs []) active}"
proof (induction keys)
  case (Cons key keys)
  let ?A = "\<lambda>p. hasActiveAncestor p (index_byPID procs []) active"
  show ?case
  proof (cases "mget (index_byPID procs []) (Tgid key)")
    case None
    then have "pi_Key p \<noteq> key" if "p \<in> set procs" for p
      using index_byPID_get [OF l, of "Tgid key" p] that by auto
    then show ?thesis using Cons None by auto
  next
    case (Some p)
    then have p: "p \<in> set procs" "pid_of p = Tgid key" using index_byPID_get [OF l] by blast+
    have key: "pi_Key x = key \<longleftrightarrow> x = p \<and> StartTime (pi_Key p) = StartTime key" if "x \<in> set procs" for x
      using listing_key_inj [OF l that p(1)] p(2) by (auto intro: process_key.equality)
    have "{x \<in> set procs. pi_Key x \<in> set (key # keys) \<and> \<not> ?A x} =
        {x \<in> set procs. pi_Key x = key \<and> \<not> ?A x} \<union> {x \<in> set procs. pi_Key x \<in> set keys \<and> \<not> ?A x}" by auto
    also have "{x \<in> set procs. pi_Key x = key \<and> \<not> ?A x} =
        (if StartTime (pi_Key p) \<noteq> StartTime key \<or> ?A p then {} else {p})"
      using key p(1) by (auto split: if_splits)
    finally show ?thesis using Cons.IH Some by auto
  qed
qed simp

lemma find_roots_distinct:
  assumes l: "listing procs" and d: "distinct keys"
  shows "distinct (find_roots keys (index_byPID procs []) active)"
  using d
proof (induction keys)
  case (Cons key keys)
  have "p \<notin> set (find_roots keys (index_byPID procs []) active)"
    if "mget (index_byPID procs []) (Tgid key) = Some p" "StartTime (pi_Key p) = StartTime key" for p
  proof -
    have "pi_Key p = key" using that index_byPID_get [OF l] by (auto intro: process_key.equality)
    then show ?thesis using Cons.prems by (simp add: find_roots_set [OF l])
  qed
  then show ?case using Cons by (auto split: option.split)
qed simp

lemma print_roots_returns:
  assumes "listing procs" "set roots \<subseteq> set procs"
  shows "\<exists>printed. print_roots (byParent_table procs) active roots = Some printed"
  using assms(2)
proof (induction roots)
  case (Cons root roots)
  obtain printed where "print_nodes [(root, '''', True)] (byParent_table procs) active {} = Some printed"
    using print_nodes_returns [OF assms(1), of "[(root, '''', True)]" active "{}"] Cons.prems by auto
  then show ?case using Cons by auto
qed simp

text \<open>Whatever the snapshot: the watcher comes to the end of its tree.\<close>

lemma printWatcherTree_returns:
  assumes "listing (Procs snapshot)"
  shows "\<exists>printed found. printWatcherTree snapshot = Some (printed, found)"
proof -
  let ?active = "active_entries snapshot"
  let ?roots = "sort_key (Tgid \<circ> pi_Key) (find_roots (mkeys ?active) (index_byPID (Procs snapshot) []) ?active)"
  have "set ?roots \<subseteq> set (Procs snapshot)" using find_roots_set [OF assms] by auto
  then obtain printed where "print_roots (byParent_table (Procs snapshot)) ?active ?roots = Some printed"
    using print_roots_returns [OF assms, of ?roots ?active] by blast
  then show ?thesis by (simp add: printWatcherTree_def Let_def)
qed

text \<open>Trees of different roots have nothing in common.\<close>

lemma common_descendant:
  assumes l: "listing procs" and q: "(q, a) \<in> (tree procs)\<^sup>*" "(q, b) \<in> (tree procs)\<^sup>*"
  shows "a = b \<or> proper procs a b \<or> proper procs b a"
  using q
proof (induction rule: converse_rtrancl_induct)
  case base
  then show ?case by (auto simp: rtrancl_eq_or_trancl)
next
  case (step x y)
  then show ?case
    using proper_step [OF l step(1), of b] by (auto simp: rtrancl_eq_or_trancl)
      (use step(1,2) in \<open>auto simp: rtrancl_eq_or_trancl intro: trancl_into_trancl2\<close>)
qed

lemma print_roots_spec:
  assumes "print_roots (byParent_table procs) active roots = Some printed" and l: "listing procs"
    and "\<forall>r \<in> set roots. r \<in> set procs \<and> is_active active r \<and> (\<forall>x. proper procs r x \<longrightarrow> \<not> is_active active x)"
    and "distinct roots"
  shows "distinct (map (\<lambda>l. Tgid (wl_key l)) printed) \<and> (\<forall>l \<in> set printed. line_below procs active (set roots) l) \<and>
    pids printed = pid_of ` {q \<in> set procs. is_active active q \<and> (\<exists>r \<in> set roots. (q, r) \<in> (tree procs)\<^sup>*)}"
  using assms(1,3-)
proof (induction roots arbitrary: printed)
  case Nil
  then show ?case by simp
next
  case (Cons r roots)
  then obtain first others where first: "print_nodes [(r, '''', True)] (byParent_table procs) active {} = Some first"
    and others: "print_roots (byParent_table procs) active roots = Some others" and p: "printed = first @ others"
    by (auto simp: Option.bind_eq_Some_conv)
  have r: "r \<in> set procs" "is_active active r" using Cons.prems by simp_all
  note one = print_root [OF first l r]
  have rest: "distinct (map (\<lambda>l. Tgid (wl_key l)) others)" "\<forall>l \<in> set others. line_below procs active (set roots) l"
    "pids others = pid_of ` {q \<in> set procs. is_active active q \<and> (\<exists>r \<in> set roots. (q, r) \<in> (tree procs)\<^sup>*)}"
    using Cons.IH [OF others] Cons.prems by simp_all
  have apart: "\<not> (q, r') \<in> (tree procs)\<^sup>*" if "r' \<in> set roots" "(q, r) \<in> (tree procs)\<^sup>*" for q r'
  proof -
    have "is_active active r'" "\<forall>x. proper procs r' x \<longrightarrow> \<not> is_active active x" "r \<noteq> r'"
      "\<forall>x. proper procs r x \<longrightarrow> \<not> is_active active x" using Cons.prems that(1) by auto
    then show ?thesis using common_descendant [OF l that(2), of r'] r(2) by blast
  qed
  have "t \<notin> pids others" if t: "t \<in> pids first" for t
  proof
    assume "t \<in> pids others"
    then obtain q' r' where q': "q' \<in> set procs" "t = pid_of q'" "r' \<in> set roots" "(q', r') \<in> (tree procs)\<^sup>*"
      unfolding rest(3) by blast
    obtain q where q: "q \<in> set procs" "t = pid_of q" "(q, r) \<in> (tree procs)\<^sup>*"
      using t unfolding one(3) by blast
    have "q = q'" using listing_key_inj [OF l q(1) q'(1)] q(2) q'(2) by simp
    then show False using apart [OF q'(3) q(3)] q'(4) by simp
  qed
  then have "set (map (\<lambda>l. Tgid (wl_key l)) first) \<inter> set (map (\<lambda>l. Tgid (wl_key l)) others) = {}"
    by (auto simp: pids_def)
  then have once: "distinct (map (\<lambda>l. Tgid (wl_key l)) printed)"
    unfolding p map_append distinct_append using one(1) rest(1) by simp
  have below: "\<forall>x \<in> set printed. line_below procs active (set (r # roots)) x"
  proof
    fix x assume "x \<in> set printed"
    then consider "x \<in> set first" | "x \<in> set others" by (auto simp: p)
    then show "line_below procs active (set (r # roots)) x"
    proof cases
      case 1
      show ?thesis by (rule line_below_subset [OF bspec [OF one(2) 1]]) simp
    next
      case 2
      show ?thesis by (rule line_below_subset [OF bspec [OF rest(2) 2]]) auto
    qed
  qed
  have "pids printed = pids first \<union> pids others" by (auto simp: p pids_def)
  also have "\<dots> = pid_of ` {q \<in> set procs. is_active active q \<and> (\<exists>r \<in> set (r # roots). (q, r) \<in> (tree procs)\<^sup>*)}"
    unfolding one(3) rest(3) image_Un [symmetric] by (rule arg_cong [of _ _ "\<lambda>A. pid_of ` A"]) auto
  finally show ?case using once below by blast
qed

lemma active_entries_get:
  "wfmap (Entries snapshot) \<Longrightarrow> mget (active_entries snapshot) k =
     (case mget (Entries snapshot) k of None \<Rightarrow> None | Some v \<Rightarrow> if \<not> Tombstone v \<and> HasMark v then Some v else None)"
proof -
  have "distinct (mkeys m) \<Longrightarrow> mget (filter (\<lambda>(key, v). P v) m) k =
      (case mget m k of None \<Rightarrow> None | Some v \<Rightarrow> if P v then Some v else None)" for P and m :: mirror_map
    by (induction m rule: gomap_induct) (auto simp: image_iff map_of_eq_None_iff split: option.split)
  then show "wfmap (Entries snapshot) \<Longrightarrow> ?thesis" by (simp add: active_entries_def wfmap_def)
qed

text \<open>Above an active process that hangs under the roots there is one that starts a tree.\<close>

lemma top_active:
  assumes l: "listing procs" and pid: "\<forall>p \<in> set procs. pid_of p \<noteq> 0" and "rooted procs q" "q \<in> set procs"
    and "(q, a) \<in> (tree procs)\<^sup>*" "is_active active a"
  shows "\<exists>r \<in> set procs. is_active active r \<and> (q, r) \<in> (tree procs)\<^sup>* \<and> (\<forall>x. proper procs r x \<longrightarrow> \<not> is_active active x)"
  using assms(3-)
proof (induction arbitrary: a rule: rooted.induct)
  case (rooted_root p)
  have none: "\<not> proper procs p x" for x
  proof
    assume "proper procs p x"
    then obtain q where "(p, q) \<in> tree procs" by (meson converse_tranclE)
    then show False using rooted_root pid by (auto simp: tree_def)
  qed
  then have "a = p" using rooted_root(3) by (auto simp: rtrancl_eq_or_trancl)
  then show ?case using none rooted_root by blast
next
  case (rooted_child q p)
  have t: "(p, q) \<in> tree procs" using rooted_child by (simp add: tree_def)
  note up = proper_step [OF l t]
  show ?case
  proof (cases "\<exists>b. (q, b) \<in> (tree procs)\<^sup>* \<and> is_active active b")
    case True
    then obtain r where "r \<in> set procs" "is_active active r" "(q, r) \<in> (tree procs)\<^sup>*"
      "\<forall>x. proper procs r x \<longrightarrow> \<not> is_active active x"
      using rooted_child.IH [OF rooted_child.hyps(1)] by blast
    then show ?thesis using t by (meson converse_rtrancl_into_rtrancl)
  next
    case False
    have quiet: "\<forall>x. proper procs p x \<longrightarrow> \<not> is_active active x"
      using False up by (auto simp: rtrancl_eq_or_trancl)
    then have "a = p" using rooted_child.prems by (auto simp: rtrancl_eq_or_trancl)
    then show ?thesis using quiet rooted_child.prems by blast
  qed
qed

text \<open>The marked processes of a snapshot: of a listed process, and not an exited one's entry.\<close>

definition marked_procs :: "process_map_state \<Rightarrow> process_info set" where
  "marked_procs snapshot =
     {p \<in> set (Procs snapshot). \<exists>v. mget (Entries snapshot) (pi_Key p) = Some v \<and> \<not> Tombstone v \<and> HasMark v}"

lemma printWatcherTree_marked:
  assumes l: "listing (Procs snapshot)" and wf: "wfmap (Entries snapshot)"
    and rooted: "\<forall>p \<in> set (Procs snapshot). rooted (Procs snapshot) p \<and> pid_of p \<noteq> 0"
    and run: "printWatcherTree snapshot = Some (printed, found)"
  shows "distinct (map wl_key printed)" "wl_key ` set printed = pi_Key ` marked_procs snapshot"
    "found \<longleftrightarrow> marked_procs snapshot \<noteq> {}"
proof -
  let ?procs = "Procs snapshot" and ?active = "active_entries snapshot"
  let ?byPID = "index_byPID ?procs []"
  let ?found = "find_roots (mkeys ?active) ?byPID ?active"
  have pid: "\<forall>p \<in> set ?procs. pid_of p \<noteq> 0" using rooted by blast
  have wfa: "distinct (mkeys ?active)" using wf by (simp add: active_entries_def wfmap_def distinct_map_filter)
  have active: "is_active ?active p \<longleftrightarrow> p \<in> marked_procs snapshot" if "p \<in> set ?procs" for p
    using that by (auto simp: active_entries_get [OF wf] marked_procs_def split: option.splits)
  have roots: "set ?found = {p \<in> set ?procs. is_active ?active p \<and> (\<forall>x. proper ?procs p x \<longrightarrow> \<not> is_active ?active x)}"
    unfolding find_roots_set [OF l] mkeys_get
    using rooted hasActiveAncestor_spec [OF l pid, of _ ?active] by blast
  obtain roots_run: "print_roots (byParent_table ?procs) ?active (sort_key (Tgid \<circ> pi_Key) ?found) = Some printed"
    and m': "found \<longleftrightarrow> sort_key (Tgid \<circ> pi_Key) ?found \<noteq> []"
    using run by (auto simp: printWatcherTree_def Let_def Option.bind_eq_Some_conv)
  have m: "found \<longleftrightarrow> ?found \<noteq> []" unfolding m' by (metis set_empty set_sort)
  note spec = print_roots_spec [OF roots_run l]
  have p: "distinct (map (\<lambda>l. Tgid (wl_key l)) printed)" "\<forall>l \<in> set printed. line_below ?procs ?active (set ?found) l"
    "pids printed = pid_of ` {q \<in> set ?procs. is_active ?active q \<and> (\<exists>r \<in> set ?found. (q, r) \<in> (tree ?procs)\<^sup>*)}"
    using spec roots find_roots_distinct [OF l wfa] by simp_all
  have top: "\<exists>r \<in> set ?found. (q, r) \<in> (tree ?procs)\<^sup>*" if "q \<in> set ?procs" "is_active ?active q" for q
    using top_active [OF l pid _ that(1) _ that(2)] rooted that(1) roots by blast
  have "map (\<lambda>l. Tgid (wl_key l)) printed = map Tgid (map wl_key printed)" by simp
  then show "distinct (map wl_key printed)" using p(1) by (metis distinct_map)
  have "pi_Key q \<in> wl_key ` set printed" if "q \<in> marked_procs snapshot" for q
  proof -
    have q: "q \<in> set ?procs" "is_active ?active q" using that active by (auto simp: marked_procs_def)
    then have "pid_of q \<in> pids printed" using top p(3) by blast
    then obtain x where x: "x \<in> set printed" "Tgid (wl_key x) = pid_of q" by (auto simp: pids_def)
    then obtain q' where "q' \<in> set ?procs" "wl_key x = pi_Key q'" using p(2) by (auto simp: line_below_def)
    then show ?thesis using x listing_key_inj [OF l _ q(1)] by (metis imageI)
  qed
  moreover have "wl_key x \<in> pi_Key ` marked_procs snapshot" if "x \<in> set printed" for x
  proof -
    have "line_below ?procs ?active (set ?found) x" by (rule bspec [OF p(2) that])
    then obtain q where q: "q \<in> set ?procs" "wl_key x = pi_Key q" "is_active ?active q"
      unfolding line_below_def by (elim bexE conjE) (rule that)
    have "q \<in> marked_procs snapshot" using iffD1 [OF active [OF q(1)] q(3)] .
    then show ?thesis unfolding q(2) by (rule imageI)
  qed
  ultimately show "wl_key ` set printed = pi_Key ` marked_procs snapshot" by blast
  show "found \<longleftrightarrow> marked_procs snapshot \<noteq> {}"
  proof
    assume "found"
    then obtain r where "r \<in> set ?found" using m by (cases ?found) auto
    then show "marked_procs snapshot \<noteq> {}" using roots active by blast
  next
    assume "marked_procs snapshot \<noteq> {}"
    then obtain q where "q \<in> set ?procs" "is_active ?active q" using active by (auto simp: marked_procs_def)
    from top [OF this] obtain r where "r \<in> set ?found" by (elim bexE)
    then show "found" unfolding m by (rule list.set_cases) simp_all
  qed
qed


section \<open>The tombstone tracker\<close>

text \<open>
  \<open>watch_ok\<close>: the counter of the collected tombstones agrees with the table.
  \<open>watched\<close>: what one look at a snapshot makes of a key's record in the table.
\<close>

definition watch_ok :: "tombstone_tracker \<Rightarrow> bool" where
  "watch_ok t \<longleftrightarrow> wfmap (wt_seen t) \<and> wt_collected t = card {k. mget (wt_seen t) k = Some True}"

definition watched :: "mirror_map \<Rightarrow> process_key \<Rightarrow> bool option \<Rightarrow> bool option" where
  "watched entries k before =
     (case before of
        None \<Rightarrow> (case mget entries k of None \<Rightarrow> None | Some v \<Rightarrow> if Tombstone v then Some False else None)
      | Some removed \<Rightarrow> Some (removed \<or> mget entries k = None))"

lemma note_tombstones_get:
  "wfmap entries \<Longrightarrow> mget (note_tombstones entries seen) k =
     (case mget seen k of
        None \<Rightarrow> (case mget entries k of None \<Rightarrow> None | Some v \<Rightarrow> if Tombstone v then Some False else None)
      | Some removed \<Rightarrow> Some removed)"
proof (induction entries arbitrary: seen)
  case (Cons e entries)
  obtain key v where e: "e = (key, v)" by (cases e)
  have "wfmap entries" "key \<noteq> k \<or> mget entries k = None"
    using Cons.prems by (auto simp: e wfmap_def map_of_eq_None_iff image_iff)
  then show ?case using Cons.IH by (auto simp: e split: option.splits)
qed (simp split: option.splits)

lemma note_tombstones_wf: "wfmap seen \<Longrightarrow> wfmap (note_tombstones entries seen)"
  by (induction entries seen rule: note_tombstones.induct) simp_all

lemma count_removed_get:
  "mget (wt_seen (count_removed entries L t)) k =
     (if (k, False) \<in> set L \<and> mget entries k = None then Some True else mget (wt_seen t) k)"
  by (induction entries L t rule: count_removed.induct) auto

lemma count_removed_ok:
  assumes "watch_ok t" and "distinct (mkeys L)" "\<forall>(k, removed) \<in> set L. mget (wt_seen t) k = Some removed"
  shows "watch_ok (count_removed entries L t)"
  using assms
proof (induction entries L t rule: count_removed.induct)
  case (2 entries key removed seen t)
  show ?case
  proof (cases "removed \<or> mget entries key \<noteq> None")
    case True
    then show ?thesis using 2 by auto
  next
    case False
    let ?t = "t\<lparr>wt_seen := mput key True (wt_seen t), wt_collected := wt_collected t + 1\<rparr>"
    have old: "mget (wt_seen t) key = Some False" using 2(4) False by auto
    have "finite {k. mget (wt_seen t) k = Some True}"
      by (rule finite_subset [OF _ finite_imageI [of "set (wt_seen t)" fst]]) (auto dest!: map_of_SomeD intro: rev_image_eqI)
    moreover have "{k. mget (wt_seen ?t) k = Some True} = insert key {k. mget (wt_seen t) k = Some True}" by auto
    ultimately have ok: "watch_ok ?t" using 2(2) old by (simp add: watch_ok_def)
    have "key \<notin> fst ` set seen" "distinct (mkeys seen)" using 2(3) by simp_all
    moreover have "\<forall>(k, removed) \<in> set seen. mget (wt_seen ?t) k = Some removed"
    proof (clarify, goal_cases)
      case (1 k removed)
      then have "mget (wt_seen t) k = Some removed" "k \<noteq> key" using 2(4) calculation(1) by force+
      then show ?case by simp
    qed
    ultimately show ?thesis using 2(1) ok False by simp
  qed
qed simp

lemma watcher_update_get:
  assumes "wfmap (Entries snapshot)" "watch_ok t"
  shows "mget (wt_seen (watcher_update snapshot t)) k = watched (Entries snapshot) k (mget (wt_seen t) k)"
    and "watch_ok (watcher_update snapshot t)"
proof -
  let ?seen = "note_tombstones (Entries snapshot) (wt_seen t)"
  let ?t = "t\<lparr>wt_seen := ?seen\<rparr>"
  have wf: "wfmap ?seen" using assms(2) by (simp add: watch_ok_def note_tombstones_wf)
  note get = note_tombstones_get [OF assms(1), of "wt_seen t"]
  show "mget (wt_seen (watcher_update snapshot t)) k = watched (Entries snapshot) k (mget (wt_seen t) k)"
    using wfmap_get_iff [OF wf, of k False, symmetric]
    by (auto simp: watcher_update_def count_removed_get get watched_def split: option.splits)
  have "{k. mget ?seen k = Some True} = {k. mget (wt_seen t) k = Some True}"
    by (auto simp: get split: option.splits if_splits)
  then have "watch_ok ?t" using assms(2) wf by (simp add: watch_ok_def)
  then show "watch_ok (watcher_update snapshot t)" unfolding watcher_update_def Let_def
    using count_removed_ok [of ?t ?seen "Entries snapshot"] wf wfmap_get_iff [OF wf] by (auto simp: wfmap_def)
qed

text \<open>
  What the watcher shows after it has looked at snapshots: so many keys were a tombstone in one
  of them, and of those so many were missing from a later one.
\<close>

definition watched_tombstone :: "process_map_state list \<Rightarrow> process_key \<Rightarrow> bool" where
  "watched_tombstone snapshots k \<longleftrightarrow>
     (\<exists>s \<in> set snapshots. \<exists>v. mget (Entries s) k = Some v \<and> Tombstone v)"

fun watched_collected :: "process_map_state list \<Rightarrow> process_key \<Rightarrow> bool" where
  "watched_collected [] k = False"
| "watched_collected (s # snapshots) k \<longleftrightarrow>
     (case mget (Entries s) k of
        Some v \<Rightarrow> if Tombstone v then \<exists>s' \<in> set snapshots. mget (Entries s') k = None else watched_collected snapshots k
      | None \<Rightarrow> watched_collected snapshots k)"

lemma watcher_counts:
  assumes "\<forall>s \<in> set snapshots. wfmap (Entries s)"
  shows "observed_tombstones (fold watcher_update snapshots newWatcherTombstoneTracker) =
      card {k. watched_tombstone snapshots k}"
    and "wt_collected (fold watcher_update snapshots newWatcherTombstoneTracker) =
      card {k. watched_collected snapshots k}"
proof -
  have run: "watch_ok (fold watcher_update snapshots t) \<and>
      mget (wt_seen (fold watcher_update snapshots t)) k =
        (case mget (wt_seen t) k of
           None \<Rightarrow> if watched_tombstone snapshots k then Some (watched_collected snapshots k) else None
         | Some removed \<Rightarrow> Some (removed \<or> (\<exists>s \<in> set snapshots. mget (Entries s) k = None)))"
    if "watch_ok t" for k t
    using assms that
  proof (induction snapshots arbitrary: t)
    case (Cons s snapshots)
    have "wfmap (Entries s)" using Cons.prems by simp
    note step = watcher_update_get [OF this Cons.prems(2)]
    have "\<forall>s \<in> set snapshots. wfmap (Entries s)" using Cons.prems by simp
    from Cons.IH [OF this step(2)] show ?case
      by (simp add: step watched_def watched_tombstone_def split: option.split)
  qed (auto simp: watched_tombstone_def split: option.split)
  let ?t = "fold watcher_update snapshots newWatcherTombstoneTracker"
  have "watch_ok newWatcherTombstoneTracker" by (simp add: watch_ok_def newWatcherTombstoneTracker_def)
  note after = run [OF this]
  have ok: "watch_ok ?t" using after by blast
  have get: "mget (wt_seen ?t) k = (if watched_tombstone snapshots k then Some (watched_collected snapshots k) else None)" for k
    using after [of k] by (simp add: newWatcherTombstoneTracker_def)
  have "observed_tombstones ?t = card (set (mkeys (wt_seen ?t)))"
    using ok distinct_card [of "mkeys (wt_seen ?t)"] by (simp add: observed_tombstones_def watch_ok_def wfmap_def)
  also have "set (mkeys (wt_seen ?t)) = {k. watched_tombstone snapshots k}"
    unfolding set_eq_iff mkeys_get get mem_Collect_eq by simp
  finally show "observed_tombstones ?t = card {k. watched_tombstone snapshots k}" .
  have "watched_collected snapshots k \<Longrightarrow> watched_tombstone snapshots k" for k
    by (induction snapshots) (auto simp: watched_tombstone_def split: option.splits if_splits)
  then have "{k. mget (wt_seen ?t) k = Some True} = {k. watched_collected snapshots k}" by (auto simp: get)
  then show "wt_collected ?t = card {k. watched_collected snapshots k}" using ok by (simp add: watch_ok_def)
qed

end
