(* ===== verification/WatcherScreen.thy ===== *)
theory WatcherScreen
  imports WatcherSpec
begin

text \<open>
  What the watcher shows at each look (\<^verbatim>\<open>printWatcherSnapshot\<close>, \<^verbatim>\<open>runWatcher\<close> and the formatting
  of ages of \<^verbatim>\<open>cmd/main.go\<close>): the screen, the loop, that each look comes to an end, and what its
  counters and its tree say of the kernel's map.
\<close>

section \<open>Durations\<close>

text \<open>\<^verbatim>\<open>time.Duration\<close>: nanoseconds in a signed word. \<open>fmtFrac\<close> leaves out trailing zeros.\<close>

type_synonym duration = "64 word"

abbreviation Microsecond :: int where "Microsecond \<equiv> 1000"
abbreviation Millisecond :: int where "Millisecond \<equiv> 1000000"
abbreviation Second :: int where "Second \<equiv> 1000000000"
abbreviation Minute :: int where "Minute \<equiv> 60000000000"
abbreviation Hour :: int where "Hour \<equiv> 3600000000000"

definition Truncate :: "duration \<Rightarrow> int \<Rightarrow> duration" where
  "Truncate d m =
     (if m \<le> 0 then d
      else if sint d < 0 then word_of_int (sint d + (- sint d) mod m)
      else word_of_int (sint d - sint d mod m))"

fun fmtFrac :: "nat \<Rightarrow> nat \<Rightarrow> string \<Rightarrow> bool \<Rightarrow> string \<times> nat" where
  "fmtFrac 0 v buf kept = ((if kept then CHR ''.'' # buf else buf), v)"
| "fmtFrac (Suc prec) v buf kept =
     (let digit = v mod 10; kept = (kept \<or> digit \<noteq> 0)
      in fmtFrac prec (v div 10) (if kept then digit_char digit # buf else buf) kept)"

definition with_frac :: "nat \<Rightarrow> nat \<Rightarrow> string \<Rightarrow> string" where
  "with_frac prec u unit_text = (let (buf, v) = fmtFrac prec u unit_text False in dec v @ buf)"

definition clock_text :: "nat \<Rightarrow> string" where
  "clock_text u =
     (let (buf, secs) = fmtFrac 9 u ''s'' False;
          buf = dec (secs mod 60) @ buf;
          mins = secs div 60
      in if mins = 0 then buf
         else
           (let buf = dec (mins mod 60) @ CHR ''m'' # buf;
                hours = mins div 60
            in if hours = 0 then buf else dec hours @ CHR ''h'' # buf))"

definition Duration_String :: "duration \<Rightarrow> string" where
  "Duration_String d =
     (let u = nat \<bar>sint d\<bar>;
          text =
            (if u = 0 then ''0s''
             else if u < nat Microsecond then with_frac 0 u ''ns''
             else if u < nat Millisecond then with_frac 3 u [CHR 0xC2, CHR 0xB5, CHR ''s'']
             else if u < nat Second then with_frac 6 u ''ms''
             else clock_text u)
      in if sint d < 0 then CHR ''-'' # text else text)"

section \<open>The age of the latest update\<close>

definition formatAge :: "duration \<Rightarrow> string" where
  "formatAge age =
     (if sint age < Second then Duration_String (Truncate age Millisecond)
      else if sint age < Minute then Duration_String (Truncate age Second)
      else if sint age < Hour then Duration_String (Truncate age Minute)
      else if sint age < 24 * Hour then Duration_String (Truncate age Hour)
      else Duration_String (Truncate age (24 * Hour)))"

text \<open>\<open>wall\<close> is the time of day in nanoseconds of Unix time.\<close>

definition formatLatestUpdate :: "int \<Rightarrow> u64 \<Rightarrow> world \<Rightarrow> string" where
  "formatLatestUpdate wall timestamp w =
     (if timestamp = 0 then ''none''
      else
        (let now = os_uptime w (os_ticks w);
             age = (if timestamp \<le> now then now - timestamp else 0);
             unix = (wall + sint (- age)) div Second
         in decimal unix @ '' ('' @ formatAge age @ '' ago, boot_ns='' @ decimal (uint timestamp) @ '')''))"

section \<open>A look\<close>

text \<open>
  At a look the watcher finds a time of day, in RFC 3339 and in nanoseconds, and a world; what
  happens between two looks is not its doing. \<open>title\<close> is the path of the pinned map.
\<close>

record watcher_look =
  wk_refreshed :: string
  wk_wall :: int
  wk_world :: world

record watcher_screen =
  ws_title :: string
  ws_refreshed :: string
  ws_alive :: nat
  ws_tombstones :: nat
  ws_observed :: nat
  ws_collected :: nat
  ws_latest :: string
  ws_tree :: "watcher_line list"
  ws_found :: bool

definition printWatcherSnapshot ::
    "string \<Rightarrow> watcher_look \<Rightarrow> tombstone_tracker \<Rightarrow>
     ((snapshot_error + watcher_screen) \<times> tombstone_tracker) option" where
  "printWatcherSnapshot title look tombstones =
     (case GrabProcessMapState (wk_world look) of
        (Inl e, w) \<Rightarrow> Some (Inl e, tombstones)
      | (Inr snapshot, w) \<Rightarrow>
          (let tombstones = watcher_update snapshot tombstones
           in Option.bind (printWatcherTree snapshot) (\<lambda>(printed, found).
              Some (Inr \<lparr>ws_title = title, ws_refreshed = wk_refreshed look, ws_alive = Alive snapshot,
                         ws_tombstones = Tombstones snapshot, ws_observed = observed_tombstones tombstones,
                         ws_collected = wt_collected tombstones,
                         ws_latest = formatLatestUpdate (wk_wall look) (Latest snapshot) w,
                         ws_tree = printed, ws_found = found\<rparr>, tombstones))))"

text \<open>The screen as text: it is cleared, then written.\<close>

definition field_line :: "string \<Rightarrow> string \<Rightarrow> string" where
  "field_line label text = label @ '': '' @ text @ [CHR 0x0A]"

definition screen_text :: "watcher_screen \<Rightarrow> string" where
  "screen_text s =
     [CHR 0x1B] @ ''[H'' @ [CHR 0x1B] @ ''[2J'' @
     field_line ''Process map watcher'' (ws_title s) @
     field_line ''Refreshed'' (ws_refreshed s) @ [CHR 0x0A] @
     field_line ''Alive entries'' (dec (ws_alive s)) @
     field_line ''Tombstones'' (dec (ws_tombstones s)) @
     field_line ''Observed tombstones'' (dec (ws_observed s)) @
     field_line ''Collected tombstones'' (dec (ws_collected s)) @
     field_line ''Latest entry update'' (ws_latest s) @ [CHR 0x0A] @
     ''Process tree:'' @ [CHR 0x0A] @
     concat (map (\<lambda>l. wl_text l @ [CHR 0x0A]) (ws_tree s)) @
     (if ws_found s then []
      else ''  no live process map entries match current /proc processes'' @ [CHR 0x0A])"

section \<open>The loop\<close>

definition watch_interval :: "int \<Rightarrow> int" where
  "watch_interval interval = (if interval \<le> 0 then Second else interval)"

text \<open>What the loop selects: a signal or a tick. The list is what has come so far.\<close>

datatype wake = Interrupted | Tick watcher_look

datatype watch_end = Waiting | Stopped | Failed snapshot_error

fun watch_loop ::
    "string \<Rightarrow> wake list \<Rightarrow> tombstone_tracker \<Rightarrow> (watcher_screen list \<times> watch_end) option" where
  "watch_loop title [] tombstones = Some ([], Waiting)"
| "watch_loop title (Interrupted # wakes) tombstones = Some ([], Stopped)"
| "watch_loop title (Tick look # wakes) tombstones =
     Option.bind (printWatcherSnapshot title look tombstones) (\<lambda>(res, tombstones).
       case res of
         Inl e \<Rightarrow> Some ([], Failed e)
       | Inr screen \<Rightarrow>
           Option.bind (watch_loop title wakes tombstones) (\<lambda>(screens, how). Some (screen # screens, how)))"

definition runWatcher ::
    "string \<Rightarrow> watcher_look \<Rightarrow> wake list \<Rightarrow> (watcher_screen list \<times> watch_end) option" where
  "runWatcher title first wakes = watch_loop title (Tick first # wakes) newWatcherTombstoneTracker"

section \<open>What an age reads as\<close>

lemma fmtFrac_round: "fmtFrac prec (n * 10 ^ prec) unit_text False = (unit_text, n)"
proof (induction prec)
  case (Suc prec)
  have "n * 10 ^ Suc prec = (n * 10 ^ prec) * 10" by simp
  then have "(n * 10 ^ Suc prec) mod 10 = 0" "(n * 10 ^ Suc prec) div 10 = n * 10 ^ prec"
    by (metis mod_mult_self2_is_0, metis div_mult_self_is_m zero_less_numeral)
  with Suc show ?case by (simp only: fmtFrac.simps Let_def) simp
qed simp

lemma sint_Truncate:
  assumes "0 \<le> sint d" "0 < m"
  shows "sint (Truncate d m) = sint d div m * m"
proof -
  have "sint d - sint d mod m = sint d div m * m" by (simp add: minus_mod_eq_div_mult)
  moreover have "0 \<le> sint d div m * m" using assms by (simp add: pos_imp_zdiv_nonneg_iff)
  moreover have "sint d div m * m \<le> sint d" using assms pos_mod_sign [of m "sint d"] calculation(1) by linarith
  moreover have "Truncate d m = word_of_int (sint d - sint d mod m)" using assms by (simp add: Truncate_def)
  ultimately show ?thesis
    using sint_lt [of d] signed_take_bit_int_eq_self [of 63 "sint d div m * m"]
      sint_sbintrunc' [of "sint d div m * m", where 'a = 64] by auto
qed

lemma whole_seconds: "clock_text (n * 10 ^ 9) =
    (let buf = dec (n mod 60) @ ''s''
     in if n div 60 = 0 then buf
        else let buf = dec (n div 60 mod 60) @ CHR ''m'' # buf
             in if n div 60 div 60 = 0 then buf else dec (n div 60 div 60) @ CHR ''h'' # buf)"
  by (simp only: clock_text_def fmtFrac_round Let_def prod.case)

text \<open>An age is shown in its largest unit, rounded down.\<close>

lemma formatAge_text:
  assumes "0 \<le> sint age"
  shows "formatAge age =
    (if sint age < Millisecond then ''0s''
     else if sint age < Second then dec (nat (sint age div Millisecond)) @ ''ms''
     else if sint age < Minute then dec (nat (sint age div Second)) @ ''s''
     else if sint age < Hour then dec (nat (sint age div Minute)) @ ''m0s''
     else if sint age < 24 * Hour then dec (nat (sint age div Hour)) @ ''h0m0s''
     else dec (24 * nat (sint age div (24 * Hour))) @ ''h0m0s'')"
proof -
  have zero: "dec 0 = ''0''" by code_simp
  have shown: "Duration_String (Truncate age m) =
      (let u = nat (sint age div m) * nat m in
       if u = 0 then ''0s'' else if u < nat Microsecond then with_frac 0 u ''ns''
       else if u < nat Millisecond then with_frac 3 u [CHR 0xC2, CHR 0xB5, CHR ''s'']
       else if u < nat Second then with_frac 6 u ''ms'' else clock_text u)" if "0 < m" for m
    using assms that
    by (simp add: Duration_String_def sint_Truncate nat_mult_distrib pos_imp_zdiv_nonneg_iff abs_mult abs_of_nonneg
        not_less Let_def)
  have sixty: "k * 60 mod 60 = 0" "k * 60 div 60 = k" for k :: nat by simp_all
  consider "sint age < Second" | "Second \<le> sint age" "sint age < Minute" | "Minute \<le> sint age" "sint age < Hour"
    | "Hour \<le> sint age" "sint age < 24 * Hour" | "24 * Hour \<le> sint age" by linarith
  then show ?thesis
  proof cases
    case 1
    define n where "n = nat (sint age div Millisecond)"
    have n: "n < 1000" "n = 0 \<longleftrightarrow> sint age < Millisecond" using 1 assms by (auto simp: n_def)
    have "with_frac 6 (n * 1000000) ''ms'' = dec n @ ''ms''"
      using fmtFrac_round [of 6 n "''ms''"] by (simp add: with_frac_def)
    then show ?thesis using 1 n by (simp add: formatAge_def shown n_def [symmetric] Let_def)
  next
    case 2
    define n where "n = nat (sint age div Second)"
    have n: "n < 60" "n \<noteq> 0" using 2 by (auto simp: n_def)
    then show ?thesis using 2 whole_seconds [of n] by (simp add: formatAge_def shown n_def [symmetric] Let_def)
  next
    case 3
    define n where "n = nat (sint age div Minute)"
    have n: "n < 60" "n \<noteq> 0" using 3 by (auto simp: n_def)
    then show ?thesis using 3 whole_seconds [of "n * 60"]
      by (simp add: formatAge_def shown n_def [symmetric] zero Let_def mult.commute [of n])
  next
    case 4
    define n where "n = nat (sint age div Hour)"
    have n: "n \<noteq> 0" using 4 by (auto simp: n_def)
    have "n * 3600 mod 60 = 0" "n * 3600 div 60 = n * 60" using sixty [of "n * 60"] by simp_all
    then show ?thesis using 4 n whole_seconds [of "n * 3600"]
      by (simp add: formatAge_def shown n_def [symmetric] zero Let_def mult.commute [of n])
  next
    case 5
    define n where "n = nat (sint age div 86400000000000)"
    have n: "n \<noteq> 0" using 5 by (auto simp: n_def)
    have "n * 86400 mod 60 = 0" "n * 86400 div 60 = n * 1440" "n * 1440 mod 60 = 0" "n * 1440 div 60 = n * 24"
      using sixty [of "n * 1440"] sixty [of "n * 24"] by simp_all
    then show ?thesis using 5 n whole_seconds [of "n * 86400"]
      by (simp add: formatAge_def shown n_def [symmetric] zero Let_def mult.commute [of n])
  qed
qed

section \<open>What a look shows\<close>

text \<open>
  The directories of \<^verbatim>\<open>/proc\<close> name each process once, and the kernel's map holds a key once.
\<close>

definition plain_world :: "world \<Rightarrow> bool" where
  "plain_world w \<longleftrightarrow> wfmap (k_processes w) \<and>
     (\<forall>n. case fs_dir (os_fs w n) of None \<Rightarrow> True | Some entries \<Rightarrow> distinct (dir_pids entries))"

text \<open>The processes of a listing the kernel's map marks.\<close>

definition kernel_marked :: "world \<Rightarrow> process_info list \<Rightarrow> process_key set" where
  "kernel_marked w procs =
     pi_Key ` {p \<in> set procs. \<exists>v. mget (k_processes w) (pi_Key p) = Some v \<and> \<not> Tombstone v \<and> HasMark v}"

lemma grabbed:
  assumes "plain_world w" "fst (GrabProcessMapState w) = Inr snapshot"
  shows "wfmap (Entries snapshot)" "mget (Entries snapshot) = mget (k_processes w)" "listing (Procs snapshot)"
proof -
  show "wfmap (Entries snapshot)" "mget (Entries snapshot) = mget (k_processes w)"
    using GrabProcessMapState_counts [OF _ assms(2)] assms(1) by (simp_all add: plain_world_def counts_def)
  let ?w = "snd (processes_Iterate (snd (syscall w)))"
  have fs: "os_fs ?w = os_fs w" by (simp add: processes_Iterate_def syscall_def)
  have "fst (listProcesses ?w) = Inr (Procs snapshot)"
    using assms(2) by (auto simp: GrabProcessMapState_def readProcessMapState_def split_beta Let_def prod_eq_iff
        split: if_splits sum.splits)
  from listProcesses_distinct [OF _ this] show "listing (Procs snapshot)"
    using assms(1) by (simp add: listing_def plain_world_def fs comp_def)
qed

lemma kernel_marked_snapshot:
  "plain_world w \<Longrightarrow> fst (GrabProcessMapState w) = Inr snapshot \<Longrightarrow>
   pi_Key ` marked_procs snapshot = kernel_marked w (Procs snapshot)"
  by (simp add: marked_procs_def kernel_marked_def grabbed(2))

text \<open>A look comes to an end, with an error or with a screen for the snapshot it took.\<close>

lemma look_result:
  assumes "plain_world (wk_world look)"
  shows "\<exists>res t'. printWatcherSnapshot title look t = Some (res, t') \<and>
    (case fst (GrabProcessMapState (wk_world look)) of
       Inl e \<Rightarrow> res = Inl e \<and> t' = t
     | Inr snapshot \<Rightarrow> t' = watcher_update snapshot t \<and>
         (\<exists>screen. res = Inr screen \<and> printWatcherTree snapshot = Some (ws_tree screen, ws_found screen) \<and>
            ws_alive screen = Alive snapshot \<and> ws_tombstones screen = Tombstones snapshot \<and>
            ws_observed screen = observed_tombstones t' \<and> ws_collected screen = wt_collected t'))"
proof -
  obtain res w where run: "GrabProcessMapState (wk_world look) = (res, w)" by (cases "GrabProcessMapState (wk_world look)")
  show ?thesis
  proof (cases res)
    case (Inl e)
    then show ?thesis by (simp add: printWatcherSnapshot_def run)
  next
    case (Inr snapshot)
    have "listing (Procs snapshot)" using grabbed(3) [OF assms] run Inr by simp
    from printWatcherTree_returns [OF this] obtain printed found
      where "printWatcherTree snapshot = Some (printed, found)" by blast
    then show ?thesis by (simp add: printWatcherSnapshot_def run Inr Let_def)
  qed
qed

text \<open>If all processes hang under the roots, the tree shows the marked ones and each once.\<close>

lemma look_tree:
  assumes w: "plain_world (wk_world look)" and look: "printWatcherSnapshot title look t = Some (Inr screen, t')"
  shows "\<exists>snapshot. fst (GrabProcessMapState (wk_world look)) = Inr snapshot \<and>
    ((\<forall>p \<in> set (Procs snapshot). rooted (Procs snapshot) p \<and> pid_of p \<noteq> 0) \<longrightarrow>
      distinct (map wl_key (ws_tree screen)) \<and>
      wl_key ` set (ws_tree screen) = kernel_marked (wk_world look) (Procs snapshot) \<and>
      (ws_found screen \<longleftrightarrow> ws_tree screen \<noteq> []))"
proof -
  note result = look_result [OF w, of title t]
  show ?thesis
  proof (cases "fst (GrabProcessMapState (wk_world look))")
    case (Inl e)
    then show ?thesis using result look by simp
  next
    case (Inr snapshot)
    then have tree: "printWatcherTree snapshot = Some (ws_tree screen, ws_found screen)" using result look by simp
    note facts = grabbed [OF w Inr]
    show ?thesis
    proof (intro exI conjI impI)
      assume "\<forall>p \<in> set (Procs snapshot). rooted (Procs snapshot) p \<and> pid_of p \<noteq> 0"
      note marked = printWatcherTree_marked [OF facts(3,1) this tree]
      show "distinct (map wl_key (ws_tree screen))" by (rule marked(1))
      show keys: "wl_key ` set (ws_tree screen) = kernel_marked (wk_world look) (Procs snapshot)"
        using marked(2) kernel_marked_snapshot [OF w Inr] by simp
      have "ws_tree screen = [] \<longleftrightarrow> marked_procs snapshot = {}"
        using marked(2) by (metis image_is_empty set_empty)
      then show "ws_found screen \<longleftrightarrow> ws_tree screen \<noteq> []" using marked(3) by simp
    qed (rule Inr)
  qed
qed

section \<open>What the screens show over time\<close>

fun looks :: "wake list \<Rightarrow> watcher_look list" where
  "looks [] = []"
| "looks (Interrupted # wakes) = []"
| "looks (Tick look # wakes) = look # looks wakes"

fun snapshots :: "watcher_look list \<Rightarrow> process_map_state list" where
  "snapshots [] = []"
| "snapshots (look # ls) =
     (case fst (GrabProcessMapState (wk_world look)) of Inl e \<Rightarrow> [] | Inr snapshot \<Rightarrow> snapshot # snapshots ls)"

lemma watch_loop_counts:
  assumes "\<forall>look \<in> set (looks wakes). plain_world (wk_world look)"
  shows "\<exists>screens how. watch_loop title wakes t = Some (screens, how) \<and>
    length screens = length (snapshots (looks wakes)) \<and>
    (\<forall>i < length screens.
       let t = fold watcher_update (take (Suc i) (snapshots (looks wakes))) t
       in ws_observed (screens ! i) = observed_tombstones t \<and> ws_collected (screens ! i) = wt_collected t)"
  using assms
proof (induction title wakes t rule: watch_loop.induct)
  case (3 title look wakes t)
  have w: "plain_world (wk_world look)" using "3.prems" by simp
  note result = look_result [OF w, of title t]
  show ?case
  proof (cases "fst (GrabProcessMapState (wk_world look))")
    case (Inl e)
    then show ?thesis using result by auto
  next
    case (Inr snapshot)
    let ?t = "watcher_update snapshot t"
    obtain screen where screen: "printWatcherSnapshot title look t = Some (Inr screen, ?t)"
      "ws_observed screen = observed_tombstones ?t" "ws_collected screen = wt_collected ?t"
      using result Inr by auto
    have "\<forall>look \<in> set (looks wakes). plain_world (wk_world look)" using "3.prems" by simp
    from "3.IH" [OF screen(1) refl refl this] obtain screens how where
      run: "watch_loop title wakes ?t = Some (screens, how)" "length screens = length (snapshots (looks wakes))"
      and counts: "\<forall>i < length screens.
        let t = fold watcher_update (take (Suc i) (snapshots (looks wakes))) ?t
        in ws_observed (screens ! i) = observed_tombstones t \<and> ws_collected (screens ! i) = wt_collected t" by blast
    have "let t = fold watcher_update (take (Suc i) (snapshot # snapshots (looks wakes))) t
        in ws_observed ((screen # screens) ! i) = observed_tombstones t \<and>
           ws_collected ((screen # screens) ! i) = wt_collected t"
      if "i < Suc (length screens)" for i
      using that screen counts by (cases i) (simp_all add: Let_def)
    then show ?thesis using screen(1) run Inr by simp
  qed
qed simp_all

lemma snapshots_wf:
  "\<forall>look \<in> set ls. plain_world (wk_world look) \<Longrightarrow> s \<in> set (snapshots ls) \<Longrightarrow> wfmap (Entries s)"
  by (induction ls) (auto intro: grabbed(1) [OF _ sym] split: sum.splits)

text \<open>The counters of a screen speak of the snapshots taken up to it.\<close>

lemma runWatcher_counts:
  assumes "\<forall>look \<in> set (first # looks wakes). plain_world (wk_world look)"
  shows "\<exists>screens how. runWatcher title first wakes = Some (screens, how) \<and>
    length screens = length (snapshots (first # looks wakes)) \<and>
    (\<forall>i < length screens.
       let taken = take (Suc i) (snapshots (first # looks wakes))
       in ws_observed (screens ! i) = card {k. watched_tombstone taken k} \<and>
          ws_collected (screens ! i) = card {k. watched_collected taken k})"
proof -
  have all: "\<forall>look \<in> set (looks (Tick first # wakes)). plain_world (wk_world look)" using assms by simp
  have "\<forall>s \<in> set (take (Suc i) (snapshots (first # looks wakes))). wfmap (Entries s)" for i
    using snapshots_wf [OF assms] in_set_takeD by metis
  note counts = watcher_counts [OF this]
  show ?thesis using watch_loop_counts [OF all, of title newWatcherTombstoneTracker]
    unfolding runWatcher_def by (simp only: looks.simps Let_def counts)
qed

lemma watch_interval_positive: "0 < watch_interval interval"
  by (simp add: watch_interval_def)

end
