(* ===== verification/Spec2Isabelle.thy ===== *)
theory Spec2Isabelle
  imports SystemExamples RuleCapacity Serving SocketReplay WatcherScreen
begin

text \<open>
  Verification library of p-mark, a daemon that marks Linux processes: it keeps, for each process
  lifetime (pid and start time), a priority and a mark, in a mirror of its own and in a pinned BPF
  map that three tracepoint programs (\<^verbatim>\<open>mark.c\<close>) write as well. The programs report forks, exits and
  execs through a ring buffer; the daemon (\<^verbatim>\<open>mark.go\<close>, \<^verbatim>\<open>policy.go\<close>) reconciles each report with its
  mirror, asks a checker for the mark, and writes the result back. A policy of exact process names
  can be installed as a BPF table, so that an exec is decided in the kernel. Beside it stand a
  tracker of rules (\<^verbatim>\<open>multirule\<close>), a package that puts marks on sockets (\<^verbatim>\<open>fwmark\<close>), and the command
  (\<^verbatim>\<open>cmd\<close>) with a checker made of regular expressions, an HTTP control server and a watcher.

  \<^bold>\<open>Conventions.\<close> Definitions have the names of the Go and C functions, handlers are split at
  their branches. Machine integers are words of their width. A Go map is an association list, whose
  order is the iteration order, so what holds for every list holds for every order. Errors are
  values (sums, options). A mutex is not modelled: every operation runs under it from start to
  end, so an operation is a step; where the code releases it in between (handlers of the control
  server, the BPF programs beside the daemon), each part is a step of its own. Two places are coarser:
  the two locks under which \<^verbatim>\<open>Register\<close> of the control server enters a rule are taken as one, and so
  are those under which the state document is put together; and a BPF program runs to its end
  before the daemon or another program goes on (\<open>removal_during_Register\<close> and \<open>fork_race\<close> are about
  what lies in between). The clock, \<^verbatim>\<open>/proc\<close> and
  the failures of system calls are functions of the number of calls so far (\<^verbatim>\<open>World\<close>): any
  behaviour of the environment is an instance. A callback is a function on the state \<open>'c\<close> that its
  closure may change.

  \<^bold>\<open>The theories\<close>, each with what it models and what its lemmas show:
  \<^item> \<^verbatim>\<open>Prelude\<close>, \<^verbatim>\<open>GoText\<close>, \<^verbatim>\<open>GoNet\<close>: maps, lemma collections, and the functions of Go's standard
    library that the program calls (strings, numbers, form parsing, addresses).
  \<^item> \<^verbatim>\<open>ProcessValue\<close>: identities, values and the merge order of \<^verbatim>\<open>mark.go\<close> and of \<^verbatim>\<open>mark.c\<close>, both
    instances of the locale \<open>ranked_merge\<close>: the order of arrival does not matter.
  \<^item> \<^verbatim>\<open>World\<close>, \<^verbatim>\<open>Procfs\<close>: BPF maps (locale \<open>bpf_table\<close>), the files of \<^verbatim>\<open>/proc\<close> and their parsers.
  \<^item> \<^verbatim>\<open>KernelPolicy\<close>, \<^verbatim>\<open>Regexps\<close>, \<^verbatim>\<open>Matcher\<close>: policies and their normal form, the table keys, regular
    expressions and the ones that are promoted to exact names, the checker of the command line;
    the kernel's decision is the checker's.
  \<^item> \<^verbatim>\<open>Marker\<close>, \<^verbatim>\<open>Traversal\<close>, \<^verbatim>\<open>TraversalSpec\<close>, \<^verbatim>\<open>Events\<close>, \<^verbatim>\<open>Cleanup\<close>, \<^verbatim>\<open>PolicySwitch\<close>: the struct
    \<^verbatim>\<open>marker\<close> and its operations. The mirror merges as locale \<open>merge_store\<close> says; a traversal computes
    the effective marks of the process tree (\<open>effective\<close>, by rules, is the specification); an event
    touches its own entry; a collection takes expired tombstones only; a policy is installed
    completely or not at all.
  \<^item> \<^verbatim>\<open>Daemon\<close>, \<^verbatim>\<open>Closures\<close>: the daemon as a transition system over all these operations, its
    invariant, and the locale \<open>closure_client\<close> for what the callbacks of a client keep.
  \<^item> \<^verbatim>\<open>Bpf\<close>, \<^verbatim>\<open>BpfSpec\<close>, \<^verbatim>\<open>JointWrites\<close>, \<^verbatim>\<open>DaemonParts\<close>, \<^verbatim>\<open>Interleaving\<close>: the tracepoint programs, each on its
    own (locale \<open>bpf_program\<close>), the daemon's operations in parts, and the system \<open>sys_step\<close> of programs,
    ring and these parts in any interleaving. Its set \<open>over\<close> is of the processes that are over with their
    exit; for others a traversal may list a zombie, and a mark or an exec may follow the exit.
  \<^item> \<^verbatim>\<open>RingRecord\<close>, \<^verbatim>\<open>Loaders\<close>, \<^verbatim>\<open>RuleCapacity\<close>: the bytes of a record in the ring and how the daemon
    reads them (locale \<open>byte_codec\<close>, for writers and readers), the generated loaders and the maps the
    BPF files declare, and the room the rule table needs.
  \<^item> \<^verbatim>\<open>Lifecycle\<close>, \<^verbatim>\<open>FwmarkManager\<close>, \<^verbatim>\<open>MainLife\<close>: what the daemon, the socket package and the command
    around them open and close, as traces of calls with arbitrary answers; \<open>main_end\<close> is the end of the
    command after any sequence of \<open>activity\<close> of its event loop and its control server.
  \<^item> \<^verbatim>\<open>SocketReplay\<close>: daemon and sockets together: what the replay of the mirror to the socket hook, when it
    is installed and when the daemon stops, makes of the marks of sockets.
  \<^item> \<^verbatim>\<open>Multirule\<close>, \<^verbatim>\<open>Fwmark\<close>: the rule tracker with the rules inherited in the process tree; socket marks
    and the reconciliation of the sockets of a process.
  \<^item> \<^verbatim>\<open>Json\<close>, \<^verbatim>\<open>Snapshot\<close>, \<^verbatim>\<open>Control\<close>, \<^verbatim>\<open>Server\<close>, \<^verbatim>\<open>CommandLine\<close>, \<^verbatim>\<open>Serving\<close>: the documents, snapshots of
    the pinned map, requests and handlers of the control server, the start of the command and the
    commands it prints, and the server as a whole (locale \<open>service\<close>): start, routes, shutdown.
  \<^item> \<^verbatim>\<open>Watcher\<close>, \<^verbatim>\<open>WatcherSpec\<close>, \<^verbatim>\<open>WatcherScreen\<close>: the process tree the watcher prints, its counters and
    its loop.
  \<^item> \<^verbatim>\<open>Examples\<close>, \<^verbatim>\<open>UserExamples\<close>, \<^verbatim>\<open>ServerExamples\<close>, \<^verbatim>\<open>SystemExamples\<close>: a machine with two processes on
    which the properties below are applied.

  \<^bold>\<open>The properties\<close> of this theory go from the policy transaction over the merge, events, the BPF
  programs and their records, the life of the daemon and the watcher to the collector, \<^verbatim>\<open>/proc\<close>, rules,
  sockets, the checker of the command line and the control server. Each is followed by its application at a
  concrete input, where it has hypotheses.

  \<^bold>\<open>Termination.\<close> Traversals and the propagation of rules recurse over finite sets of processes not
  yet visited. The search for a free rule id, the children of the watcher's tree and its nodes are
  partial functions into options; that they return is proved (\<open>register_returns\<close> while less than
  \<open>2 ^ 64 - 1\<close> ids are taken, \<open>watcher_prints\<close> for every listing). The event loop and the watcher's
  loop consume a list of what their sources deliver. No definition has fuel.

  \<^bold>\<open>Not modelled.\<close> The verifier and the memory model of the kernel: a helper call is atomic. The
  eBPF library: what it makes of an embedded object, of a pinned map and of an attachment is given,
  and so are its ring reader and the marshalling of map entries. The big-endian loaders
  (\<^verbatim>\<open>mark_bpfeb.go\<close>, \<^verbatim>\<open>fwmark_bpfeb.go\<close>) are copies of the little-endian ones and not modelled twice.
  \<^verbatim>\<open>encoding/json\<close>, the parser of \<^verbatim>\<open>regexp/syntax\<close>, \<^verbatim>\<open>net/http\<close> below its routes (connections, cleaning of
  paths, the embedded page), \<^verbatim>\<open>flag\<close>, time formatting in RFC 3339 and the floating-point reading of
  \<^verbatim>\<open>/proc/uptime\<close>: what they return is given.
\<close>

section \<open>The policy transaction\<close>

text \<open>
  C1: In a daemon that started on empty maps, did anything it can do (the events it takes carry no
  later generation than its own), and whose map calls never fail, let \<^verbatim>\<open>SetKernelPolicy\<close> succeed while no BPF program writes the process map and \<^verbatim>\<open>/proc\<close> does
  not change. If every listed process has a pid other than zero and a chain of parents that ends,
  none of them is a tombstone in the mirror, and the checker decides by what it is told of the
  process alone, then the kernel process map marks, of the listed processes, exactly those the new
  checker decides to mark or that inherit from their nearest matched ancestor, with that priority
  and mark and with the new generation. (A failing write of the traversal is only logged by the code.)
\<close>

theorem policy_switch_marks:
  assumes start: "fresh_world w"
    and run: "daemon_steps tcev (snd (NewDaemon cbs tce ttl w c)) m"
    and switch: "setKernelPolicy policy (Some chk) m = ((g, None), m')"
    and decides: "\<And>info c. fst (chk info c) = d info"
    and proc: "static_fs fs (wld m)" "listed fs = Some procs" "listing procs"
    and tree: "\<And>p. p \<in> set procs \<Longrightarrow> rooted procs p \<and> pid_of p \<noteq> 0"
    and live: "\<And>p v. p \<in> set procs \<Longrightarrow> mget (mirror m) (pi_Key p) = Some v \<Longrightarrow> \<not> Tombstone v"
    and p: "p \<in> set procs"
  shows "value_marks g (mget (k_processes (wld m')) (pi_Key p)) x \<longleftrightarrow> effective d procs p x"
proof -
  have inv: "daemon_inv m" by (rule daemon_steps_inv [OF run NewDaemon_inv [OF start]])
  have "daemon_inv m'" using daemon_inv_policy [OF inv, of policy "Some chk"] switch by simp
  then have "mget (k_processes (wld m')) = mget (mirror m')"
    by (simp add: daemon_inv_def maps_ok_def synced_def)
  then show ?thesis
    using switch_effective [OF inv switch decides proc _ _ live p, where x = x] tree by simp
qed

lemma demo_first_policy:
  "\<exists>m'. setKernelPolicy demo_policy (Some (\<lambda>info c. (demo_check info, c))) demo_daemon = ((2, None), m') \<and>
    mget (k_comm_rules (wld m')) = mget (rule_entries 2 (kp_CommRules demo_policy))"
proof -
  have inv: "daemon_inv demo_daemon" unfolding demo_daemon_def by (rule NewDaemon_inv [OF demo_fresh])
  have "fst (listProcesses (wld demo_daemon)) = Inr [init_info, shell_info]"
    using listProcesses_value [OF demo_static] by (simp add: demo_daemon_eq demo_listed)
  from switch_succeeds [OF inv normalize_normal(1) [OF demo_policy_normal] this]
  show ?thesis by (simp add: setKernelPolicy_def demo_policy_normal demo_daemon_eq)
qed

lemma demo_rooted: "p \<in> set [init_info, shell_info] \<Longrightarrow> rooted [init_info, shell_info] p"
proof -
  have init: "rooted [init_info, shell_info] init_info" by (rule rooted_root) simp
  moreover have "rooted [init_info, shell_info] shell_info"
    by (rule rooted_child [OF _ _ init]) simp_all
  ultimately show "p \<in> set [init_info, shell_info] \<Longrightarrow> rooted [init_info, shell_info] p" by auto
qed

theorem policy_switch_marks_witness:
  "\<exists>m'. setKernelPolicy demo_policy (Some (\<lambda>info c. (demo_check info, c))) demo_daemon = ((2, None), m') \<and>
     value_marks 2 (mget (k_processes (wld m')) shell_key) (5, 7) \<and>
     \<not> value_marks 2 (mget (k_processes (wld m')) init_key) (5, 7)"
proof -
  obtain m' where run: "setKernelPolicy demo_policy (Some (\<lambda>info c. (demo_check info, c))) demo_daemon =
      ((2, None), m')" using demo_first_policy by blast
  have marks: "value_marks 2 (mget (k_processes (wld m')) (pi_Key p)) x \<longleftrightarrow>
      effective demo_check [init_info, shell_info] p x" if "p \<in> set [init_info, shell_info]" for p x
  proof (rule policy_switch_marks [OF demo_fresh _ run, where fs = demo_fs])
    show "daemon_steps 1024 (snd (NewDaemon demo_callbacks 0 0 demo_world [])) demo_daemon"
      unfolding demo_daemon_def by (rule steps_refl)
    show "p \<in> set [init_info, shell_info]" by (rule that)
    show "listing [init_info, shell_info]" by (simp add: listing_def)
    show "rooted [init_info, shell_info] q \<and> pid_of q \<noteq> 0" if "q \<in> set [init_info, shell_info]" for q
      using demo_rooted [OF that] that by auto
  qed (simp_all add: demo_daemon_eq demo_static demo_listed)
  have "effective demo_check [init_info, shell_info] shell_info (5, 7)"
    by (rule eff_match) (simp add: demo_check_def)
  moreover have "\<not> effective demo_check [init_info, shell_info] init_info (5, 7)"
    by (subst effective_unmatched [of _ _ 0 0]) (simp_all add: demo_check_def)
  ultimately show ?thesis using run marks [of shell_info] marks [of init_info] by auto
qed

text \<open>
  C2: Whatever map operations fail, a policy switch is atomic for the exec program: the rules
  and the mode it sees stay those of the old policy until the one write of the active-policy
  slot, from which on they are all the rules of the new one; writes before it spare the active
  generation and writes after it the new generation. A switch that fails leaves what the
  program sees, the generation, the policy, the checker and the mirror as they were.
\<close>

theorem policy_switch_atomic:
  assumes "fresh_tables w" "daemon_steps tcev (snd (NewDaemon cbs tce ttl w c)) m"
    and "setKernelPolicy policy chk m = ((g, err), m')"
  shows "case err of
      Some e \<Rightarrow> exec_view (wld m') = exec_view (wld m) \<and> g = generation m \<and>
        generation m' = generation m \<and> kernelPolicy m' = kernelPolicy m \<and>
        check m' = check m \<and> mirror m' = mirror m
    | None \<Rightarrow> \<exists>policy' w w'. validateAndNormalizeKernelPolicy policy = Inr policy' \<and>
        rule_writes (\<lambda>k. rk_Generation k \<noteq> generation m) (wld m) w \<and>
        exec_view w = exec_view (wld m) \<and>
        active_policy_Put \<lparr>ps_Generation = g, ps_Mode = kp_Mode policy'\<rparr> w = (None, w') \<and>
        exec_view w' = (\<lparr>ps_Generation = g, ps_Mode = kp_Mode policy'\<rparr>,
          mget (rule_entries g (kp_CommRules policy'))) \<and>
        rule_writes (\<lambda>k. rk_Generation k \<noteq> g) w' (wld m') \<and>
        exec_view (wld m') = exec_view w'"
  by (rule setKernelPolicy_outcome [OF daemon_steps_rules [OF assms(2) NewDaemon_rules_inv [OF assms(1)]] assms(3)])

theorem policy_switch_atomic_witness:
  "\<exists>m'. setKernelPolicy demo_policy (Some (\<lambda>info c. (demo_check info, c))) demo_daemon = ((2, None), m') \<and>
     exec_view (wld m') = (\<lparr>ps_Generation = 2, ps_Mode = 1\<rparr>, mget (rule_entries 2 (kp_CommRules demo_policy)))"
proof -
  obtain m' where run: "setKernelPolicy demo_policy (Some (\<lambda>info c. (demo_check info, c))) demo_daemon =
      ((2, None), m')" using demo_first_policy by blast
  have steps: "daemon_steps 1024 (snd (NewDaemon demo_callbacks 0 0 demo_world [])) demo_daemon"
    unfolding demo_daemon_def by (rule steps_refl)
  have "fresh_tables demo_world" using demo_fresh by (simp add: fresh_world_def)
  from policy_switch_atomic [OF this steps run] obtain policy' where
    "validateAndNormalizeKernelPolicy demo_policy = Inr policy'"
    "exec_view (wld m') = (\<lparr>ps_Generation = 2, ps_Mode = kp_Mode policy'\<rparr>,
       mget (rule_entries 2 (kp_CommRules policy')))" by auto
  then show ?thesis using run demo_policy_normal by (auto simp: demo_policy_def)
qed

text \<open>
  C3: The daemon by itself, with no map call of it failing, no event of a later generation than its
  own and no BPF program writing the process map beside it (C15 is about the two together), keeps in every state it reaches from empty maps
  the kernel process map equal to the mirror, no entry of a later generation than its own, and
  every rule of the rule table in a generation given out before and on the list of rules to delete
  once their generation is not active.
\<close>

theorem reachable_replica:
  assumes "fresh_world w" "daemon_steps tcev (snd (NewDaemon cbs tce ttl w c)) m"
  shows "mget (k_processes (wld m)) = mget (mirror m) \<and> wfmap (mirror m) \<and>
    (\<forall>k v. mget (mirror m) k = Some v \<longrightarrow> Generation v \<le> generation m) \<and>
    generation m \<le> policyGeneration m \<and>
    (\<forall>k v. mget (k_comm_rules (wld m)) k = Some v \<longrightarrow> rk_Generation k \<le> policyGeneration m \<and>
       (\<exists>ks. mget (installedCommRules m) (rk_Generation k) = Some ks \<and> k \<in> set ks))"
proof -
  have "daemon_inv m" by (rule daemon_steps_inv [OF assms(2) NewDaemon_inv [OF assms(1)]])
  then show ?thesis
    by (auto simp: daemon_inv_def maps_ok_def synced_def gens_le_def rules_inv_def rules_base_def
        tracked_def)
qed

lemma demo_steps: "daemon_steps 1024 (snd (NewDaemon demo_callbacks 0 0 demo_world [])) demo_daemon"
  unfolding demo_daemon_def by (rule steps_refl)

theorem reachable_replica_witness:
  "mget (k_processes (wld (setProcessMark shell_key 5 7 demo_daemon))) =
     mget (mirror (setProcessMark shell_key 5 7 demo_daemon)) \<and>
   mget (mirror (setProcessMark shell_key 5 7 demo_daemon)) shell_key \<noteq> None"
proof -
  have "daemon_steps 1024 (snd (NewDaemon demo_callbacks 0 0 demo_world []))
      (setProcessMark shell_key 5 7 demo_daemon)"
    by (rule steps_step [OF demo_steps step_mark])
  from reachable_replica [OF demo_fresh this] show ?thesis
    by (simp add: setProcessMark_def split_beta Let_def mir.find_upsert)
qed

text \<open>
  C4: A valid policy is installed unless \<^verbatim>\<open>/proc\<close> cannot be read, a map operation fails or all
  generations are used up: the switch returns the next generation, and afterwards the rule
  table holds the rules of the normalised policy and nothing else.
\<close>

theorem policy_switch_succeeds:
  assumes "fresh_world w" "daemon_steps tcev (snd (NewDaemon cbs tce ttl w c)) m"
    and "validateAndNormalizeKernelPolicy policy = Inr policy'"
    and "fst (listProcesses (wld m)) = Inr procs" "policyGeneration m \<noteq> - 1"
  shows "\<exists>m'. setKernelPolicy policy chk m = ((policyGeneration m + 1, None), m') \<and>
    mget (k_comm_rules (wld m')) = mget (rule_entries (policyGeneration m + 1) (kp_CommRules policy'))"
  using switch_succeeds [OF daemon_steps_inv [OF assms(2) NewDaemon_inv [OF assms(1)]]
      normalize_normal(1) [OF assms(3)] assms(4,5)]
  by (simp add: setKernelPolicy_def assms(3))

lemma demo_listing: "fst (listProcesses (wld demo_daemon)) = Inr [init_info, shell_info]"
  using listProcesses_value [OF demo_static] by (simp add: demo_daemon_eq demo_listed)

theorem policy_switch_succeeds_witness:
  "\<exists>m'. setKernelPolicy demo_policy None demo_daemon = ((2, None), m') \<and>
     mget (k_comm_rules (wld m')) = mget (rule_entries 2 (kp_CommRules demo_policy))"
  using policy_switch_succeeds [OF demo_fresh demo_steps demo_policy_normal demo_listing, of None]
  by (simp add: demo_daemon_eq)

text \<open>
  C5: Whatever fails, generations are never reused: a switch to a valid policy takes the next
  generation for good once \<^verbatim>\<open>/proc\<close> has been listed, whether it then succeeds or fails, and a switch
  that does not come that far, or finds all generations used up, takes none; a successful one gets
  the generation it took, which is above that of every rule left in the rule table.
\<close>

theorem policy_generation_fresh:
  assumes "fresh_tables w" "daemon_steps tcev (snd (NewDaemon cbs tce ttl w c)) m"
    and "setKernelPolicy policy chk m = ((g, err), m')"
  shows "policyGeneration m' =
      (if (\<exists>p. validateAndNormalizeKernelPolicy policy = Inr p) \<and> (\<exists>procs. fst (listProcesses (wld m)) = Inr procs) \<and>
          policyGeneration m \<noteq> - 1
       then policyGeneration m + 1 else policyGeneration m) \<and>
    (err = None \<longrightarrow> policyGeneration m < g \<and> policyGeneration m' = g \<and>
       (\<forall>k v. mget (k_comm_rules (wld m)) k = Some v \<longrightarrow> rk_Generation k < g))"
proof -
  have inv: "rules_inv m" by (rule daemon_steps_rules [OF assms(2) NewDaemon_rules_inv [OF assms(1)]])
  then have gen: "generation m \<le> policyGeneration m" by (simp add: rules_inv_def rules_base_def)
  show ?thesis
  proof (cases "validateAndNormalizeKernelPolicy policy")
    case (Inl e)
    then show ?thesis using assms(3) by (auto simp: setKernelPolicy_def)
  next
    case (Inr p)
    obtain f where run: "setKernelPolicyLocked p f m = ((g, err), m')"
      using assms(3) Inr by (auto simp: setKernelPolicy_def)
    note out = setKernelPolicyLocked_spec(2) [OF inv normalize_normal(1) [OF Inr] run]
    have "rk_Generation k \<le> policyGeneration m" if "mget (k_comm_rules (wld m)) k = Some v" for k v
      using inv that by (auto simp: rules_inv_def rules_base_def)
    with out have "err = None \<longrightarrow> policyGeneration m < g \<and> policyGeneration m' = g \<and>
        (\<forall>k v. mget (k_comm_rules (wld m)) k = Some v \<longrightarrow> rk_Generation k < g)"
      by (cases err) (auto simp: switch_done_def intro: order.strict_trans1)
    then show ?thesis using switch_reserves [OF gen, of p f] run Inr by simp
  qed
qed

theorem policy_generation_fresh_witness:
  "\<exists>m'. setKernelPolicy demo_policy None demo_daemon = ((2, None), m') \<and> policyGeneration m' = 2"
proof -
  have fresh: "fresh_tables demo_world" using demo_fresh by (simp add: fresh_world_def)
  obtain m' where "setKernelPolicy demo_policy None demo_daemon = ((2, None), m')"
    using switch_succeeds [OF _ normalize_normal(1) [OF demo_policy_normal] demo_listing]
      NewDaemon_inv [OF demo_fresh, of demo_callbacks 0 0 "[]"]
    by (auto simp: setKernelPolicy_def demo_policy_normal demo_daemon_eq demo_daemon_def [symmetric])
  moreover from policy_generation_fresh [OF fresh demo_steps this] have "policyGeneration m' = 2" by blast
  ultimately show ?thesis by blast
qed

text \<open>
  C6: In a daemon none of whose map calls fails, deletions in particular, the rule table of \<^verbatim>\<open>mark.c\<close>
  has room for every switch: at the moment a policy's first rules have been written, whichever they
  are, the table holds no more rules than it is declared for, and after a switch that succeeds no
  more than one policy has. (Rules whose deletion failed would stay and take up room.)
\<close>

theorem rules_fit:
  assumes "fresh_world w" "daemon_steps tcev (snd (NewDaemon cbs tce ttl w c)) m"
    and "validateAndNormalizeKernelPolicy policy = Inr policy'" "kp_CommRules policy' = written @ pending"
  shows "rule_count (snd (populate_rules g written [] (before_populate g m))) \<le> ms_max_entries comm_rules_map \<and>
    (\<forall>g' m'. setKernelPolicy policy (Some chk) m = ((g', None), m') \<longrightarrow> rule_count m' \<le> length (kp_CommRules policy'))"
proof (intro conjI allI impI)
  have inv: "daemon_inv m" by (rule daemon_steps_inv [OF assms(2) NewDaemon_inv [OF assms(1)]])
  note np = normalize_normal(1) [OF assms(3)]
  then have "length written \<le> MAX_KERNEL_COMM_RULES"
    using assms(4) by (simp add: normal_policy_def MAX_KERNEL_COMM_RULES_def)
  then show "rule_count (snd (populate_rules g written [] (before_populate g m))) \<le> ms_max_entries comm_rules_map"
    by (rule switch_room [OF inv])
  show "rule_count m' \<le> length (kp_CommRules policy')" if "setKernelPolicy policy (Some chk) m = ((g', None), m')" for g' m'
    using switch_count [OF inv np, of chk g' m'] that by (simp add: setKernelPolicy_def assms(3))
qed

theorem rules_fit_witness:
  "rule_count (snd (populate_rules 2 (kp_CommRules demo_policy) [] (before_populate 2 demo_daemon))) \<le> 2048"
  using rules_fit [OF demo_fresh demo_steps demo_policy_normal, of "kp_CommRules demo_policy" "[]" 2]
  by (simp add: comm_rules_map_def MAX_KERNEL_COMM_RULES_def)

section \<open>Merging\<close>

text \<open>
  C7: The value a process ends up with does not depend on the order in which its values arrive,
  as long as no two of them tie in tombstone, generation, priority, explicitness and time.
\<close>

theorem merge_order_independent:
  assumes "insert v (set vs) = insert u (set us)" "inj_on value_rank (insert v (set vs))"
  shows "foldl preferProcessValue v vs = foldl preferProcessValue u us"
  using assms by (rule go.foldl_merge_perm)

theorem merge_order_independent_witness:
  "foldl preferProcessValue zero_value [shell_value, shell_tomb] =
     foldl preferProcessValue shell_tomb [zero_value, shell_value]"
proof (rule merge_order_independent)
  show "inj_on value_rank (insert zero_value (set [shell_value, shell_tomb]))"
    by (simp add: value_rank_def zero_value_def shell_value_def shell_tomb_def)
qed auto

text \<open>
  C8: The BPF program and the daemon merge alike: for every two values, what
  \<^verbatim>\<open>next_process_value_wins\<close> makes the exec program store is what \<^verbatim>\<open>preferProcessValue\<close> returns,
  and it is one of the two, of a rank no lower than either.
\<close>

theorem kernel_merge_agrees:
  "kernel_merge old nxt = preferProcessValue old nxt \<and>
   kernel_merge old nxt \<in> {old, nxt} \<and>
   value_rank (kernel_merge old nxt) = max (value_rank old) (value_rank nxt)"
  using go.merge_if [of old nxt] bpf.merge_if [of old nxt] bpf.merge_in [of old nxt] bpf.rank_merge
  by auto

text \<open>
  C9: A tombstone is never undone: whatever an event says and whatever fails, a tombstoned
  entry is still a tombstone, of no lower rank, after the event, after a traversal of the
  process tree and after an explicit marking.
\<close>

theorem tombstone_persists:
  assumes "mget (mirror m) k = Some v" "Tombstone v"
  shows "(\<exists>u. mget (mirror (handleEvent event m)) k = Some u \<and> Tombstone u \<and> value_rank v \<le> value_rank u) \<and>
    (\<exists>u. mget (mirror (snd (traverseProcessTreeLocked m))) k = Some u \<and> Tombstone u \<and>
      value_rank v \<le> value_rank u) \<and>
    (\<exists>u. mget (mirror (setProcessMark key priority mark m)) k = Some u \<and> Tombstone u \<and>
      value_rank v \<le> value_rank u)"
proof -
  have keep: "\<exists>u. mget mm k = Some u \<and> Tombstone u \<and> value_rank v \<le> value_rank u"
    if "upserts P (mirror m) mm" for P mm
    using growsD [OF upserts_grows [OF that] assms(1)] assms(2) by (auto dest: rank_le_Tombstone)
  have "upserts (\<lambda>k v. True) (mirror m) (mirror (setProcessMark key priority mark m))"
    by (simp add: setProcessMark_def split_beta Let_def upserts_one)
  then show ?thesis
    using keep [OF handleEvent_upserts] keep [OF traverseProcessTreeLocked_upserts] keep by blast
qed

theorem tombstone_persists_witness:
  "\<exists>u. mget (mirror (handleEvent (demo_event eventFork shell_key init_key) demo_exited)) shell_key = Some u \<and>
     Tombstone u"
  using tombstone_persists [of demo_exited shell_key shell_tomb "demo_event eventFork shell_key init_key"]
  by (simp add: shell_tomb_def) blast

section \<open>Events\<close>

text \<open>
  C10: An event changes only the entry of its own process, and the value it finds there only
  gives way to the one the event carries, to a live one of the current generation or, on an
  exit, to a tombstone of the generation it had or the event carries.
\<close>

theorem event_touches_own_entry:
  "(k \<noteq> ev_Key event \<longrightarrow> mget (mirror (handleEvent event m)) k = mget (mirror m) k) \<and>
   (\<forall>v. mget (mirror (handleEvent event m)) k = Some v \<longrightarrow>
      mget (mirror m) k = Some v \<or> v = ev_Value event \<or>
      Generation v = generation m \<and> \<not> Tombstone v \<or>
      ev_Type event = eventExit \<and> Tombstone v \<and>
        (Generation v = Generation (ev_Value event) \<or>
         (\<exists>old. mget (mirror m) k = Some old \<and> Generation v = Generation old)))"
  using handleEvent_other [of k event m]
    upserts_values [OF handleEvent_upserts, of event m k]
  by (auto simp: event_entry_def fresh_def)

theorem event_touches_own_entry_witness:
  "mget (mirror (handleEvent (demo_event eventFork child_key init_key) demo_marked)) shell_key = Some shell_value"
  using event_touches_own_entry [of shell_key "demo_event eventFork child_key init_key" demo_marked]
  by simp

text \<open>
  C11: The exit of a tracked process leaves a tombstone that keeps the mark, priority and
  generation; its time stamp is the current boot time, or the older one if that is later.
\<close>

theorem exit_leaves_tombstone:
  assumes "ev_Type event = eventExit" "mget (mirror m) (ev_Key event) = Some old"
  shows "mget (mirror (handleEvent event m)) (ev_Key event) =
    Some (old\<lparr>Tombstone := True, Timestamp := maxU64 (Timestamp old) (fst (nowBootNS (wld m)))\<rparr>)"
  using handleExit_tracked [of "after_info event m" event old] assms by (simp add: handleEvent_exit)

theorem exit_leaves_tombstone_witness:
  "mget (mirror (handleEvent (demo_event eventExit shell_key zero_key) demo_marked)) shell_key =
     Some (shell_value\<lparr>Tombstone := True, Timestamp := 1000\<rparr>)"
  using exit_leaves_tombstone [of "demo_event eventExit shell_key zero_key" demo_marked shell_value] demo_now(1)
  by (simp add: shell_value_def maxU64_def)

text \<open>
  The exit of a process the daemon does not track, with no tombstone from the kernel,
  changes nothing: neither the mirror nor the maps, and no hook is called.
\<close>

lemma exit_untracked_ignored:
  assumes "ev_Type event = eventExit" "mget (mirror m) (ev_Key event) = None"
    and "\<not> Tombstone (ev_Value event)"
  shows "mirror (handleEvent event m) = mirror m \<and> env (handleEvent event m) = env m \<and>
    k_processes (wld (handleEvent event m)) = k_processes (wld m)"
  using assms handleExit_untracked [of "after_info event m" event "event_info event m"]
  by (simp add: handleEvent_exit)

lemma exit_untracked_ignored_example:
  "mirror (handleEvent (demo_event eventExit child_key zero_key) demo_marked) = mirror demo_marked"
  using exit_untracked_ignored [of "demo_event eventExit child_key zero_key" demo_marked]
  by (simp add: zero_value_def)

text \<open>
  C12: A fork whose child is not known yet in this generation marks the child exactly with what
  the checker decides of it or, when the checker does not match, with the mark of the parent's
  live marked entry.
\<close>

theorem fork_marks_child:
  assumes "ev_Type event = eventFork" "decides m d" "ev_ParentKey event \<noteq> ev_Key event"
    and "stale (generation m) (mget (mirror m) (ev_Key event))"
    and "ev_HasMark event \<and> HasMark (ev_Value event) \<Longrightarrow> stale (generation m) (Some (ev_Value event))"
  shows "value_marks (generation m) (mget (mirror (handleEvent event m)) (ev_Key event)) x \<longleftrightarrow>
    fork_entitled d (event_info event m) (mget (mirror m) (ev_ParentKey event)) = Some x"
  using handleFork_entry [where m = "after_info event m" and info = "event_info event m" and x = x and event = event] assms
  by (simp add: handleEvent_fork)

lemma demo_fork_info: "pi_Comm (event_info (demo_event eventFork child_key parent) demo_marked) = ''''"
proof -
  have "fs_file demo_fs (proc_path 43 ''stat'') = None"
    by (simp add: demo_fs_def proc_path_def number_eval char_of_def bit_0)
  then show ?thesis
    by (simp add: procInfoFromEvent_def readProcInfo_def demo_marked_def demo_daemon_eq demo_world_def
        look_fs_def demo_event_def int8String_def)
qed

theorem fork_marks_child_witness:
  "value_marks 1 (mget (mirror (handleEvent (demo_event eventFork child_key shell_key) demo_marked)) child_key) (5, 7)"
  using fork_marks_child [of "demo_event eventFork child_key shell_key" demo_marked demo_check "(5, 7)"]
    observed_decides [OF demo_observed(2)] demo_fork_info [of shell_key]
  by (simp add: fork_entitled_def demo_check_def stale_def shell_value_def canInherit_def)

text \<open>
  C13: A fork is reported to the event hook exactly when the child is entitled to a mark, by the
  checker or by its parent, and the report carries that mark, not the one that is effective
  afterwards: the entry the mirror had for the child only gives way to one of a higher rank, so
  beside a tombstone, which stays one, or an entry of higher priority the report tells of a mark
  the child does not get. (The comment on \<^verbatim>\<open>ProcessEvent\<close> says otherwise.)
\<close>

theorem fork_reports:
  assumes "ev_Type event = eventFork" "observed d m" "ev_ParentKey event \<noteq> ev_Key event"
  shows "map report_mark (env (handleEvent event m)) = map report_mark (env m) @
    report_of ''fork'' (ev_Key event)
      (fork_entitled d (event_info event m) (mget (mirror m) (ev_ParentKey event))) \<and>
    (\<forall>old. mget (mirror m) (ev_Key event) = Some old \<longrightarrow>
      (\<exists>u. mget (mirror (handleEvent event m)) (ev_Key event) = Some u \<and> value_rank old \<le> value_rank u \<and>
        (Tombstone old \<longrightarrow> Tombstone u)))"
  using handleFork_reports [of d "after_info event m" event "event_info event m"] assms
    growsD [OF upserts_grows [OF handleEvent_upserts], of m "ev_Key event" _ event]
  by (auto simp: handleEvent_fork dest: rank_le_Tombstone)

lemma demo_shell_event: "event_info (demo_event ty shell_key parent) demo_exited = shell_info"
proof -
  have "static_fs demo_fs (wld demo_exited)"
    by (simp add: static_fs_def demo_exited_def demo_marked_def demo_world_def)
  from readProcInfo_value [OF this, of 42] show ?thesis
    using demo_shell_proc by (simp add: procInfoFromEvent_def split_beta Let_def)
qed

theorem fork_reports_witness:
  "map report_mark (env (handleEvent (demo_event eventFork child_key shell_key) demo_marked)) =
     [(''fork'', child_key, Some (5, 7))] \<and>
   map report_mark (env (handleEvent (demo_event eventFork shell_key init_key) demo_exited)) =
     [(''fork'', shell_key, Some (5, 7))] \<and>
   (\<exists>u. mget (mirror (handleEvent (demo_event eventFork shell_key init_key) demo_exited)) shell_key = Some u \<and> Tombstone u)"
  using fork_reports [of "demo_event eventFork child_key shell_key" demo_check demo_marked]
    fork_reports [of "demo_event eventFork shell_key init_key" demo_check demo_exited]
    demo_observed(2,3) demo_fork_info [of shell_key] demo_shell_event [of eventFork init_key]
  by (auto simp: fork_entitled_def demo_check_def report_of_def shell_value_def canInherit_def shell_tomb_def)

text \<open>
  C14: An exec of a process not yet decided in this generation is decided by the checker alone:
  an inherited mark, or one of an older policy, does not survive an exec the checker refuses.
\<close>

theorem exec_marks_process:
  assumes "ev_Type event = eventExec" "decides m d" "d (event_info event m) = (prio, mk, ok)"
    and "stale (generation m) (mget (mirror m) (ev_Key event))"
    and "ev_Value event = zero_value \<or> stale (generation m) (Some (ev_Value event))"
  shows "value_marks (generation m) (mget (mirror (handleEvent event m)) (ev_Key event)) x \<longleftrightarrow>
    ok \<and> x = (prio, mk)"
  using handleExec_entry [of "after_info event m" d "event_info event m" prio mk ok event x] assms
  by (simp add: handleEvent_exec)

theorem exec_marks_process_witness:
  "value_marks 1 (mget (mirror (handleEvent (demo_event eventExec shell_key zero_key) demo_daemon)) shell_key) (5, 7)"
proof -
  have "event_info (demo_event eventExec shell_key zero_key) demo_daemon = shell_info"
    using readProcInfo_value [OF demo_static, of 42] demo_shell_proc
    by (simp add: procInfoFromEvent_def demo_daemon_eq split_beta Let_def)
  then show ?thesis
    using exec_marks_process [of "demo_event eventExec shell_key zero_key" demo_daemon demo_check 5 7 True "(5, 7)"]
      observed_decides [OF demo_observed(1)]
    by (simp add: demo_check_def stale_def)
qed

text \<open>
  An exec event that arrives after the exit of its process changes nothing: no entry, no
  checker call, no report.
\<close>

lemma late_exec_ignored:
  assumes "ev_Type event = eventExec" "mget (mirror m) (ev_Key event) = Some old" "Tombstone old"
    and "\<not> Tombstone (ev_Value event)" "observed d m"
  shows "mirror (handleEvent event m) = mirror m \<and> env (handleEvent event m) = env m"
  using handleExec_tombstone [of "after_info event m" event old d "event_info event m"] assms
  by (simp add: handleEvent_exec)

lemma late_exec_ignored_example:
  "mirror (handleEvent (demo_event eventExec shell_key zero_key) demo_exited) = [(shell_key, shell_tomb)]"
  using late_exec_ignored [of "demo_event eventExec shell_key zero_key" demo_exited shell_tomb demo_check]
    demo_observed(3)
  by (simp add: shell_tomb_def zero_value_def)

text \<open>
  An exit is reported exactly when the process was marked, by its live entry or by what the
  kernel says, and the report carries the tombstone.
\<close>

lemma exit_reports:
  assumes "ev_Type event = eventExit" "observed d m"
  shows "env (handleEvent event m) = env m @
    (let live = (case mget (mirror m) (ev_Key event) of
                   None \<Rightarrow> Tombstone (ev_Value event) \<and> ev_HasMark event
                 | Some v \<Rightarrow> ev_HasMark event \<or> canInherit v);
         last = (case mget (mirror m) (ev_Key event) of None \<Rightarrow> ev_Value event | Some v \<Rightarrow> v)
     in if live then
       [\<lparr>pe_Type = ''exit'', pe_Key = ev_Key event, pe_ParentKey = None,
         pe_Kernel = event_kernel_mark event, pe_Process = event_info event m,
         pe_Value = Some (last\<lparr>Tombstone := True,
           Timestamp := maxU64 (Timestamp last) (fst (nowBootNS (wld m)))\<rparr>)\<rparr>]
     else [])"
  using handleExit_reports [of d "after_info event m" event "event_info event m"] assms
  by (simp add: handleEvent_exit Let_def)

lemma exit_reports_example:
  "map report_mark (env (handleEvent (demo_event eventExit shell_key zero_key) demo_marked)) =
     [(''exit'', shell_key, Some (5, 7))]"
  using exit_reports [of "demo_event eventExit shell_key zero_key" demo_check demo_marked] demo_observed(2)
  by (simp add: shell_value_def canInherit_def report_mark_def Let_def)

section \<open>The BPF programs beside the daemon\<close>

text \<open>
  C15: No map call of the daemon fails, and then, in any order, the BPF programs run (each call of
  theirs may fail), the daemon takes events, traverses the process tree, switches its policy,
  collects tombstones and is told to mark, a program running as a whole between two parts of the
  daemon's operations. A process forks first of all and exits once at most; that \<^verbatim>\<open>/proc\<close> still
  lists it after its exit, that it execs or is marked then, is not excluded, but the
  collector's search for dead processes finds only such as have exited. Then, unless an event of the process was
  dropped since the last traversal, the kernel's entry of a process is the mirror's, or the ring
  still holds an event of the process, and the last such event carries the kernel's entry, or if it
  is an exit, what the entry becomes as a tombstone.
\<close>

theorem copies_agree:
  assumes "fresh_world w" "sys_steps {} (sys_start (snd (NewDaemon cbs tcev ttl w c))) s" "k \<notin> sy_lost s"
  shows "case last_event k (sy_ring s) of
      None \<Rightarrow> mget (k_processes (wld (sy_marker s))) k = mget (mirror (sy_marker s)) k
    | Some e \<Rightarrow> mget (k_processes (wld (sy_marker s))) k = mget (mirror (sy_marker s)) k \<or>
        (\<exists>v. mget (k_processes (wld (sy_marker s))) k = Some v \<and>
           ev_Value e = (if ev_Type e = eventExit then v\<lparr>Tombstone := True, Timestamp := Timestamp (ev_Value e)\<rparr> else v))"
proof (cases "last_event k (sy_ring s)")
  case None
  then show ?thesis
    using settled_agree [OF fresh_system_inv [OF assms(1,2)] assms(3)] by (simp add: last_event_None [symmetric])
next
  case (Some e)
  then show ?thesis using pending_agree [OF fresh_system_inv [OF assms(1,2)] assms(3) Some] by simp
qed

theorem copies_agree_witness:
  "mget (k_processes (wld (sy_marker demo_forked))) shell_key = mget (mirror (sy_marker demo_forked)) shell_key \<and>
   mget (k_processes (wld (sy_marker demo_forked))) child_key \<noteq> mget (mirror (sy_marker demo_forked)) child_key"
proof
  have "shell_key \<notin> sy_lost demo_forked" by (simp add: demo_fork_state)
  from copies_agree [OF demo_fresh demo_forked_steps [unfolded demo_daemon_def] this]
  show "mget (k_processes (wld (sy_marker demo_forked))) shell_key = mget (mirror (sy_marker demo_forked)) shell_key"
    using demo_fork_state(4) by (auto simp: map_eq_Cons_conv)
  show "mget (k_processes (wld (sy_marker demo_forked))) child_key \<noteq> mget (mirror (sy_marker demo_forked)) child_key"
    using demo_fork_state(1,2) by (metis mark_of_simps(1) option.distinct(1))
qed

text \<open>
  C16: In the system of C15 (no map call of the daemon fails), take a process that is over with its
  exit: from then on no listing of \<^verbatim>\<open>/proc\<close> that a traversal uses shows it, nobody marks it and it
  execs no more; of all other processes nothing of this is asked. Once the daemon has taken the last
  event of such a process and its exit was submitted, the process has no live entry, neither in the
  mirror nor in the kernel map, and gets none again, whatever else the programs and the daemon do.
\<close>

theorem exited_unmarked:
  assumes "fresh_world w" "sys_steps over (sys_start (snd (NewDaemon cbs tcev ttl w c))) s" "k \<in> over"
    and "k \<in> sy_heard s" "k \<notin> ev_Key ` set (sy_ring s)" "sys_steps over s s'"
  shows "(mget (mirror (sy_marker s')) k = Some v \<longrightarrow> Tombstone v) \<and>
    (mget (k_processes (wld (sy_marker s'))) k = Some v \<longrightarrow> Tombstone v)"
proof -
  have inv: "sys_inv over s" by (rule fresh_system_inv [OF assms(1,2)])
  show ?thesis
    using heard_dead [OF sys_steps_inv [OF assms(6) inv] assms(3)] sys_steps_quiet [OF assms(6) inv assms(3-5)] by blast
qed

theorem exited_unmarked_witness:
  "\<exists>s. sys_steps {shell_key} (sys_start demo_daemon) s \<and> shell_key \<in> sy_heard s \<and>
     (\<forall>v. mget (k_processes (wld (sy_marker s))) shell_key = Some v \<longrightarrow> Tombstone v)"
proof -
  obtain s where s: "sys_steps {shell_key} (sys_start demo_daemon) s" "sy_heard s = {shell_key}" "sy_ring s = []"
    using demo_gone_steps by blast
  have "shell_key \<in> sy_heard s" "shell_key \<notin> ev_Key ` set (sy_ring s)" by (simp_all add: s)
  from exited_unmarked [OF demo_fresh s(1) [unfolded demo_daemon_def] _ this syss_refl] s(1,2)
  show ?thesis by blast
qed

text \<open>
  C17: Every record in the ring, at any time, is one of the three kinds of event, names the
  process its key names, has a parent only if it is a fork, and says that there is a mark only
  if the value it carries has one, which is live unless the event is an exit.
\<close>

theorem events_well_formed:
  assumes "sys_steps over (sys_start m) s" "e \<in> set (sy_ring s)"
  shows "ev_Type e \<in> {eventFork, eventExit, eventExec} \<and> ev_Pid e = Tgid (ev_Key e) \<and>
    (ev_Type e \<noteq> eventFork \<longrightarrow> ev_ParentKey e = zero_key) \<and>
    (ev_HasMark e \<longrightarrow> HasMark (ev_Value e) \<and> (ev_Type e = eventExit \<or> \<not> Tombstone (ev_Value e)))"
proof -
  have "well_formed_event e" using sys_steps_ring [OF assms(1)] assms(2) by (auto simp: sys_start_def)
  then show ?thesis by (auto simp: well_formed_event_def)
qed

theorem events_well_formed_witness:
  "\<exists>e \<in> set (sy_ring demo_forked). ev_HasMark e \<and> HasMark (ev_Value e)"
proof -
  obtain e where "sy_ring demo_forked = [e]" "ev_HasMark e" using demo_fork_marked by blast
  then show ?thesis using events_well_formed [OF demo_forked_steps [of "{}"], of e] by auto
qed

text \<open>
  C18: The bytes the programs put into the ring on a little-endian target are read back as the
  events they are, whatever the padding holds, and handled in this order; a record that is too
  short is logged and skipped; and no two events have the same bytes.
\<close>

theorem ring_records_handled:
  assumes "target_order arch = Some LittleEndian"
    and "\<And>e. e \<in> snd ` set records \<Longrightarrow> length (ev_Comm e) = 16"
  shows "runEvents tcev (map (parse_read \<circ> submitted (the (target_order arch))) records @ reads) m =
      runEvents tcev reads (fold (process_record tcev) (map snd records) m) \<and>
    (length sample < event_size \<longrightarrow>
      runEvents tcev (parse_read (RawSample sample) # reads) m = runEvents tcev reads (logf LogParseEvent m)) \<and>
    (\<forall>r \<in> set records. \<forall>r' \<in> set records.
      submitted LittleEndian r = submitted LittleEndian r' \<longrightarrow> snd r = snd r')"
proof (intro conjI ballI impI)
  show "runEvents tcev (map (parse_read \<circ> submitted (the (target_order arch))) records @ reads) m =
      runEvents tcev reads (fold (process_record tcev) (map snd records) m)"
    using runEvents_submitted [OF assms(2)] assms(1) by simp
  show "snd r = snd r'" if "r \<in> set records" "r' \<in> set records" "submitted LittleEndian r = submitted LittleEndian r'"
    for r r'
    using event_codec.put_inject [of "snd r" "snd r'" LittleEndian "fst r" "fst r'"] that assms(2)
    by (simp add: submitted_def split_beta)
qed (rule runEvents_short)

lemma demo_forked_comm: "\<exists>e. sy_ring demo_forked = [e] \<and> ev_Type e = eventFork \<and> length (ev_Comm e) = 16"
  by (simp add: demo_forked_def run_program_def sys_start_def handle_sched_process_fork_def bpf_inherit_def
      submit_def demo_set_mark shell_value_def eventFork_def child_task_def comm_bytes_def split_beta Let_def)

theorem ring_records_handled_witness:
  "\<exists>e. sy_ring demo_forked = [e] \<and>
     runEvents 1024 [parse_read (submitted LittleEndian (\<lambda>i. 0xff, e))] demo_daemon =
       (False, process_record 1024 e demo_daemon)"
proof -
  obtain e where e: "sy_ring demo_forked = [e]" "length (ev_Comm e) = 16" using demo_forked_comm by blast
  have order: "target_order ''amd64'' = Some LittleEndian" by (simp add: target_order_def little_endian_targets_def)
  have "runEvents 1024 [parse_read (submitted LittleEndian (\<lambda>i. 0xff, e))] demo_daemon =
      (False, process_record 1024 e demo_daemon)"
    using ring_records_handled [OF order, of "[(\<lambda>i. 0xff, e)]" 1024 "[]" demo_daemon] e(2) by (simp add: order)
  with e(1) show ?thesis by blast
qed

text \<open>
  C19: On the big-endian targets, for which a loader and an object are generated too, the event loop
  reads every event of the programs as one of an unknown type: handling it calls the event hook, if
  there is one, with an event \<^verbatim>\<open>unknown\<close> without a value, and neither the mirror nor the kernel's map
  changes.
\<close>

theorem big_endian_events_lost:
  assumes "target_order arch = Some BigEndian" "length (ev_Comm e) = 16"
    and "ev_Type e \<in> {eventFork, eventExit, eventExec}"
  shows "\<exists>e'. parse_read (submitted (the (target_order arch)) (pad, e)) = RingRecord (Some e') \<and>
    ev_Type e' \<notin> {eventFork, eventExit, eventExec} \<and>
    mirror (handleEvent e' m) = mirror m \<and> k_processes (wld (handleEvent e' m)) = k_processes (wld m) \<and>
    (\<forall>hook. cb_ProcessEvent (callbacks m) = Some hook \<longrightarrow>
       env (handleEvent e' m) =
         hook \<lparr>pe_Type = ''unknown'', pe_Key = ev_Key e', pe_ParentKey = None, pe_Kernel = event_kernel_mark e',
           pe_Process = event_info e' m, pe_Value = None\<rparr> (env m))"
proof (intro exI conjI allI impI)
  show "parse_read (submitted (the (target_order arch)) (pad, e)) = RingRecord (Some (swap_event e))"
    using binary_Read_swapped [OF assms(2), of pad] assms(1) by (simp add: submitted_def)
qed (use swapped_types [OF assms(3)] handle_swapped [OF assms(3), of m] in simp_all)

theorem big_endian_events_lost_witness:
  "\<exists>e e'. sy_ring demo_forked = [e] \<and> parse_read (submitted BigEndian (\<lambda>i. 0, e)) = RingRecord (Some e') \<and>
     ev_Type e' \<noteq> eventFork \<and> map report_mark (env (handleEvent e' demo_daemon)) = [(''unknown'', ev_Key e', None)]"
proof -
  obtain e where e: "sy_ring demo_forked = [e]" "ev_Type e = eventFork" "length (ev_Comm e) = 16"
    using demo_forked_comm by blast
  have order: "target_order ''s390x'' = Some BigEndian"
    by (simp add: target_order_def little_endian_targets_def big_endian_targets_def)
  obtain e' where e': "parse_read (submitted BigEndian (\<lambda>i. 0, e)) = RingRecord (Some e')" "ev_Type e' \<noteq> eventFork"
    and hook: "\<And>hook. cb_ProcessEvent (callbacks demo_daemon) = Some hook \<Longrightarrow>
      env (handleEvent e' demo_daemon) =
        hook \<lparr>pe_Type = ''unknown'', pe_Key = ev_Key e', pe_ParentKey = None, pe_Kernel = event_kernel_mark e',
          pe_Process = event_info e' demo_daemon, pe_Value = None\<rparr> (env demo_daemon)"
    using big_endian_events_lost [OF order e(3), of "\<lambda>i. 0" demo_daemon] e(2) by (auto simp: order)
  have "map report_mark (env (handleEvent e' demo_daemon)) = [(''unknown'', ev_Key e', None)]"
    using hook by (simp add: demo_daemon_eq demo_callbacks_def report_mark_def)
  with e(1) e' show ?thesis by (intro exI conjI)
qed

text \<open>
  C20: In a daemon whose map calls never fail, beside which no program has written the process map
  yet, let the policy be authoritative and the checker the one that comes with it. When the exec
  program runs for the leader of a process, its map update and its submission succeed, the mirror's
  entry is not of a later time, and the daemon then handles the event while \<^verbatim>\<open>/proc\<close> shows the name the
  program saw, then the kernel at once and the mirror afterwards hold the same mark: that of the
  policy's rule for the new name, or none without a rule, unless the process has, under this policy,
  a live value of a higher priority, which stays, or a tombstone, which stays too and is no mark.
\<close>

theorem exec_program_confirmed:
  assumes "fresh_world w" "daemon_steps tcev (snd (NewDaemon cbs tce ttl w c)) m"
    and "kp_Mode (kernelPolicy m) = KernelPolicyAuthoritative"
    and "\<And>info c. fst (check m info c) = exactCommCheck (kp_CommRules (kernelPolicy m)) info"
    and "tt_pid t = tt_tgid t" "key = process_key_from_task t"
    and "\<And>v. mget (mirror m) key = Some v \<Longrightarrow> Tombstone v \<or> Timestamp v \<le> now"
    and "handle_sched_process_exec t now True True (wld m) = (Some e, w')"
    and "makeCommRuleKey (generation m) (pi_Comm (event_info e (m\<lparr>wld := w'\<rparr>))) =
      Inr \<lparr>rk_Generation = generation m, rk_Comm = tt_comm t\<rparr>"
  shows "mark_of (mget (mirror (handleEvent e (m\<lparr>wld := w'\<rparr>))) key) = mark_of (mget (k_processes w') key) \<and>
    mark_of (mget (k_processes w') key) =
      (let rule = kernel_decision (tt_comm t) (wld m)
       in case mget (mirror m) key of
            None \<Rightarrow> rule
          | Some v \<Rightarrow>
              if Tombstone v then None
              else if Generation v = generation m \<and> (\<exists>prio mk. rule = Some (prio, mk) \<and> i8_less prio (Priority v))
              then mark_of (Some v) else rule)"
proof -
  have inv: "daemon_inv m" by (rule daemon_steps_inv [OF assms(2) NewDaemon_inv [OF assms(1)]])
  show ?thesis
  proof (cases "\<exists>v. mget (mirror m) key = Some v \<and> Tombstone v")
    case True
    then obtain v where v: "mget (mirror m) (process_key_from_task t) = Some v" "Tombstone v"
      using assms(6) by blast
    from tombstone_survives_exec [OF inv assms(5) v assms(8)] v show ?thesis
      unfolding assms(6) by (auto simp: Let_def)
  next
    case False
    have d: "decides m (exactCommCheck (kp_CommRules (kernelPolicy m)))" using assms(4) by (simp add: decides_def)
    note confirmed = daemon_confirms_exec [OF inv assms(3) d assms(5) _ assms(8,9)]
    have old: "\<forall>old. mget (mirror m) (process_key_from_task t) = Some old \<longrightarrow> \<not> Tombstone old \<and> Timestamp old \<le> now"
      using False assms(6,7) by blast
    show ?thesis using confirmed [OF old] False unfolding assms(6) by (simp add: Let_def split: option.split)
  qed
qed

theorem exec_program_confirmed_witness:
  "\<exists>e w'. handle_sched_process_exec shell_task (- 1) True True (wld demo_strict) = (Some e, w') \<and>
     mark_of (mget (mirror (handleEvent e (demo_strict\<lparr>wld := w'\<rparr>))) shell_key) =
       mark_of (mget (k_processes w') shell_key)"
proof -
  obtain e w' where run: "handle_sched_process_exec shell_task (- 1) True True (wld demo_strict) = (Some e, w')"
    and e: "ev_Type e = eventExec" "ev_Key e = shell_key" "static_fs demo_fs w'" using demo_exec by blast
  have "event_info e (demo_strict\<lparr>wld := w'\<rparr>) = shell_info"
    using readProcInfo_value [OF e(3), of 42] demo_shell_proc e(2)
    by (simp add: procInfoFromEvent_def split_beta Let_def)
  then have name: "makeCommRuleKey (generation demo_strict) (pi_Comm (event_info e (demo_strict\<lparr>wld := w'\<rparr>))) =
      Inr \<lparr>rk_Generation = generation demo_strict, rk_Comm = tt_comm shell_task\<rparr>"
    by (simp add: makeCommRuleKey_ok validateExactComm_def shell_task_def)
  have mode: "kp_Mode (kernelPolicy demo_strict) = KernelPolicyAuthoritative"
    by (simp add: demo_strict_state strict_policy_def)
  have "fst (check demo_strict info c) = exactCommCheck (kp_CommRules (kernelPolicy demo_strict)) info" for info c
    using demo_strict_state(1,3) by (simp add: decides_def)
  from exec_program_confirmed [OF demo_fresh demo_strict_steps mode this _ task_keys(1) [symmetric] _ run name]
  show ?thesis using demo_strict_state(5) run by auto
qed

section \<open>The daemon's life and the watcher\<close>

text \<open>
  C21: From its creation on, whatever calls fail and in whatever order the daemon is run, stopped
  and closed, no link and no reader is lost: each one opened is closed or held in its field, the
  links are closed once at most, a failed \<^verbatim>\<open>Run\<close> keeps none, and a closed daemon has closed all
  of them and its objects once, if no \<^verbatim>\<open>Run\<close> that came after the closing has opened one. \<^verbatim>\<open>Run\<close> does not
  look whether the daemon is closed: should one succeed then, although the programs it attaches are
  closed, its three links would never be closed.
  \<^verbatim>\<open>Stop\<close> returns, except when the daemon has no reader because \<^verbatim>\<open>Run\<close> did not succeed: then it waits
  for ever.
\<close>

theorem lifecycle_releases:
  assumes "open_daemon pinPath cbs tcev tttl w c s = Inr d0" "ca_log s = []" "life_steps d0 d"
  shows "opened (dm_calls d) = set (closes (dm_calls d)) \<union> set (links d) \<union> set_option (dm_rd d) \<and>
    distinct (filter (\<lambda>h. Some h \<noteq> dm_rd d) (closes (dm_calls d))) \<and>
    (\<forall>e d'. Run d = (Some e, d') \<longrightarrow>
       dm_rd d' = None \<and> links d' = [] \<and> set (closes (dm_calls d')) = opened (dm_calls d')) \<and>
    (dm_closeOnce d \<longrightarrow> objects_closed (dm_calls d) = 1 \<and>
       (\<not> late_opening (ca_log (dm_calls d)) \<longrightarrow> set (closes (dm_calls d)) = opened (dm_calls d))) \<and>
    (dm_closeOnce d \<longrightarrow> dm_rd d = None \<longrightarrow> (\<forall>d1 d2. Run d = (None, d1) \<longrightarrow> life_steps d1 d2 \<longrightarrow>
       length (links d1) = 3 \<and> set (links d1) \<inter> set (closes (dm_calls d2)) = {})) \<and>
    (Stop reads d = None \<longleftrightarrow> dm_rd d = None \<and> \<not> dm_stopOnce d)"
proof (intro conjI allI impI)
  have inv: "life_inv d" by (rule life_steps_inv [OF assms(3) open_daemon_inv [OF assms(1,2)]])
  show "opened (dm_calls d) = set (closes (dm_calls d)) \<union> set (links d) \<union> set_option (dm_rd d)"
    by (rule nothing_lost [OF inv])
  show "distinct (filter (\<lambda>h. Some h \<noteq> dm_rd d) (closes (dm_calls d)))" by (rule closed_once [OF inv])
  show "dm_rd d' = None" "links d' = []" "set (closes (dm_calls d')) = opened (dm_calls d')"
    if "Run d = (Some e, d')" for e d'
    using Run_failed [OF inv that] by simp_all
  show "objects_closed (dm_calls d) = 1" if "dm_closeOnce d" using inv that by (simp add: life_inv_def)
  show "set (closes (dm_calls d)) = opened (dm_calls d)" if "dm_closeOnce d" "\<not> late_opening (ca_log (dm_calls d))"
    using all_closed [OF inv that] by simp
  show "length (links d1) = 3" "set (links d1) \<inter> set (closes (dm_calls d2)) = {}"
    if "dm_closeOnce d" "dm_rd d = None" "Run d = (None, d1)" "life_steps d1 d2" for d1 d2
    using late_run_leaks [OF inv that(1-3)] leaking_steps [OF that(4)] by (auto simp: leaking_def)
  show "Stop reads d = None \<longleftrightarrow> dm_rd d = None \<and> \<not> dm_stopOnce d" by (rule Stop_returns [OF inv])
qed

abbreviation willing :: "unit calls" where
  "willing \<equiv> \<lparr>ca_log = [], ca_answer = (\<lambda>_. None)\<rparr>"

theorem lifecycle_releases_witness:
  "\<exists>d0. open_daemon ''/sys/fs/bpf/mark'' demo_callbacks 0 0 demo_world [] willing = Inr d0 \<and>
     Stop [] d0 = None \<and> Stop [] (snd (Run d0)) \<noteq> None \<and>
     (\<exists>d. Run d0 = (None, d) \<and> dm_rd d \<noteq> None \<and> card (opened (dm_calls d)) = 4 \<and> closes (dm_calls d) = [] \<and>
        set (closes (dm_calls (snd (Close d)))) = opened (dm_calls (snd (Close d))))"
proof -
  obtain d0 where d0: "open_daemon ''/sys/fs/bpf/mark'' demo_callbacks 0 0 demo_world [] willing = Inr d0"
    and log: "ca_log (dm_calls d0) = MkdirAll ''/sys/fs/bpf/mark'' # map (Remove ''/sys/fs/bpf/mark'') pinnedMapNames @
        [RemoveMemlock, LoadObjects ''/sys/fs/bpf/mark'']" "ca_answer (dm_calls d0) = (\<lambda>_. None)"
    and none: "dm_rd d0 = None" "dm_stopOnce d0 = False" "dm_closeOnce d0 = False" "links d0 = []"
    by (simp add: open_daemon_def prepare_def pinnedMapNames_def issue_def links_def split_beta Let_def)
  note life = lifecycle_releases [OF d0, where reads = "[]"]
  have run: "fst (Run d0) = None" "dm_rd (snd (Run d0)) = Some 10" "dm_stopOnce (snd (Run d0)) = False"
    "closes (dm_calls (snd (Run d0))) = []" "card (opened (dm_calls (snd (Run d0)))) = 4"
    using none log by (simp_all add: Run_log [OF none(1,4)] pinnedMapNames_def)
  have once: "life_steps d0 (snd (Run d0))" by (rule lifes_step [OF lifes_refl life_run])
  have twice: "life_steps d0 (snd (Close (snd (Run d0))))" by (rule lifes_step [OF once life_close])
  have nolog: "ca_log willing = []" by simp
  have stop: "Stop [] d0 = None" using life [OF _ lifes_refl] none by simp
  have stopped: "Stop [] (snd (Run d0)) \<noteq> None" using life [OF _ once] run by simp
  have "CloseObjects \<notin> set (ca_log (dm_calls (snd (Run d0))))"
    using none log by (simp add: Run_log [OF none(1,4)] with_log_def pinnedMapNames_def)
  then have early: "\<not> late_opening (ca_log (dm_calls (snd (Close (snd (Run d0))))))"
    using late_opening_none by (simp add: Close_late)
  have all: "set (closes (dm_calls (snd (Close (snd (Run d0)))))) = opened (dm_calls (snd (Close (snd (Run d0)))))"
    using life [OF nolog twice, THEN conjunct2, THEN conjunct2, THEN conjunct2, THEN conjunct1] Close_fields(3) early by blast
  have ran: "Run d0 = (None, snd (Run d0))" using run(1) by (simp add: prod_eq_iff)
  have "\<exists>d. Run d0 = (None, d) \<and> dm_rd d \<noteq> None \<and> card (opened (dm_calls d)) = 4 \<and> closes (dm_calls d) = [] \<and>
      set (closes (dm_calls (snd (Close d)))) = opened (dm_calls (snd (Close d)))"
    by (rule exI [of _ "snd (Run d0)"], intro conjI) (rule ran, simp only: run(2) option.distinct simp_thms, rule run, rule run, rule all)
  then have "open_daemon ''/sys/fs/bpf/mark'' demo_callbacks 0 0 demo_world [] willing = Inr d0 \<and>
     Stop [] d0 = None \<and> Stop [] (snd (Run d0)) \<noteq> None \<and>
     (\<exists>d. Run d0 = (None, d) \<and> dm_rd d \<noteq> None \<and> card (opened (dm_calls d)) = 4 \<and> closes (dm_calls d) = [] \<and>
        set (closes (dm_calls (snd (Close d)))) = opened (dm_calls (snd (Close d))))"
    using d0 stop stopped by (intro conjI)
  then show ?thesis by (rule exI)
qed

definition demo_shared :: main_env where
  "demo_shared = \<lparr>me_closure = \<lparr>ce_rules = newMultiRuleManager, ce_log = []\<rparr>, me_sockets = demo_sockets, me_fwlog = []\<rparr>"

lemma demo_main_up:
  assumes "cp_Policy c = \<lparr>kp_Mode = 2, kp_CommRules = [\<lparr>cr_Comm = ''sh'', cr_Priority = 5, cr_Mark = 7\<rparr>]\<rparr>"
  shows "\<exists>run fwm. main_up ''/sys/fs/bpf/mark'' c True True demo_world demo_shared willing willing = (None, run) \<and>
    mn_manager run = Some fwm"
proof -
  let ?chk = "lift_check (combinedCheck True (Some (cp_Check c)))"
  let ?m = "snd (NewDaemon (start_hooks ?chk) 0 0 demo_world demo_shared)"
  have norm: "validateAndNormalizeKernelPolicy (cp_Policy c) = Inr (cp_Policy c)"
    by (simp add: assms validateAndNormalizeKernelPolicy_def validateExactComm_def)
  have inv: "daemon_inv ?m" by (rule NewDaemon_inv [OF demo_fresh])
  have wld: "wld ?m = demo_world" by (simp add: NewDaemon_def Let_def)
  have "fst (listProcesses (wld ?m)) = Inr [init_info, shell_info]"
    using listProcesses_value [OF demo_static] by (simp add: wld demo_listed)
  moreover have "policyGeneration ?m = 1" "generation ?m = 1" by (simp_all add: NewDaemon_def Let_def)
  ultimately obtain g m' where switch: "setKernelPolicyLocked (cp_Policy c) ?chk ?m = ((g, None), m')"
    using switch_succeeds [OF inv normalize_normal(1) [OF norm]] by force
  obtain d where d: "open_daemon ''/sys/fs/bpf/mark'' (start_hooks ?chk) 0 0 demo_world demo_shared willing = Inr d"
    and dm: "dm_marker d = ?m" "dm_rd d = None" "links d = []" "ca_answer (dm_calls d) = (\<lambda>_. None)"
    by (simp add: open_daemon_def prepare_def pinnedMapNames_def issue_def links_def split_beta Let_def)
  obtain fwm sm where fwm: "NewManager ''/sys/fs/bpf/mark'' willing = (Inr fwm, sm)"
    by (simp add: NewManager_def cgroupPrograms_def acquire_def issue_def split_beta Let_def)
  have run: "fst (Run (d\<lparr>dm_marker := m\<rparr>)) = None" for m
    using dm by (simp add: Run_log links_def)
  have "setKernelPolicy (cp_Policy c) (Some ?chk) (dm_marker d) = ((g, None), m')"
    by (simp add: setKernelPolicy_def norm dm switch)
  then show ?thesis using d fwm run by (simp add: main_up_def Let_def split_beta)
qed

text \<open>
  C22: Whatever calls fail, and whatever the event loop reads and the control server does meanwhile,
  a command that is up waits for a signal unless its event loop is told that the reader is closed:
  only then does the daemon say that it is done. A signal ends the command, with every link and the
  reader of the daemon closed and its objects closed once, and the socket manager's too unless
  \<^verbatim>\<open>Stop\<close> reports an error.
  When \<^verbatim>\<open>Run\<close> fails the command ends with no link of the daemon open and its objects not closed.
\<close>

theorem main_releases:
  assumes "main_up pinPath compiled fwmark listen w shared s sm = (res, run)" "ca_log s = []" "ca_log sm = []"
  shows "(res = None \<longrightarrow>
      (main_end acts DaemonDone run = None \<longleftrightarrow> \<not> told_closed acts) \<and>
      (\<exists>errs run' d. main_end acts (Signal left) run = Some (if errs = [] then None else Some (FatalStop errs), run') \<and>
        mn_daemon run' = Some d \<and> set (closes (dm_calls d)) = opened (dm_calls d) \<and> objects_closed (dm_calls d) = 1 \<and>
        (errs = [] \<longrightarrow> (case mn_manager run' of None \<Rightarrow> mn_manager run = None
           | Some fwm \<Rightarrow> set (closes (fm_calls fwm)) = opened (fm_calls fwm) \<and> objects_closed (fm_calls fwm) = 1)))) \<and>
    (\<forall>e. res = Some (FatalRun e) \<longrightarrow>
      (\<exists>d. mn_daemon run = Some d \<and> set (closes (dm_calls d)) = opened (dm_calls d) \<and> objects_closed (dm_calls d) = 0))"
proof (intro conjI impI allI)
  note inv = main_up_inv [OF assms]
  show "main_end acts DaemonDone run = None \<longleftrightarrow> \<not> told_closed acts" if "res = None"
    by (rule main_end_closes(1)) (use inv that in simp)
  show "\<exists>errs run' d. main_end acts (Signal left) run = Some (if errs = [] then None else Some (FatalStop errs), run') \<and>
      mn_daemon run' = Some d \<and> set (closes (dm_calls d)) = opened (dm_calls d) \<and> objects_closed (dm_calls d) = 1 \<and>
      (errs = [] \<longrightarrow> (case mn_manager run' of None \<Rightarrow> mn_manager run = None
         | Some fwm \<Rightarrow> set (closes (fm_calls fwm)) = opened (fm_calls fwm) \<and> objects_closed (fm_calls fwm) = 1))"
    if "res = None"
    by (rule main_end_closes(2)) (use inv that in simp)
  show "\<exists>d. mn_daemon run = Some d \<and> set (closes (dm_calls d)) = opened (dm_calls d) \<and> objects_closed (dm_calls d) = 0"
    if "res = Some (FatalRun e)" for e
    using inv that by simp
qed

theorem main_releases_witness:
  "\<exists>c run fwm run' d. main_up ''/sys/fs/bpf/mark'' c True True demo_world demo_shared willing willing = (None, run) \<and>
     mn_manager run = Some fwm \<and> main_end [] DaemonDone run = None \<and>
     (\<exists>res. main_end [] (Signal []) run = Some (res, run')) \<and> mn_daemon run' = Some d \<and> objects_closed (dm_calls d) = 1"
proof -
  obtain c :: compiled_policy where "cp_Policy c = \<lparr>kp_Mode = 2, kp_CommRules = [\<lparr>cr_Comm = ''sh'', cr_Priority = 5, cr_Mark = 7\<rparr>]\<rparr>"
    using demo_compiled [where same = "(=)"] by (elim exE conjE) (rule that)
  from demo_main_up [OF this] obtain run fwm
    where up: "main_up ''/sys/fs/bpf/mark'' c True True demo_world demo_shared willing willing = (None, run)"
      "mn_manager run = Some fwm" by blast
  have logs: "ca_log willing = []" by simp
  note ends = main_releases [OF up(1) logs logs, of "[]" "[]", THEN conjunct1, rule_format, OF refl]
  obtain errs run' d where "main_end [] (Signal []) run = Some (if errs = [] then None else Some (FatalStop errs), run')"
    "mn_daemon run' = Some d" "objects_closed (dm_calls d) = 1" using ends by blast
  moreover have "main_end [] DaemonDone run = None" using ends by (simp add: told_closed_def)
  ultimately show ?thesis using up by blast
qed

text \<open>
  C23: When the command, started with \<^verbatim>\<open>-fwmark\<close>, has been ended by a signal, no socket held by a live
  process of the mirror bears a mark any more, whatever the event loop read, rules were set, tracked
  rules changed, traversals ran and states were read before, in any order. This is for a process that
  \<^verbatim>\<open>/proc\<close> shows and whose descriptors can be listed and duplicated, on a machine where the files of
  \<^verbatim>\<open>/proc\<close> and the open files of the processes do not change and socket marks can be set.
\<close>

theorem stop_unmarks_sockets:
  assumes "main_up pinPath compiled True True w shared s sm = (None, run)" "ca_log s = []" "ca_log sm = []"
    and "static_fs fs (fw_os (me_sockets shared))" "static_fds v (fw_sk (me_sockets shared))" "markable v"
    and "main_end acts (Signal left) run = Some (res, run')" "mn_daemon run' = Some d"
    and "mget (mirror (dm_marker d)) key = Some val" "\<not> Tombstone val" "shown fs key"
    and "fv_dir v (Tgid key) = Inr names" "fv_pidfd v (Tgid key) = None" "fd \<in> process_sockets v (Tgid key) names"
  shows "sk_mark (fw_sk (me_sockets (env (dm_marker d)))) fd = 0"
proof -
  have "(key, val) \<in> holders fs v (mirror (dm_marker d)) fd"
    using map_of_SomeD [OF assms(9)] assms(10-14) by (simp add: holders_def reaches_def held_def)
  then show ?thesis
    using main_end_sockets [OF assms(1-3) _ assms(7,8), where fs = fs and v = v] assms(4-6) by blast
qed

lemma demo_main_alive:
  assumes comp: "compileDefaultKernelPolicy demo_parse (=) (demo_rules ''^sh$'') 5 7 = Inr c"
    and pol: "cp_Policy c = \<lparr>kp_Mode = 2, kp_CommRules = [\<lparr>cr_Comm = ''sh'', cr_Priority = 5, cr_Mark = 7\<rparr>]\<rparr>"
    and up: "main_up ''/sys/fs/bpf/mark'' c True True demo_world demo_shared willing willing = (None, run)"
  shows "\<exists>d. mn_daemon run = Some d \<and> alive (mirror (dm_marker d)) shell_key"
proof -
  let ?m = "snd (NewDaemon (start_hooks (main_check c)) 0 0 demo_world demo_shared)"
  obtain g m d where switch: "setKernelPolicy (cp_Policy c) (Some (main_check c)) ?m = ((g, None), m)"
    and d: "mn_daemon run = Some d" "dm_marker d = run_traversal True (run_traversal False (updateHooks fwmark_hooks m))"
    by (rule main_up_marker [OF up])
  have inv: "daemon_inv ?m" by (rule NewDaemon_inv [OF demo_fresh])
  have new: "wld ?m = demo_world" "mirror ?m = []" by (simp_all add: NewDaemon_def Let_def)
  have check: "fst (main_check c info x) = cp_Check c info" for info x
    by (simp add: lift_check_def combinedCheck_result split_beta Let_def)
  have "cp_Check c shell_info = (5, 7, True)"
    using compiled_sound [OF comp demo_plain, of shell_info] by (simp add: pol exactCommCheck_def)
  then have "effective (cp_Check c) [init_info, shell_info] shell_info (5, 7)" by (rule eff_match)
  moreover have "value_marks g (mget (mirror m) (pi_Key shell_info)) (5, 7) \<longleftrightarrow>
      effective (cp_Check c) [init_info, shell_info] shell_info (5, 7)"
  proof (rule switch_effective [OF inv switch check])
    show "static_fs demo_fs (wld ?m)" "listed demo_fs = Some [init_info, shell_info]"
      by (simp_all add: new demo_static demo_listed)
    show "listing [init_info, shell_info]" by (simp add: listing_def)
    show "rooted [init_info, shell_info] q" "pid_of q \<noteq> 0" if "q \<in> set [init_info, shell_info]" for q
      using demo_rooted [OF that] that by auto
  qed (simp_all add: new)
  ultimately have "alive (mirror m) shell_key" by (auto simp: alive_def value_marks_def canInherit_def split: option.splits)
  then have hooks: "alive (mirror (updateHooks fwmark_hooks m)) shell_key" by (simp add: hooks_installed)
  have "daemon_inv m" using daemon_inv_policy [OF inv, of "cp_Policy c" "Some (main_check c)"] switch by simp
  then have "daemon_inv (updateHooks fwmark_hooks m)" by (rule daemon_step_inv [OF step_hooks])
  then have "maps_ok (updateHooks fwmark_hooks m)" by (simp add: daemon_inv_def)
  then have "alive (mirror (dm_marker d)) shell_key"
    unfolding d(2) by (intro alive_run_traversal rest_run(2) hooks)
  with d(1) show ?thesis by blast
qed

theorem stop_unmarks_sockets_witness:
  "\<exists>c run run' d val. main_up ''/sys/fs/bpf/mark'' c True True demo_world demo_shared willing willing = (None, run) \<and>
     (\<exists>res. main_end [] (Signal []) run = Some (res, run')) \<and> mn_daemon run' = Some d \<and>
     mget (mirror (dm_marker d)) shell_key = Some val \<and> \<not> Tombstone val \<and>
     3 \<in> process_sockets demo_view 42 [''0'', ''3''] \<and> sk_mark (fw_sk (me_sockets (env (dm_marker d)))) 3 = 0"
proof -
  obtain c :: compiled_policy where comp: "compileDefaultKernelPolicy demo_parse (=) (demo_rules ''^sh$'') 5 7 = Inr c"
    and pol: "cp_Policy c = \<lparr>kp_Mode = 2, kp_CommRules = [\<lparr>cr_Comm = ''sh'', cr_Priority = 5, cr_Mark = 7\<rparr>]\<rparr>"
    using demo_compiled [where same = "(=)"] by (elim exE conjE) (rule that)
  from demo_main_up [OF pol] obtain run
    where up: "main_up ''/sys/fs/bpf/mark'' c True True demo_world demo_shared willing willing = (None, run)" by blast
  have logs: "ca_log willing = []" by simp
  have is_up: "up run" using main_up_inv [OF up logs logs] by simp
  obtain d0 where d0: "mn_daemon run = Some d0" "alive (mirror (dm_marker d0)) shell_key"
    using demo_main_alive [OF comp pol up] by blast
  have once: "\<not> dm_stopOnce d0" using is_up d0(1) by (auto simp: up_def)
  obtain res run' d where stop: "main_end [] (Signal []) run = Some (res, run')" "mn_daemon run' = Some d"
    using main_end_closes(2) [OF is_up, of "[]" "[]"] by blast
  have "alive (mirror (dm_marker d)) shell_key"
    using main_end_mirror [OF stop(1) d0(1) once stop(2)] d0(2) by simp
  then obtain val where val: "mget (mirror (dm_marker d)) shell_key = Some val" "\<not> Tombstone val"
    by (auto simp: alive_def)
  have machine: "static_fs demo_fs (fw_os (me_sockets demo_shared))" "static_fds demo_view (fw_sk (me_sockets demo_shared))"
    "markable demo_view" by (simp_all add: demo_shared_def demo_sockets_static)
  have view: "fv_dir demo_view (Tgid shell_key) = Inr [''0'', ''3'']" "fv_pidfd demo_view (Tgid shell_key) = None"
    "3 \<in> process_sockets demo_view (Tgid shell_key) [''0'', ''3'']"
    by (simp_all add: demo_view_def) (simp add: demo_shell_sockets flip: demo_view_def)
  have "sk_mark (fw_sk (me_sockets (env (dm_marker d)))) 3 = 0"
    by (rule stop_unmarks_sockets [OF up logs logs machine stop val demo_shell_shown view])
  moreover have "3 \<in> process_sockets demo_view 42 [''0'', ''3'']" using view(3) by simp
  ultimately show ?thesis
    by (intro exI [of _ c] exI [of _ run] exI [of _ run'] exI [of _ d] exI [of _ val] exI [of _ res] conjI up stop val)
qed

text \<open>
  C24: The watcher takes every look to its end, whatever the process tree and whatever fails: its
  counters are the number of keys that were a tombstone in a snapshot so far and the number of
  those that were missing from a later one; and when all processes hang under the roots, the
  tree has a line for each process the kernel's map marks, one line, and for no other.
\<close>

theorem watcher_prints:
  assumes "\<forall>look \<in> set (first # looks wakes). plain_world (wk_world look)"
  shows "(\<exists>screens how. runWatcher title first wakes = Some (screens, how) \<and>
      (\<forall>i < length screens.
         let taken = take (Suc i) (snapshots (first # looks wakes))
         in ws_observed (screens ! i) = card {k. watched_tombstone taken k} \<and>
            ws_collected (screens ! i) = card {k. watched_collected taken k})) \<and>
    (\<forall>t t' screen snapshot. printWatcherSnapshot title first t = Some (Inr screen, t') \<longrightarrow>
      fst (GrabProcessMapState (wk_world first)) = Inr snapshot \<longrightarrow>
      (\<forall>p \<in> set (Procs snapshot). rooted (Procs snapshot) p \<and> pid_of p \<noteq> 0) \<longrightarrow>
      distinct (map wl_key (ws_tree screen)) \<and>
      wl_key ` set (ws_tree screen) = kernel_marked (wk_world first) (Procs snapshot))"
proof (intro conjI allI impI)
  show "\<exists>screens how. runWatcher title first wakes = Some (screens, how) \<and>
      (\<forall>i < length screens.
         let taken = take (Suc i) (snapshots (first # looks wakes))
         in ws_observed (screens ! i) = card {k. watched_tombstone taken k} \<and>
            ws_collected (screens ! i) = card {k. watched_collected taken k})"
    using runWatcher_counts [OF assms, of title] by blast
  have first: "plain_world (wk_world first)" using assms by simp
  fix t t' screen snapshot
  assume look: "printWatcherSnapshot title first t = Some (Inr screen, t')"
    "fst (GrabProcessMapState (wk_world first)) = Inr snapshot"
    "\<forall>p \<in> set (Procs snapshot). rooted (Procs snapshot) p \<and> pid_of p \<noteq> 0"
  from look_tree [OF first look(1)] look(2,3)
  show "distinct (map wl_key (ws_tree screen))"
    "wl_key ` set (ws_tree screen) = kernel_marked (wk_world first) (Procs snapshot)" by simp_all
qed

abbreviation demo_look :: watcher_look where
  "demo_look \<equiv> \<lparr>wk_refreshed = ''now'', wk_wall = 0,
     wk_world = demo_world\<lparr>k_processes := [(shell_key, shell_value\<lparr>Timestamp := 1000\<rparr>), (child_key, shell_value\<lparr>Tombstone := True\<rparr>)]\<rparr>\<rparr>"

lemma demo_look_grab:
  "\<exists>snapshot. fst (GrabProcessMapState (wk_world demo_look)) = Inr snapshot \<and> Procs snapshot = [init_info, shell_info]"
proof -
  have "static_fs demo_fs (snd (processes_Iterate (snd (syscall (wk_world demo_look)))))"
    using demo_static by (simp add: static_fs_def processes_Iterate_def syscall_def)
  from listProcesses_value [OF this] have "fst (listProcesses (snd (processes_Iterate (snd (syscall (wk_world demo_look)))))) =
      Inr [init_info, shell_info]" by (simp add: demo_listed)
  then show ?thesis
    by (auto simp: GrabProcessMapState_def readProcessMapState_def processes_Iterate_def syscall_def demo_world_def
        split_beta Let_def)
qed

lemma single_key:
  assumes "distinct (map f xs)" "f ` set xs = {a}"
  shows "map f xs = [a]"
proof -
  have "length (map f xs) = 1" using distinct_card [OF assms(1)] assms(2) by simp
  then obtain b where "map f xs = [b]" by (cases "map f xs") auto
  moreover from this have "f ` set xs = {b}" by (metis image_set list.set(1,2))
  ultimately show ?thesis using assms(2) by simp
qed

theorem watcher_prints_witness:
  "\<exists>screen how. runWatcher ''processes'' demo_look [Interrupted] = Some ([screen], how) \<and>
     map wl_key (ws_tree screen) = [shell_key] \<and> ws_observed screen = 1"
proof -
  have ok: "plain_world (wk_world demo_look)"
    by (simp add: plain_world_def wfmap_def demo_world_def demo_fs_def dir_pids_def number_eval)
  obtain snapshot where grab: "fst (GrabProcessMapState (wk_world demo_look)) = Inr snapshot"
    and procs: "Procs snapshot = [init_info, shell_info]" using demo_look_grab by blast
  have entries: "mget (Entries snapshot) = mget (k_processes (wk_world demo_look))" by (rule grabbed(2) [OF ok grab])
  obtain screen t' where look: "printWatcherSnapshot ''processes'' demo_look newWatcherTombstoneTracker = Some (Inr screen, t')"
    using look_result [OF ok] grab by fastforce
  then have run: "runWatcher ''processes'' demo_look [Interrupted] = Some ([screen], Stopped)"
    by (simp add: runWatcher_def)
  have "\<forall>look \<in> set (demo_look # looks [Interrupted]). plain_world (wk_world look)" using ok by simp
  note shown = watcher_prints [OF this, of "''processes''"]
  have "{k. watched_tombstone [snapshot] k} = {child_key}" by (auto simp: watched_tombstone_def entries shell_value_def)
  then have "ws_observed screen = 1" using shown run grab by (simp add: Let_def)
  moreover have "kernel_marked (wk_world demo_look) (Procs snapshot) = {shell_key}"
    by (auto simp: kernel_marked_def procs shell_value_def intro: image_eqI [of _ _ shell_info])
  then have "distinct (map wl_key (ws_tree screen))" "wl_key ` set (ws_tree screen) = {shell_key}"
    using shown look grab demo_rooted by (simp_all add: procs)
  then have "map wl_key (ws_tree screen) = [shell_key]"
    by (rule single_key)
  ultimately have "runWatcher ''processes'' demo_look [Interrupted] = Some ([screen], Stopped) \<and>
     map wl_key (ws_tree screen) = [shell_key] \<and> ws_observed screen = 1" using run by (intro conjI)
  then show ?thesis by (rule_tac exI, rule_tac exI)
qed

section \<open>Collecting tombstones\<close>

text \<open>
  C25: Whatever fails, a collection loses nothing but expired tombstones; when the machine has
  been up for the grace period, a tombstone younger than it is kept.
\<close>

theorem grace_period_kept:
  assumes "wfmap (mirror m)" "mget (mirror m) k = Some v" "now = fst (nowBootNS (wld m))"
    and "Tombstone v \<Longrightarrow> tombTTL m \<le> now \<and> unat now \<le> unat (Timestamp v) + unat (tombTTL m)"
  shows "\<exists>u. mget (mirror (snd (collectTombstones m))) k = Some u \<and> value_rank v \<le> value_rank u"
proof -
  have "k \<notin> set (expired_keys (now - tombTTL m) (mirror m))"
    using assms by (auto simp: expired_keys_iff cutoff_exact)
  then have "mget (fold mdel (expired_keys (fst (nowBootNS (wld m)) - tombTTL m) (mirror m)) (mirror m)) k = Some v"
    using assms by simp
  from growsD [OF collectTombstones_grows [OF assms(1)] this] show ?thesis .
qed

theorem grace_period_kept_witness:
  "\<exists>u. mget (mirror (snd (collectTombstones (demo_exited\<lparr>tombTTL := 100\<rparr>)))) shell_key = Some u \<and> Tombstone u"
proof -
  have "wfmap (mirror (demo_exited\<lparr>tombTTL := 100\<rparr>))" by (simp add: wfmap_def)
  from grace_period_kept [OF this _ refl, of shell_key shell_tomb]
  obtain u where "mget (mirror (snd (collectTombstones (demo_exited\<lparr>tombTTL := 100\<rparr>)))) shell_key = Some u"
    "value_rank shell_tomb \<le> value_rank u"
    using demo_now(2) by (auto simp: shell_tomb_def shell_value_def)
  moreover have "Tombstone u"
    by (rule rank_le_Tombstone [OF calculation(2)]) (simp add: shell_tomb_def)
  ultimately show ?thesis by blast
qed

text \<open>
  C26: While the map operations work, no expired tombstone is left after a collection: its entry
  is gone from the mirror and from the kernel map, or the process has been found alive and
  entered again with the current generation.
\<close>

theorem expired_collected:
  assumes "maps_ok m" "wfmap (mirror m)" "mget (mirror m) k = Some v" "Tombstone v"
    and "Timestamp v < fst (nowBootNS (wld m)) - tombTTL m"
  shows "case mget (k_processes (wld (snd (collectTombstones m)))) k of
      None \<Rightarrow> mget (mirror (snd (collectTombstones m))) k = None
    | Some u \<Rightarrow> \<not> Tombstone u \<and> Generation u = generation m"
proof -
  obtain m' where m': "collectTombstones m = regularCleanupLocked m'" "maps_ok m'"
    "settings m' = settings m"
    "mirror m' = fold mdel (expired_keys (fst (nowBootNS (wld m)) - tombTTL m) (mirror m)) (mirror m)"
    by (rule collectTombstones_ok [OF assms(1,2)])
  have none: "mget (mirror m') k = None" using assms m'(4) by (simp add: expired_keys_iff)
  have wf: "wfmap (mirror m')" using assms(2) m'(4) by simp
  have "generation m' = generation m" using settingsD [OF m'(3)] by simp
  moreover have "mget (k_processes (wld (snd (regularCleanupLocked m')))) = mget (mirror (snd (regularCleanupLocked m')))"
    using maps_ok_regularCleanup [OF m'(2)] by (simp add: maps_ok_def synced_def)
  ultimately show ?thesis
    using regularCleanup_unknown [OF m'(2) wf none] m'(1)
    by (auto simp: fresh_def split: option.split)
qed

lemma demo_exited_expired:
  "Timestamp shell_tomb < fst (nowBootNS (wld demo_exited)) - tombTTL demo_exited"
  by (simp add: demo_now shell_tomb_def shell_value_def)

theorem expired_collected_witness:
  "case mget (k_processes (wld (snd (collectTombstones demo_exited)))) shell_key of
      None \<Rightarrow> mget (mirror (snd (collectTombstones demo_exited))) shell_key = None
    | Some u \<Rightarrow> \<not> Tombstone u \<and> Generation u = 1"
  using expired_collected [OF demo_maps_ok(2) _ _ _ demo_exited_expired, of shell_key]
  by (auto simp: shell_tomb_def wfmap_def split: option.splits)

text \<open>
  C27: Before the machine has been up for the grace period there is none: the cutoff wraps
  around, and a collection takes out every tombstone, however fresh.
\<close>

theorem early_collection_takes_all:
  assumes "maps_ok m" "wfmap (mirror m)" "mget (mirror m) k = Some v" "Tombstone v"
    and "now = fst (nowBootNS (wld m))" "now < tombTTL m" "Timestamp v \<le> now"
  shows "case mget (mirror (snd (collectTombstones m))) k of None \<Rightarrow> True | Some u \<Rightarrow> \<not> Tombstone u"
proof -
  obtain m' where m': "collectTombstones m = regularCleanupLocked m'" "maps_ok m'"
    "mirror m' = fold mdel (expired_keys (fst (nowBootNS (wld m)) - tombTTL m) (mirror m)) (mirror m)"
    by (rule collectTombstones_ok [OF assms(1,2)])
  have none: "mget (mirror m') k = None"
    using assms m'(3) cutoff_wraps [OF assms(6,7)] by (simp add: expired_keys_iff)
  have wf: "wfmap (mirror m')" using assms(2) m'(3) by simp
  show ?thesis
    using regularCleanup_unknown [OF m'(2) wf none] m'(1) by (auto simp: fresh_def split: option.split)
qed

theorem early_collection_takes_all_witness:
  "mget (mirror demo_exited) shell_key = Some shell_tomb \<and>
   unat (fst (nowBootNS (wld demo_exited))) - unat (Timestamp shell_tomb) = 50 \<and>
   (case mget (mirror (snd (collectTombstones demo_exited))) shell_key of
      None \<Rightarrow> True | Some u \<Rightarrow> \<not> Tombstone u)"
  using early_collection_takes_all [OF demo_maps_ok(2) _ _ _ refl, of shell_key shell_tomb]
  by (simp add: wfmap_def demo_now shell_tomb_def shell_value_def)

text \<open>
  C28: After the search for dead processes, every entry that is still live belongs to a process
  \<^verbatim>\<open>/proc\<close> shows with the same start time, if \<^verbatim>\<open>/proc\<close> did not change during the search.
\<close>

theorem dead_processes_tombstoned:
  assumes "wfmap (mirror m)" "static_fs fs (wld m)"
    and "mget (mirror (tombstoneDeadProcessesLocked m)) k = Some v" "\<not> Tombstone v"
  shows "shown fs k"
  using assms by (rule tombstoneDead_live_shown)

lemma demo_marked_static: "static_fs demo_fs (wld demo_marked)"
  by (simp add: static_fs_def demo_marked_def demo_world_def)

theorem dead_processes_tombstoned_witness:
  "case mget (mirror (tombstoneDeadProcessesLocked (demo_marked\<lparr>mirror := [(child_key, shell_value)]\<rparr>))) child_key of
      None \<Rightarrow> True | Some v \<Rightarrow> Tombstone v"
proof -
  have "\<not> shown demo_fs child_key"
    by (simp add: shown_def demo_fs_def proc_path_def number_eval char_of_def bit_0)
  then show ?thesis
    using dead_processes_tombstoned [of "demo_marked\<lparr>mirror := [(child_key, shell_value)]\<rparr>" demo_fs child_key]
      demo_marked_static
    by (auto simp: wfmap_def split: option.split)
qed

text \<open>
  The event loop ends only when its reader is closed; until then it survives read errors
  and records it cannot parse, counts the events it handles modulo the collection interval,
  and keeps the kernel map equal to the mirror.
\<close>

lemma event_loop:
  assumes "maps_ok m" "wfmap (mirror m)" "0 < tcev" "eventCounter m < tcev"
  shows "(fst (runEvents tcev reads m) \<longleftrightarrow> RingClosed \<in> set reads) \<and>
    unat (eventCounter (snd (runEvents tcev reads m))) =
      (unat (eventCounter m) + events_read reads) mod unat tcev \<and>
    mget (k_processes (wld (snd (runEvents tcev reads m)))) = mget (mirror (snd (runEvents tcev reads m)))"
  using runEvents_returns [of tcev reads m] runEvents_counter_mod [OF assms(3,4), of reads]
    runEvents_ok [OF assms(1,2), of tcev reads]
  by (simp add: maps_ok_def synced_def)

lemma event_loop_example:
  "unat (eventCounter (snd (runEvents 2
      [RingError, RingRecord (Some (demo_event eventExit shell_key zero_key)), RingRecord None] demo_marked))) = 1"
  using event_loop [OF demo_maps_ok(1), of 2
      "[RingError, RingRecord (Some (demo_event eventExit shell_key zero_key)), RingRecord None]"]
  by (simp add: wfmap_def demo_marked_def demo_daemon_eq)

section \<open>Reading /proc\<close>

text \<open>
  C29: The parser of \<^verbatim>\<open>/proc/<pid>/stat\<close> finds the parent and the start time whatever the process
  name contains, brackets and blanks included: it reads them back from every line that has
  the name, a closing bracket and then at least twenty fields.
\<close>

theorem stat_line_parsed:
  assumes "20 \<le> length fs" "\<forall>t \<in> set fs. t \<noteq> [] \<and> (\<forall>c \<in> set t. plain c \<and> c \<noteq> CHR '')'')"
    and "fs ! 1 = dec (unat ppid)" "fs ! 19 = dec (unat startTime)"
  shows "parseProcStat (pre @ '') '' @ join_with '' '' fs) = Inr (ppid, startTime)"
  using assms by (rule parseProcStat_line)

theorem stat_line_parsed_witness:
  "parseProcStat (''42 (a) (b'' @ '') '' @
     join_with '' '' ([''S'', dec 1] @ replicate 17 ''0'' @ [dec 77])) = Inr (1, 77)"
proof (rule stat_line_parsed)
  show "\<forall>t \<in> set ([''S'', dec 1] @ replicate 17 ''0'' @ [dec 77]). t \<noteq> [] \<and> (\<forall>c \<in> set t. plain c \<and> c \<noteq> CHR '')'')"
    by (simp add: plain_def number_eval char_of_def bit_0 bit_Suc)
qed (simp_all add: nth_append)

text \<open>
  The process list names every process at most once, if no directory listing of \<^verbatim>\<open>/proc\<close>
  names a process id twice.
\<close>

lemma process_list_distinct:
  assumes "\<And>n. case fs_dir (os_fs w n) of None \<Rightarrow> True | Some es \<Rightarrow> distinct (dir_pids es)"
    and "fst (listProcesses w) = Inr procs"
  shows "distinct (map (Tgid \<circ> pi_Key) procs)"
  using assms by (rule listProcesses_distinct)

lemma process_list_distinct_example:
  "fst (listProcesses demo_world) = Inr [init_info, shell_info] \<and>
   distinct (map (Tgid \<circ> pi_Key) [init_info, shell_info])"
proof -
  have run: "fst (listProcesses demo_world) = Inr [init_info, shell_info]"
    using listProcesses_value [OF demo_static] by (simp add: demo_listed)
  have "case fs_dir (os_fs demo_world n) of None \<Rightarrow> True | Some es \<Rightarrow> distinct (dir_pids es)" for n
    by (simp add: demo_world_def demo_fs_def dir_pids_def number_eval)
  from process_list_distinct [OF this run] run show ?thesis by blast
qed

section \<open>Exact rules\<close>

text \<open>
  Normalising a valid policy keeps its mode and what it decides of every process, and leaves
  at most one rule for a name, every name storable in the kernel's comm buffer.
\<close>

lemma normalize_keeps_decisions:
  assumes "validateAndNormalizeKernelPolicy policy = Inr policy'"
  shows "kp_Mode policy' = kp_Mode policy \<and>
    exactCommCheck (kp_CommRules policy') info = exactCommCheck (kp_CommRules policy) info \<and>
    distinct (map cr_Comm (kp_CommRules policy')) \<and> length (kp_CommRules policy') \<le> MaxKernelCommRules \<and>
    (\<forall>r \<in> set (kp_CommRules policy'). validateExactComm (cr_Comm r) = None)"
  using normalize_normal [OF assms] by (simp add: exactCommCheck_decision normal_policy_def)

lemma normalize_keeps_decisions_example:
  "validateAndNormalizeKernelPolicy \<lparr>kp_Mode = 2, kp_CommRules =
       [\<lparr>cr_Comm = ''sh'', cr_Priority = 1, cr_Mark = 7\<rparr>, \<lparr>cr_Comm = ''sh'', cr_Priority = 3, cr_Mark = 9\<rparr>]\<rparr> =
     Inr \<lparr>kp_Mode = 2, kp_CommRules = [\<lparr>cr_Comm = ''sh'', cr_Priority = 3, cr_Mark = 9\<rparr>]\<rparr> \<and>
   exactCommCheck [\<lparr>cr_Comm = ''sh'', cr_Priority = 3, cr_Mark = 9\<rparr>] shell_info =
     exactCommCheck [\<lparr>cr_Comm = ''sh'', cr_Priority = 1, cr_Mark = 7\<rparr>,
       \<lparr>cr_Comm = ''sh'', cr_Priority = 3, cr_Mark = 9\<rparr>] shell_info"
proof -
  have norm: "validateAndNormalizeKernelPolicy \<lparr>kp_Mode = 2, kp_CommRules =
       [\<lparr>cr_Comm = ''sh'', cr_Priority = 1, cr_Mark = 7\<rparr>, \<lparr>cr_Comm = ''sh'', cr_Priority = 3, cr_Mark = 9\<rparr>]\<rparr> =
     Inr \<lparr>kp_Mode = 2, kp_CommRules = [\<lparr>cr_Comm = ''sh'', cr_Priority = 3, cr_Mark = 9\<rparr>]\<rparr>"
    by (simp add: validateAndNormalizeKernelPolicy_def validateExactComm_def)
  from normalize_keeps_decisions [OF norm, of shell_info] norm show ?thesis by simp
qed

text \<open>
  C30: Looking up a process name in the rule table of an installed policy decides as the
  userspace matcher does on the policy the caller gave: a hit has the matcher's priority and
  mark, a miss is a miss.
\<close>

theorem kernel_lookup_agrees:
  assumes "validateAndNormalizeKernelPolicy policy = Inr policy'"
    and "makeCommRuleKey g (pi_Comm info) = Inr key"
  shows "exactCommCheck (kp_CommRules policy) info =
    (case mget (rule_entries g (kp_CommRules policy')) key of
       None \<Rightarrow> (0, 0, False) | Some v \<Rightarrow> (rv_Priority v, rv_Mark v, True))"
proof -
  have np: "normal_policy policy'" by (rule normalize_normal(1) [OF assms(1)])
  have ok: "validateExactComm (pi_Comm info) = None"
    using assms(2) by (auto simp: makeCommRuleKey_def split: option.splits)
  then have "key = \<lparr>rk_Generation = g, rk_Comm = comm_bytes (pi_Comm info)\<rparr>"
    using assms(2) by (simp add: makeCommRuleKey_ok)
  then have "mget (rule_entries g (kp_CommRules policy')) key =
      map_option rule_value (deciding_rule (pi_Comm info) (kp_CommRules policy))"
    using np ok normalize_normal(3) [OF assms(1), of "pi_Comm info"]
    by (simp add: rule_entries_lookup normal_policy_def deciding_rule_distinct [symmetric])
  then show ?thesis
    by (cases "deciding_rule (pi_Comm info) (kp_CommRules policy)")
      (simp_all add: exactCommCheck_decision rule_value_def)
qed

theorem kernel_lookup_agrees_witness:
  "exactCommCheck (kp_CommRules demo_policy) shell_info = (5, 7, True)"
proof -
  have "validateExactComm (pi_Comm shell_info) = None" by (simp add: validateExactComm_def)
  from kernel_lookup_agrees [OF demo_policy_normal makeCommRuleKey_ok [OF this, of 2]] show ?thesis
    by (simp add: demo_policy_def rule_entries_def rule_key_def rule_value_def)
qed

text \<open>
  The key of a rule round-trips: it is the generation and sixteen bytes from which the name
  is read back; no key is made exactly when the name has a NUL byte or more than fifteen bytes.
\<close>

lemma comm_key_roundtrip:
  "case makeCommRuleKey g comm of
     Inr key \<Rightarrow> rk_Generation key = g \<and> length (rk_Comm key) = 16 \<and> int8String (rk_Comm key) = comm
   | Inl e \<Rightarrow> CHR 0x00 \<in> set comm \<or> 15 < length comm"
proof (cases "validateExactComm comm")
  case None
  then show ?thesis by (simp add: makeCommRuleKey_ok length_comm_bytes int8String_comm_bytes)
next
  case (Some e)
  then show ?thesis by (auto simp: makeCommRuleKey_def validateExactComm_def split: if_splits)
qed

section \<open>The rule tracker\<close>

text \<open>
  C31: Registering a rule gives an id no registered rule has; afterwards a process carries the
  id exactly when the rule matches it or one of its tracked ancestors, and every other id is
  carried where it was.
\<close>

theorem register_rule:
  assumes "tracker_reachable t" "RegisterRule (Some rule) t = Some (rid, t')"
  shows "mget (tr_rules t) rid = None \<and> mget (tr_rules t') = (mget (tr_rules t))(rid \<mapsto> rule) \<and>
    (\<forall>k. Matches k rid t' \<longleftrightarrow> holds rule t k) \<and>
    (\<forall>k r. r \<noteq> rid \<longrightarrow> Matches k r t' = Matches k r t)"
proof -
  note ok = tracker_reachable_ok [OF assms(1)]
  show ?thesis
    using RegisterRule_result(1,2) [OF ok assms(2)] RegisterRule_Matches [OF ok assms(2)] by blast
qed

text \<open>
  A registration returns, with an id other than zero, as long as fewer than all ids are
  taken: the search for a free id ends.
\<close>

lemma register_returns:
  assumes "tracker_reachable t" "length (tr_rules t) < 2 ^ 64 - 1"
  shows "\<exists>rid t'. RegisterRule rule t = Some (rid, t') \<and> rid \<noteq> 0"
  using RegisterRule_returns [OF tracker_reachable_ok [OF assms(1)] assms(2)] .

lemma register_returns_example:
  "\<exists>rid t'. RegisterRule None New = Some (rid, t') \<and> rid \<noteq> 0"
  by (rule register_returns [OF tracker_new]) (simp add: New_def)

lemma demo_registered: "\<exists>rid t'. RegisterRule (Some (\<lambda>info. pi_Comm info = ''init''))
    (ApplyProcess shell_info (ApplyProcess init_info New)) = Some (rid, t')"
proof -
  let ?t = "ApplyProcess shell_info (ApplyProcess init_info New)"
  have "tracker_ok ?t" by (rule tracker_reachable_ok [OF tracker_apply [OF tracker_apply [OF tracker_new]]])
  moreover have "length (tr_rules ?t) < 2 ^ 64 - 1" by (simp add: ApplyProcess_def New_def Let_def)
  ultimately show ?thesis using RegisterRule_returns [of ?t] by blast
qed

lemma demo_holds:
  defines "t \<equiv> ApplyProcess shell_info (ApplyProcess init_info New)"
  shows "holds (\<lambda>info. pi_Comm info = ''init'') t init_key" "holds (\<lambda>info. pi_Comm info = ''init'') t shell_key"
proof -
  have procs: "mget (tr_processes t) init_key = Some \<lparr>en_info = init_info, en_ids = {}\<rparr>"
    "mget (tr_processes t) shell_key = Some \<lparr>en_info = shell_info, en_ids = {}\<rparr>"
    "mget (latestPID t) 1 = Some init_key"
    by (simp_all add: t_def ApplyProcess_def New_def Let_def parent_ids_def matching_ids_def)
  show init: "holds (\<lambda>info. pi_Comm info = ''init'') t init_key" by (rule holds_direct [OF procs(1)]) simp
  show "holds (\<lambda>info. pi_Comm info = ''init'') t shell_key"
    by (rule holds_child [OF procs(2) _ init]) (simp add: procs(3))
qed

theorem register_rule_witness:
  "\<exists>rid t'. RegisterRule (Some (\<lambda>info. pi_Comm info = ''init''))
      (ApplyProcess shell_info (ApplyProcess init_info New)) = Some (rid, t') \<and>
    Matches init_key rid t' \<and> Matches shell_key rid t'"
proof -
  obtain rid t' where run: "RegisterRule (Some (\<lambda>info. pi_Comm info = ''init''))
      (ApplyProcess shell_info (ApplyProcess init_info New)) = Some (rid, t')"
    using demo_registered by blast
  from register_rule [OF tracker_apply [OF tracker_apply [OF tracker_new]] run] demo_holds run
  show ?thesis by blast
qed

text \<open>
  Unregistering takes exactly the one id away, everywhere; every other id stays, and an
  unknown id changes nothing.
\<close>

lemma unregister_rule:
  "Matches k r (snd (UnregisterRule rid t)) \<longleftrightarrow>
     Matches k r t \<and> (r = rid \<longrightarrow> mget (tr_rules t) rid = None)"
  by (rule UnregisterRule_Matches)

lemma unregister_rule_example: "\<not> Matches init_key 1 (snd (UnregisterRule 1
    \<lparr>nextID = 2, tr_rules = [(1, \<lambda>info. True)],
     tr_processes = [(init_key, \<lparr>en_info = init_info, en_ids = {1}\<rparr>)], latestPID = [(1, init_key)]\<rparr>))"
  by (simp add: unregister_rule)

text \<open>
  Observing a process gives it the ids of the rules that match it and those its latest
  known parent carries, and changes no other process.
\<close>

lemma apply_process:
  "(Matches (pi_Key info) r (ApplyProcess info t) \<longleftrightarrow>
      (\<exists>rule. (r, rule) \<in> set (tr_rules t) \<and> rule info) \<or>
      (\<exists>pk. mget (latestPID t) (pi_PPID info) = Some pk \<and> Matches pk r t)) \<and>
   (k \<noteq> pi_Key info \<longrightarrow> Matches k r (ApplyProcess info t) = Matches k r t)"
  using ApplyProcess_Matches by blast

lemma apply_process_example:
  "Matches shell_key 1 (ApplyProcess shell_info
    \<lparr>nextID = 2, tr_rules = [(1, \<lambda>info. pi_Comm info = ''init'')],
     tr_processes = [(init_key, \<lparr>en_info = init_info, en_ids = {1}\<rparr>)], latestPID = [(1, init_key)]\<rparr>)"
  using apply_process [of shell_info 1 "\<lparr>nextID = 2, tr_rules = [(1, \<lambda>info. pi_Comm info = ''init'')],
     tr_processes = [(init_key, \<lparr>en_info = init_info, en_ids = {1}\<rparr>)], latestPID = [(1, init_key)]\<rparr>" init_key]
  by (simp add: Matches_def)

text \<open>
  C32: In every reachable tracker the ids a process carries are listed in ascending order without
  repetition, all of them ids of registered rules, none of them zero, and the latest entry of a
  process id is a tracked process with that id.
\<close>

theorem tracker_invariant:
  assumes "tracker_reachable t"
  shows "sorted (RuleIDs key t) \<and> distinct (RuleIDs key t) \<and>
    set (RuleIDs key t) \<subseteq> fst ` set (tr_rules t) \<and> 0 \<notin> set (RuleIDs key t) \<and>
    (\<forall>pid k. mget (latestPID t) pid = Some k \<longrightarrow> Tgid k = pid \<and> mget (tr_processes t) k \<noteq> None)"
proof -
  have ok: "tracker_ok t" by (rule tracker_reachable_ok [OF assms])
  have "mget (tr_rules t) r \<noteq> None" if "Matches key r t" for r using Matches_rule [OF ok that] .
  then have "set (RuleIDs key t) \<subseteq> fst ` set (tr_rules t)" "0 \<notin> set (RuleIDs key t)"
    using ok by (auto simp: RuleIDs_Matches [OF ok] tracker_ok_def map_of_eq_None_iff)
  then show ?thesis
    using RuleIDs_Matches(2,3) [OF ok] ok by (auto simp: tracker_ok_def latest_ok_def)
qed

theorem tracker_invariant_witness:
  "\<exists>rid t'. RegisterRule (Some (\<lambda>info. pi_Comm info = ''init''))
      (ApplyProcess shell_info (ApplyProcess init_info New)) = Some (rid, t') \<and>
    RuleIDs shell_key t' = [rid] \<and> rid \<noteq> 0"
proof -
  let ?t = "ApplyProcess shell_info (ApplyProcess init_info New)"
  obtain rid t' where run: "RegisterRule (Some (\<lambda>info. pi_Comm info = ''init'')) ?t = Some (rid, t')"
    using demo_registered by blast
  have reach: "tracker_reachable ?t" by (rule tracker_apply [OF tracker_apply [OF tracker_new]])
  note ok = tracker_reachable_ok [OF reach]
  have "\<not> Matches shell_key r ?t" for r
    using Matches_rule [OF ok, of shell_key r] by (auto simp: ApplyProcess_def New_def Let_def)
  then have "Matches shell_key r t' \<longleftrightarrow> r = rid" for r
    using RegisterRule_Matches [OF ok run, where k = shell_key] demo_holds(2) by blast
  then have ids: "set (RuleIDs shell_key t') = {rid}"
    using RuleIDs_Matches(1) [OF tracker_reachable_ok [OF tracker_register [OF reach run]]] by simp
  note inv = tracker_invariant [OF tracker_register [OF reach run], of shell_key]
  have "length (RuleIDs shell_key t') = 1" using inv distinct_card [of "RuleIDs shell_key t'"] by (simp add: ids)
  then have "RuleIDs shell_key t' = [rid]" using ids by (auto simp: length_Suc_conv)
  moreover have "rid \<noteq> 0" using inv ids by auto
  ultimately show ?thesis using run by blast
qed

section \<open>Socket marks\<close>

text \<open>
  The conversions between daemon marks and socket marks: a socket mark survives the way
  to a daemon mark and back and the way through its text; back from a socket mark, a daemon
  mark keeps its upper half and loses its lower one.
\<close>

lemma fwmark_roundtrip:
  "FromMark (ToMark fwmark) = fwmark \<and> Parse (Format fwmark) = Inr fwmark \<and>
   ToMark (FromMark mark) = mark AND NOT (mask 32)"
  by (simp add: FromMark_ToMark Parse_Format ToMark_FromMark)

text \<open>
  C33: On a machine where \<^verbatim>\<open>/proc\<close> and the open files do not change and socket marks can be set, take an
  update for a live process that \<^verbatim>\<open>/proc\<close> shows and whose descriptors can be listed and duplicated:
  afterwards every socket the process holds bears the mark of the update and no other socket has
  changed, and a second run changes nothing. And while the kernel's map holds the value of the
  update, the cgroup programs go by it, whatever mark a socket has: a new socket, and one that is
  connected, gets the mark of the update, or keeps its own if that is zero, and a connection is
  refused exactly when there is a mark and it cannot be set.
\<close>

theorem sockets_follow_update:
  assumes "static_fs fs (fw_os st)" "static_fds v (fw_sk st)" "markable v"
    and dir: "fv_dir v (Tgid key) = Inr names" and pidfd: "fv_pidfd v (Tgid key) = None"
    and entry: "mget procs key = Some value" "\<not> Tombstone value" and live: "shown fs key"
    and run: "applyProcessUpdate (key, value) logReport st = (res, st')"
  shows "sk_mark (fw_sk st') = (\<lambda>fd. if fd \<in> process_sockets v (Tgid key) names
      then update_mark value else sk_mark (fw_sk st) fd) \<and>
    Marked (fst (fst (SetProcessSocketsMarkReport (Tgid key) (update_mark value) (fw_sk st')))) = 0 \<and>
    (\<forall>mark. fwmark_sock_create procs key mark = (if update_mark value = 0 then mark else update_mark value)) \<and>
    (\<forall>ok mark. apply_current_process_fwmark procs key ok mark =
      (if update_mark value = 0 then (True, mark) else if ok then (True, update_mark value) else (False, mark)))"
proof (intro conjI allI)
  have st': "st' = snd (applyProcessUpdate (key, value) logReport st)" by (simp add: run)
  show marks: "sk_mark (fw_sk st') = (\<lambda>fd. if fd \<in> process_sockets v (Tgid key) names
      then update_mark value else sk_mark (fw_sk st) fd)"
    using applyProcessUpdate_marks [OF assms(1,2,3) dir pidfd, of "value" logReport] entry live
    by (simp add: st')
  have "static_fds v (fw_sk st')"
    using assms(1,2,3) by (auto simp: st' applyProcessUpdate_def SetProcessSockets_static split_beta Let_def)
  from SetProcessSockets_idle [OF this assms(3) dir pidfd] marks
  show "Marked (fst (fst (SetProcessSocketsMarkReport (Tgid key) (update_mark value) (fw_sk st')))) = 0" by simp
qed (rule programs_agree [OF entry])+

theorem sockets_follow_update_witness:
  "\<exists>res st'. applyProcessUpdate (shell_key, shell_value\<lparr>Mark := 0x900000000\<rparr>) True demo_sockets = (res, st') \<and>
     sk_mark (fw_sk st') 3 = 9 \<and> sk_mark (fw_sk st') 0 = 0 \<and>
     fwmark_sock_create [(shell_key, shell_value\<lparr>Mark := 0x900000000\<rparr>)] shell_key 4 = 9"
proof -
  let ?sv = "shell_value\<lparr>Mark := 0x900000000\<rparr>"
  let ?procs = "[(shell_key, ?sv)]"
  obtain res st' where run: "applyProcessUpdate (shell_key, ?sv) True demo_sockets = (res, st')"
    by (cases "applyProcessUpdate (shell_key, ?sv) True demo_sockets")
  have view: "fv_dir demo_view (Tgid shell_key) = Inr [''0'', ''3'']" "fv_pidfd demo_view (Tgid shell_key) = None"
    by (simp_all add: demo_view_def)
  have entry: "mget ?procs shell_key = Some ?sv" "\<not> Tombstone ?sv"
    by (simp_all add: shell_value_def)
  note follow = sockets_follow_update [OF demo_sockets_static view entry demo_shell_shown run]
  have nine: "update_mark ?sv = 9" by (simp add: shell_value_def update_mark_def FromMark_def)
  have "sk_mark (fw_sk st') = (\<lambda>fd. if fd = 3 then update_mark ?sv else 0)"
    using conjunct1 [OF follow] by (simp add: demo_shell_sockets demo_sockets_unmarked cong: if_cong)
  moreover have "fwmark_sock_create ?procs shell_key 4 = 9" using follow by (simp add: nine)
  ultimately show ?thesis using run by (simp add: nine)
qed

section \<open>The checker of the command line\<close>

text \<open>
  C34: A name expression that is promoted to a kernel rule matches exactly the name of the
  rule, which the rule table can hold, when its literals have no surrogate, no rune outside
  Unicode and no U+FFFD.
\<close>

theorem promoted_expression:
  assumes "ExactCommFromRegexp parse pattern = Inr (comm, True)" "parse pattern = Inr re" "plain_runes re"
  shows "(MatchString same re s \<longleftrightarrow> s = comm) \<and> validateExactComm comm = None"
proof -
  have "exact_comm_of re = (comm, True)" using assms(1,2) by (simp add: ExactCommFromRegexp_def)
  then show ?thesis using promoted_matches [OF _ assms(3)] promoted_valid by blast
qed

theorem promoted_expression_witness:
  "\<forall>s. MatchString (=) shell_re s \<longleftrightarrow> s = ''sh''"
proof
  fix s
  have "plain_runes shell_re" by (simp add: plain_runes_def rune_valid_def)
  from promoted_expression [OF demo_exact(1) demo_parse_shell(1) this, of "(=)" s]
  show "MatchString (=) shell_re s \<longleftrightarrow> s = ''sh''" by simp
qed

text \<open>
  C35: The policy the command line compiles is one the daemon accepts, and if the name patterns have
  no surrogate, no rune outside Unicode and no U+FFFD among their literals, its rules decide for a
  process with a name as the checker does: what they mark the checker marks alike, in the
  authoritative mode they mark all the checker marks, and in the userspace mode they mark nothing.
  (C40 shows what becomes of the two conditions' exceptions.)
\<close>

theorem compiled_policy_agrees:
  assumes "compileDefaultKernelPolicy parse same rules priority mark = Inr c" "plain_patterns parse rules"
    and "pi_Comm info \<noteq> ''''"
  shows "\<exists>p. validateAndNormalizeKernelPolicy (cp_Policy c) = Inr p \<and>
    (let kernel = exactCommCheck (kp_CommRules p) info; user = cp_Check c info
     in (matched kernel \<longrightarrow> user = kernel) \<and>
        (kp_Mode p = KernelPolicyAuthoritative \<longrightarrow> matched user = matched kernel) \<and>
        (kp_Mode p = KernelPolicyUserspaceOnly \<longrightarrow> \<not> matched kernel))"
proof -
  obtain p where p: "validateAndNormalizeKernelPolicy (cp_Policy c) = Inr p"
    using compiled_accepted [OF assms(1)] by blast
  note norm = normalize_normal [OF p]
  have same: "exactCommCheck (kp_CommRules p) info = exactCommCheck (kp_CommRules (cp_Policy c)) info"
    using norm(3) by (simp add: exactCommCheck_decision)
  have "kp_Mode p = KernelPolicyUserspaceOnly \<longrightarrow> kp_CommRules p = []"
    using norm(1) by (simp add: normal_policy_def)
  then have "kp_Mode p = KernelPolicyUserspaceOnly \<longrightarrow> \<not> matched (exactCommCheck (kp_CommRules p) info)"
    by (auto simp: exactCommCheck_def)
  then show ?thesis
    using p same norm(2) compiled_sound [OF assms] compiled_authoritative [OF assms(1,2), of info]
    by (auto simp: Let_def)
qed

theorem compiled_policy_agrees_witness:
  "\<exists>c. compileDefaultKernelPolicy demo_parse (=) (demo_rules ''^sh$'') 5 7 = Inr c \<and>
     matched (cp_Check c shell_info) \<and> \<not> matched (cp_Check c init_info)"
proof -
  obtain c where c: "compileDefaultKernelPolicy demo_parse (=) (demo_rules ''^sh$'') 5 7 = Inr c"
    and pol: "cp_Policy c = \<lparr>kp_Mode = 2, kp_CommRules = [\<lparr>cr_Comm = ''sh'', cr_Priority = 5, cr_Mark = 7\<rparr>]\<rparr>"
    using demo_compiled [of "(=)"] by blast
  have norm: "validateAndNormalizeKernelPolicy (cp_Policy c) = Inr (cp_Policy c)"
    by (simp add: pol validateAndNormalizeKernelPolicy_def validateExactComm_def)
  have agree: "matched (cp_Check c info) = matched (exactCommCheck (kp_CommRules (cp_Policy c)) info)"
    if "pi_Comm info \<noteq> []" for info
  proof -
    have "kp_Mode (cp_Policy c) = KernelPolicyAuthoritative" by (simp add: pol)
    then show ?thesis using compiled_policy_agrees [OF c demo_plain that] norm by (simp add: Let_def)
  qed
  have "matched (cp_Check c shell_info)" "\<not> matched (cp_Check c init_info)"
    by (simp_all add: agree) (simp_all add: pol exactCommCheck_def)
  with c show ?thesis by blast
qed

section \<open>The command and its control server\<close>

text \<open>
  C36: Whatever has happened to the running command (events, rule updates, tracked rules
  registered and removed, failures of system calls), whenever no rule update is under way the kernel
  and the daemon decide by the rules the control server keeps: these compile to a policy whose mode
  is the kernel's, whose rule for a process name is what the active generation of the rule table
  says, and whose checker is the daemon's.
\<close>

theorem control_consistent:
  assumes "fresh_tables w" "main_start parse same flags w = Some (Inr s0)" "control_steps parse same s0 s"
    and "makeCommRuleKey (generation (ct_daemon s)) (pi_Comm info) = Inr key"
  shows "\<exists>c. compileDefaultKernelPolicy parse same (cc_Rules (ct_config s)) (cc_MarkPriority (ct_config s))
        (cc_MarkValue (ct_config s)) = Inr c \<and>
      ps_Mode (k_active_policy (wld (ct_daemon s))) = kp_Mode (cp_Policy c) \<and>
      exactCommCheck (kp_CommRules (cp_Policy c)) info =
        (case mget (k_comm_rules (wld (ct_daemon s))) key of
           None \<Rightarrow> (0, 0, False) | Some v \<Rightarrow> (rv_Priority v, rv_Mark v, True)) \<and>
      fst (check (ct_daemon s) info c') = cp_Check c info"
proof -
  have inv: "control_inv parse same s" by (rule control_steps_inv [OF assms(3) main_start_inv [OF assms(1,2)]])
  obtain c where c: "compileDefaultKernelPolicy parse same (cc_Rules (ct_config s)) (cc_MarkPriority (ct_config s))
       (cc_MarkValue (ct_config s)) = Inr c"
    "ps_Mode (k_active_policy (wld (ct_daemon s))) = kp_Mode (cp_Policy c)"
    "exactCommCheck (kp_CommRules (cp_Policy c)) info =
      (case mget (k_comm_rules (wld (ct_daemon s))) key of
         None \<Rightarrow> (0, 0, False) | Some v \<Rightarrow> (rv_Priority v, rv_Mark v, True))"
    and checks: "check (ct_daemon s) = combinedCheck True (Some (cp_Check c))"
    by (rule control_inv_kernel [OF inv assms(4)])
  have "fst (check (ct_daemon s) info c') = cp_Check c info" by (simp only: checks combinedCheck_result)
  with c show ?thesis by (intro exI [of _ c] conjI)
qed

theorem control_consistent_witness:
  "\<exists>s0. main_start demo_parse (=) demo_flags demo_world = Some (Inr s0) \<and>
     ps_Mode (k_active_policy (wld (ct_daemon s0))) = 2 \<and>
     fst (check (ct_daemon s0) shell_info (env (ct_daemon s0))) = (5, 7, True)"
proof -
  obtain s0 where s0: "main_start demo_parse (=) demo_flags demo_world = Some (Inr s0)"
    and cfg: "ct_config s0 = main_config demo_flags" by (rule demo_started)
  have config: "cc_Rules (ct_config s0) = demo_rules ''^sh$''" "cc_MarkPriority (ct_config s0) = 5"
    "cc_MarkValue (ct_config s0) = 7" by (simp_all add: cfg main_config_def demo_flags_def)
  obtain c where comp: "compileDefaultKernelPolicy demo_parse (=) (demo_rules ''^sh$'') 5 7 = Inr c"
    and pol: "cp_Policy c = \<lparr>kp_Mode = 2, kp_CommRules = [\<lparr>cr_Comm = ''sh'', cr_Priority = 5, cr_Mark = 7\<rparr>]\<rparr>"
    using demo_compiled [of "(=)"] by blast
  have key: "makeCommRuleKey (generation (ct_daemon s0)) (pi_Comm shell_info) =
      Inr \<lparr>rk_Generation = generation (ct_daemon s0), rk_Comm = comm_bytes ''sh''\<rparr>"
    by (simp add: demo_shell_key)
  from control_consistent [OF demo_fresh_tables s0 ctls_refl key, of "env (ct_daemon s0)"]
  have now: "ps_Mode (k_active_policy (wld (ct_daemon s0))) = 2"
    "fst (check (ct_daemon s0) shell_info (env (ct_daemon s0))) = cp_Check c shell_info"
    by (auto simp: config comp pol)
  have "exactCommCheck (kp_CommRules (cp_Policy c)) shell_info = (5, 7, True)"
    by (simp add: pol exactCommCheck_def)
  then have "cp_Check c shell_info = (5, 7, True)"
    using compiled_sound [OF comp demo_plain, of shell_info] by simp
  then have decided: "fst (check (ct_daemon s0) shell_info (env (ct_daemon s0))) = (5, 7, True)" by (simp only: now(2))
  show ?thesis by (intro exI [of _ s0] conjI s0 now(1) decided)
qed

text \<open>
  C37: A request to track a rule that is answered with the rule has added it, under an id no
  listed rule had; one that is answered with an error, also when the traversal after the
  registration fails, leaves the list as it was. The list is sorted by id.
\<close>

theorem register_handler:
  fixes parse :: "string \<Rightarrow> 'e + regexp"
  assumes "fresh_tables w" "main_start parse same flags w = Some (Inr s0)" "control_steps parse same s0 s"
    and "handleRegister parse same r s = Some (resp, s')"
  shows "(case resp of
      Created rule \<Rightarrow> (parseMultiRuleUpdate r :: 'e control_error + default_check_rules) = Inr (jr_Rule rule) \<and>
        jr_ID rule \<notin> jr_ID ` set (manager_List (manager s)) \<and>
        set (manager_List (manager s')) = insert rule (set (manager_List (manager s)))
    | _ \<Rightarrow> set (manager_List (manager s')) = set (manager_List (manager s))) \<and>
    sorted_wrt (<) (map jr_ID (manager_List (manager s')))"
proof -
  have inv: "control_inv parse same s" by (rule control_steps_inv [OF assms(3) main_start_inv [OF assms(1,2)]])
  have inv': "control_inv parse same s'" by (rule control_steps_inv [OF handler_steps(1) [OF assms(4)] inv])
  show ?thesis
    using handleRegister_list [OF inv assms(4)] manager_List_sorted [OF control_inv_manager [OF inv']] by blast
qed

theorem register_handler_witness:
  "\<exists>s0 resp s'. main_start demo_parse (=) demo_flags demo_world = Some (Inr s0) \<and>
     handleRegister demo_parse (=) demo_request s0 = Some (resp, s') \<and>
     sorted_wrt (<) (map jr_ID (manager_List (manager s')))"
proof -
  obtain s0 where s0: "main_start demo_parse (=) demo_flags demo_world = Some (Inr s0)" by (rule demo_started)
  obtain resp s' where run: "handleRegister demo_parse (=) demo_request s0 = Some (resp, s')"
    using demo_register [OF s0] by blast
  from register_handler [OF demo_fresh_tables s0 ctls_refl run] s0 run show ?thesis by blast
qed

text \<open>
  C38: A request to the control server that is not \<^verbatim>\<open>POST\<close> or \<^verbatim>\<open>DELETE\<close> changes nothing the program
  keeps; one that is answered with an error changes no configuration, and no tracked rule either, but for
  a \<^verbatim>\<open>DELETE\<close> that is answered with status 500: its rule is gone. Every request is answered
  as long as fewer than all rule ids are taken.
\<close>

theorem requests_change:
  assumes "fresh_tables w" "main_start parse same flags w = Some (Inr s0)" "control_steps parse same s0 s"
    and "length (tr_rules (mm_tracker (manager s))) < 2 ^ 64 - 1"
  shows "\<exists>reply s'. handle parse same r s = Some (reply, s') \<and>
    (sr_method r \<notin> {''POST'', ''DELETE''} \<longrightarrow> shown_state s' = shown_state s) \<and>
    (400 \<le> status reply \<longrightarrow> ct_config s' = ct_config s \<and>
      (mget (mm_rules (manager s')) = mget (mm_rules (manager s)) \<or>
       (sr_method r = ''DELETE'' \<and> status reply = 500 \<and>
        (\<exists>ruleID. sr_path r = [''multirules'', sr_path r ! 1] \<and> ParseUint 10 64 (sr_path r ! 1) = Inr ruleID \<and>
           mget (mm_rules (manager s)) (of_nat ruleID) \<noteq> None \<and>
           mget (mm_rules (manager s')) = (mget (mm_rules (manager s)))(of_nat ruleID := None)))))"
proof -
  have inv: "control_inv parse same s" by (rule control_steps_inv [OF assms(3) main_start_inv [OF assms(1,2)]])
  obtain reply s' where run: "handle parse same r s = Some (reply, s')"
    using handle_answers [of r parse same s] handleRegister_returns [OF inv assms(4), of "sr_body r"] by blast
  from handle_safe [OF _ run] handle_refused [OF inv run] show ?thesis
    by (intro exI [of _ reply] exI [of _ s'] conjI impI run) assumption+
qed

theorem requests_change_witness:
  "\<exists>s0 reply s'. main_start demo_parse (=) demo_flags demo_world = Some (Inr s0) \<and>
     handle demo_parse (=) \<lparr>sr_method = ''GET'', sr_path = [''state''], sr_body = demo_request, sr_time = ''now''\<rparr> s0 =
       Some (reply, s') \<and> shown_state s' = shown_state s0"
proof -
  obtain s0 where s0: "main_start demo_parse (=) demo_flags demo_world = Some (Inr s0)" by (rule demo_started)
  have "length (tr_rules (mm_tracker (manager s0))) < 2 ^ 64 - 1" by (simp add: demo_no_rules(2) [OF s0])
  from requests_change [OF demo_fresh_tables s0 ctls_refl this,
      of "\<lparr>sr_method = ''GET'', sr_path = [''state''], sr_body = demo_request, sr_time = ''now''\<rparr>"] s0
  show ?thesis by auto
qed

text \<open>
  C39: The state document lists the kernel's process map: one row for each entry, by ascending
  process identity, with the entry's value and the tracked rules of the process; its mode is
  the kernel's, its configuration the server's and its rules those of the tracker.
\<close>

theorem state_document:
  assumes "fresh_tables w" "main_start parse same flags w = Some (Inr s0)" "control_steps parse same s0 s"
    and "wfmap (k_processes (wld (ct_daemon s)))"
    and "daemonControlState parse same refreshedAt s = (Inr doc, s')"
  shows "js_Entries (jd_ProcessMap (jt_Dynamic doc)) =
      map (\<lambda>key. \<lparr>jx_Key = jsonKey key, jx_Value = jsonValue (the (mget (k_processes (wld (ct_daemon s))) key)),
                  jx_MatchedRules = RuleIDs key (mm_tracker (manager s))\<rparr>)
        (sort (mkeys (k_processes (wld (ct_daemon s))))) \<and>
    jp_Mode (jd_KernelPolicy (jt_Dynamic doc)) = mode_String (ps_Mode (k_active_policy (wld (ct_daemon s)))) \<and>
    jt_Config doc = ct_config s \<and> jd_MultiRules (jt_Dynamic doc) = manager_List (manager s)"
proof -
  have inv: "control_inv parse same s" by (rule control_steps_inv [OF assms(3) main_start_inv [OF assms(1,2)]])
  from daemonControlState_document [OF inv assms(4,5)] show ?thesis by simp
qed

theorem state_document_witness:
  "\<exists>s0 doc s'. main_start demo_parse (=) demo_flags demo_world = Some (Inr s0) \<and>
     daemonControlState demo_parse (=) ''now'' s0 = (Inr doc, s') \<and>
     jd_MultiRules (jt_Dynamic doc) = [] \<and> cc_MarkValue (jt_Config doc) = 7"
proof -
  obtain s0 where s0: "main_start demo_parse (=) demo_flags demo_world = Some (Inr s0)"
    and cfg: "ct_config s0 = main_config demo_flags" by (rule demo_started)
  obtain doc s' where run: "daemonControlState demo_parse (=) ''now'' s0 = (Inr doc, s')"
    using demo_document(1) [OF s0 cfg] by blast
  from state_document [OF demo_fresh_tables s0 ctls_refl demo_document(2) [OF s0 cfg] run]
  have "jd_MultiRules (jt_Dynamic doc) = []" "cc_MarkValue (jt_Config doc) = 7"
    by (simp_all add: manager_List_def demo_no_rules(1) [OF s0] cfg main_config_def demo_flags_def)
  with s0 run show ?thesis by blast
qed

text \<open>
  C40: The conditions of the properties of promoted names are needed. A policy with a pattern that is
  parsed as \<^verbatim>\<open>^$\<close> has a kernel rule for the empty name, while in the authoritative mode its checker
  matches no process without a name. A policy with a pattern that is parsed as an anchored U+FFFD
  has a kernel rule for the three bytes of that rune and none for the name that is the one byte FF,
  which its checker marks.
\<close>

theorem promotion_limits:
  assumes "compileDefaultKernelPolicy parse same rules priority mark = Inr c"
    and "validateAndNormalizeKernelPolicy (cp_Policy c) = Inr p"
    and "pattern \<in> set (splitRegexpList (RuleComm rules))"
  shows "(parse pattern = Inr empty_re \<longrightarrow>
      mget (rule_entries g (kp_CommRules p)) \<lparr>rk_Generation = g, rk_Comm = comm_bytes ''''\<rparr> =
        Some \<lparr>rv_Priority = priority, rv_Mark = mark\<rparr> \<and>
      (kp_Mode p = KernelPolicyAuthoritative \<longrightarrow> \<not> matched (cp_Check c (info\<lparr>pi_Comm := ''''\<rparr>)))) \<and>
    (parse pattern = Inr replacement_re \<longrightarrow>
      mget (rule_entries g (kp_CommRules p)) \<lparr>rk_Generation = g, rk_Comm = comm_bytes [CHR 0xEF, CHR 0xBF, CHR 0xBD]\<rparr> =
        Some \<lparr>rv_Priority = priority, rv_Mark = mark\<rparr> \<and>
      mget (rule_entries g (kp_CommRules p)) \<lparr>rk_Generation = g, rk_Comm = comm_bytes [CHR 0xFF]\<rparr> = None \<and>
      cp_Check c (info\<lparr>pi_Comm := [CHR 0xFF]\<rparr>) = (priority, mark, True))"
proof (intro conjI impI)
  show "\<not> matched (cp_Check c (info\<lparr>pi_Comm := ''''\<rparr>))" if "kp_Mode p = KernelPolicyAuthoritative"
    using empty_name_unmatched [OF assms(1)] normalize_normal(2) [OF assms(2)] that by simp
  show "cp_Check c (info\<lparr>pi_Comm := [CHR 0xFF]\<rparr>) = (priority, mark, True)" if "parse pattern = Inr replacement_re"
    using pattern_matched [OF assms(1,3) that] replacement_rune_differs(2) by simp
qed (assumption | rule promoted_entry [OF assms] byte_unmarked [OF assms(1,2)] limit_names)+

theorem promotion_limits_witness:
  "\<exists>c. compileDefaultKernelPolicy demo_parse (=) (demo_rules limit_patterns) 5 7 = Inr c \<and>
     mget (rule_entries 2 (kp_CommRules (cp_Policy c))) \<lparr>rk_Generation = 2, rk_Comm = comm_bytes ''''\<rparr> =
       Some \<lparr>rv_Priority = 5, rv_Mark = 7\<rparr> \<and>
     \<not> matched (cp_Check c (shell_info\<lparr>pi_Comm := ''''\<rparr>)) \<and>
     mget (rule_entries 2 (kp_CommRules (cp_Policy c))) \<lparr>rk_Generation = 2, rk_Comm = comm_bytes [CHR 0xFF]\<rparr> = None \<and>
     cp_Check c (shell_info\<lparr>pi_Comm := [CHR 0xFF]\<rparr>) = (5, 7, True)"
proof -
  obtain c where c: "compileDefaultKernelPolicy demo_parse (=) (demo_rules limit_patterns) 5 7 = Inr c"
    and norm: "validateAndNormalizeKernelPolicy (cp_Policy c) = Inr (cp_Policy c)"
    and mode: "kp_Mode (cp_Policy c) = KernelPolicyAuthoritative"
    using demo_limits by blast
  have "''^$'' \<in> set (splitRegexpList (RuleComm (demo_rules limit_patterns)))"
    "replacement_pattern \<in> set (splitRegexpList (RuleComm (demo_rules limit_patterns)))"
    by (simp_all add: demo_limit_patterns)
  from promotion_limits [OF c norm this(1), of 2 shell_info] promotion_limits [OF c norm this(2), of 2 shell_info]
  show ?thesis using c mode by (simp add: demo_parse_shell demo_parse_replacement)
qed

end
